(* ===== verification/Prelude.thy ===== *)
theory Prelude
  imports Main "HOL-Library.List_Lexorder" "HOL-Library.Char_ord" "HOL-Library.Word"
begin

text \<open>
  Shared vocabulary of the development: circular slices of lists, the ring of piece
  indices, C strings and decimal numerals, the ordered association list that stands for
  \<open>std::map\<close>, and the result type of code that can run outside its memory.
\<close>

named_theorems ring_simps \<open>index arithmetic on rings of pieces\<close>
named_theorems cstr_simps \<open>C strings and decimal numerals\<close>

section \<open>Results\<close>

text \<open>
  \<open>Fault\<close> marks undefined behaviour of the C++ code: a read or a write outside an array.
  It is kept apart from every value the code returns.
\<close>

datatype 'a outcome = Fault | Done 'a

fun bind_outcome :: "'a outcome \<Rightarrow> ('a \<Rightarrow> 'b outcome) \<Rightarrow> 'b outcome" where
  "bind_outcome Fault f = Fault"
| "bind_outcome (Done x) f = f x"

lemma bind_outcome_Done_iff:
  "bind_outcome m f = Done y \<longleftrightarrow> (\<exists>x. m = Done x \<and> f x = Done y)"
  by (cases m) auto

lemma bind_outcome_assoc [simp]:
  "bind_outcome (bind_outcome m f) g = bind_outcome m (\<lambda>x. bind_outcome (f x) g)"
  by (cases m) auto

text \<open>What holds of the result of an operation, if it has one.\<close>

definition ends_in :: "('s \<Rightarrow> bool) \<Rightarrow> 's outcome \<Rightarrow> bool" where
  "ends_in P m \<longleftrightarrow> (\<forall>t. m = Done t \<longrightarrow> P t)"

lemma ends_in_intros:
  "ends_in P Fault" "P t \<Longrightarrow> ends_in P (Done t)"
  "(b \<Longrightarrow> ends_in P m) \<Longrightarrow> (\<not> b \<Longrightarrow> ends_in P n) \<Longrightarrow> ends_in P (if b then m else n)"
  "(\<And>x. k = Done x \<Longrightarrow> ends_in P (f x)) \<Longrightarrow> ends_in P (bind_outcome k f)"
  by (auto simp: ends_in_def bind_outcome_Done_iff)

lemma ends_in_mono: "ends_in P m \<Longrightarrow> (\<And>t. P t \<Longrightarrow> Q t) \<Longrightarrow> ends_in Q m"
  by (auto simp: ends_in_def)

lemma ends_inD: "ends_in P m \<Longrightarrow> m = Done t \<Longrightarrow> P t"
  by (simp add: ends_in_def)

section \<open>Integers of 32 bits\<close>

text \<open>
  What an \<open>int\<close> of 32 bits keeps of a value: two's complement. (For C++ a signed overflow is undefined;
  the theorems about sizes state the bound under which there is none.)
\<close>

definition int32 :: "int \<Rightarrow> int" where
  "int32 x = signed_take_bit 31 x"

lemma int32_id: "- (2 ^ 31) \<le> x \<Longrightarrow> x < 2 ^ 31 \<Longrightarrow> int32 x = x"
  unfolding int32_def by (rule signed_take_bit_int_eq_self)

lemma int32_nat: "n < 2 ^ 31 \<Longrightarrow> int32 (int n) = int n"
  by (rule int32_id) (simp_all add: nat_less_iff)

lemma int32_mod: "int32 x mod 2 ^ 32 = x mod 2 ^ 32"
proof -
  have "take_bit (Suc 31) (signed_take_bit 31 x) = take_bit (Suc 31) x"
    by (simp add: take_bit_signed_take_bit)
  then show ?thesis by (simp add: int32_def take_bit_eq_mod)
qed

lemma int32_cong: "x mod 2 ^ 32 = y mod 2 ^ 32 \<Longrightarrow> int32 x = int32 y"
  unfolding int32_def signed_take_bit_eq_iff_take_bit_eq by (simp add: take_bit_eq_mod)

lemma int32_add: "int32 (int32 x + y) = int32 (x + y)"
  by (rule int32_cong) (metis int32_mod mod_add_left_eq)

lemma int32_sum: "int32 (foldl (\<lambda>s t. int32 (s + f t)) (int32 x) ts + y) = int32 (x + (\<Sum>t\<leftarrow>ts. f t) + y)"
  by (induction ts arbitrary: x) (simp_all add: int32_add add.assoc)

section \<open>Lists\<close>

lemma int_sum_list: "(\<Sum>x\<leftarrow>xs. int (f x)) = int (\<Sum>x\<leftarrow>xs. f x)"
  by (induction xs) auto

section \<open>Circular slices\<close>

text \<open>The elements from index \<open>i\<close> up to, not including, index \<open>j\<close>, wrapping at the end.\<close>

definition cslice :: "'a list \<Rightarrow> nat \<Rightarrow> nat \<Rightarrow> 'a list" where
  "cslice xs i j = (if i \<le> j then take (j - i) (drop i xs) else drop i xs @ take j xs)"

definition cdist :: "nat \<Rightarrow> nat \<Rightarrow> nat \<Rightarrow> nat" where
  "cdist T i j = (if i \<le> j then j - i else T - i + j)"

lemma length_cslice [simp]:
  "i \<le> length xs \<Longrightarrow> j \<le> length xs \<Longrightarrow> length (cslice xs i j) = cdist (length xs) i j"
  by (auto simp: cslice_def cdist_def)

lemma cslice_same [simp]: "cslice xs i i = []"
  by (simp add: cslice_def)

lemma cdist_same [simp]: "cdist T i i = 0"
  by (simp add: cdist_def)

lemma cdist_less: "i < T \<Longrightarrow> j < T \<Longrightarrow> cdist T i j < T"
  by (auto simp: cdist_def)

lemma cdist_0_iff: "i < T \<Longrightarrow> j < T \<Longrightarrow> cdist T i j = 0 \<longleftrightarrow> i = j"
  by (auto simp: cdist_def)

lemma cdist_mod: "i < T \<Longrightarrow> j < T \<Longrightarrow> cdist T i j = (j + T - i) mod T"
  by (auto simp: cdist_def le_mod_geq mod_if)

lemma cslice_rotate:
  assumes "i < length xs" and "j < length xs"
  shows "cslice xs i j = take (cdist (length xs) i j) (drop i xs @ take i xs)"
proof (cases "i \<le> j")
  case True
  with assms show ?thesis by (simp add: cslice_def cdist_def)
next
  case False
  with assms show ?thesis by (simp add: cslice_def cdist_def take_drop min_def)
qed

lemma cslice_step:
  assumes i: "i < length xs" and j: "j < length xs" and ne: "i \<noteq> j"
  shows "cslice xs i j = xs ! i # cslice xs (Suc i mod length xs) j"
proof (cases "Suc i < length xs")
  case True
  then have [simp]: "drop i xs = xs ! i # drop (Suc i) xs"
    using i by (simp add: Cons_nth_drop_Suc)
  show ?thesis
  proof (cases "i < j")
    case True
    then show ?thesis using \<open>Suc i < length xs\<close>
      by (simp add: cslice_def Suc_diff_Suc [symmetric])
  next
    case False
    then show ?thesis using \<open>Suc i < length xs\<close> ne
      by (simp add: cslice_def)
  qed
next
  case False
  with i have e: "Suc i = length xs" by simp
  then have "drop i xs = [xs ! i]"
    using i by (metis Cons_nth_drop_Suc drop_all order_refl)
  then show ?thesis using e j ne i by (simp add: cslice_def)
qed

lemma cslice_nth:
  assumes "i < length xs" "j < length xs" "k < cdist (length xs) i j"
  shows "cslice xs i j ! k = xs ! ((i + k) mod length xs)"
proof (cases "i \<le> j")
  case True
  with assms show ?thesis by (simp add: cslice_def cdist_def)
next
  case False
  with assms show ?thesis
    by (auto simp: cslice_def cdist_def nth_append mod_if add.commute)
qed

lemma cslice_map:
  assumes "i < length xs" "j < length xs"
  shows "cslice xs i j = map (\<lambda>k. xs ! ((i + k) mod length xs)) [0..<cdist (length xs) i j]"
  by (rule nth_equalityI) (use assms in \<open>auto simp: cslice_nth\<close>)

lemma cslice_append:
  assumes "i < length xs" "j < length xs" "n + cdist (length xs) i j < length xs"
  shows "cslice xs i ((j + n) mod length xs) = cslice xs i j @ cslice xs j ((j + n) mod length xs)"
  using assms
proof (induction "cdist (length xs) i j" arbitrary: i)
  case 0
  then show ?case using cdist_0_iff [of i "length xs" j] by simp
next
  case (Suc d)
  let ?T = "length xs"
  have ne: "i \<noteq> j" using Suc.hyps(2) by auto
  have T: "0 < ?T" using Suc.prems(1) by linarith
  have i': "Suc i mod ?T < ?T" using T by simp
  have step: "Suc (cdist ?T (Suc i mod ?T) j) = cdist ?T i j"
    using Suc.prems(1,2) ne by (auto simp: cdist_def mod_Suc)
  then have d: "d = cdist ?T (Suc i mod ?T) j" using Suc.hyps(2) by simp
  have e: "i \<noteq> (j + n) mod ?T"
    using Suc.prems ne by (auto simp: cdist_def mod_if split: if_splits)
  have IH: "cslice xs (Suc i mod ?T) ((j + n) mod ?T) =
      cslice xs (Suc i mod ?T) j @ cslice xs j ((j + n) mod ?T)"
    by (rule Suc.hyps(1) [OF d i' Suc.prems(2)]) (use step Suc.prems(3) in simp)
  show ?case
    using Suc.prems T ne e IH by (simp add: cslice_step [of i xs j] cslice_step [of i xs])
qed

lemma cslice_drop:
  assumes "i < length xs" "j < length xs" "n \<le> cdist (length xs) i j"
  shows "cslice xs ((i + n) mod length xs) j = drop n (cslice xs i j)"
  using assms
proof (induction n arbitrary: i)
  case 0
  then show ?case by simp
next
  case (Suc n)
  let ?T = "length xs"
  have ne: "i \<noteq> j" using Suc.prems(3) by auto
  have i': "Suc i mod ?T < ?T" by (rule mod_less_divisor) (use Suc.prems(1) in linarith)
  have "Suc (cdist ?T (Suc i mod ?T) j) = cdist ?T i j"
    using Suc.prems(1,2) ne by (auto simp: cdist_def mod_Suc)
  then have "n \<le> cdist ?T (Suc i mod ?T) j" using Suc.prems(3) by simp
  from Suc.IH [OF i' Suc.prems(2) this]
  have "cslice xs ((Suc i mod ?T + n) mod ?T) j = drop n (cslice xs (Suc i mod ?T) j)" .
  then show ?case
    using cslice_step [OF Suc.prems(1,2) ne] by (simp add: mod_simps)
qed

section \<open>Rings of indices\<close>

lemma Suc_mod_less [simp]: "i < N \<Longrightarrow> Suc i mod N < N"
  by (rule mod_less_divisor) simp

text \<open>
  The loop \<open>for(t = i; t != e; t = (t + 1) % N)\<close> of the buffer code visits these indices.
  The guard covers index values outside the ring, which never index the array.
\<close>

function ring_walk :: "nat \<Rightarrow> nat \<Rightarrow> nat \<Rightarrow> nat list" where
  "ring_walk N i e =
     (if i = e \<or> N \<le> i \<or> N \<le> e then [] else i # ring_walk N (Suc i mod N) e)"
  by pat_completeness auto
termination
  by (relation "measure (\<lambda>(N, i, e). cdist N i e)") (auto simp: cdist_def mod_Suc)

declare ring_walk.simps [simp del]

lemma ring_walk_eq:
  assumes "i < N" "e < N"
  shows "ring_walk N i e = (if i \<le> e then [i..<e] else [i..<N] @ [0..<e])"
  using assms
proof (induction N i e rule: ring_walk.induct)
  case (1 N i e)
  show ?case
  proof (cases "i = e")
    case True
    then show ?thesis by (simp add: ring_walk.simps)
  next
    case False
    then have w: "ring_walk N i e = i # ring_walk N (Suc i mod N) e"
      using "1.prems" by (subst ring_walk.simps) simp
    have IH: "ring_walk N (Suc i mod N) e =
        (if Suc i mod N \<le> e then [Suc i mod N..<e] else [Suc i mod N..<N] @ [0..<e])"
      using "1.IH" "1.prems" False by simp
    show ?thesis
    proof (cases "Suc i = N")
      case True
      then show ?thesis using w IH False "1.prems" by (simp add: upt_rec [of i])
    next
      case False
      then have "Suc i mod N = Suc i" using "1.prems" by simp
      then show ?thesis using w IH \<open>i \<noteq> e\<close> "1.prems" by (auto simp: upt_rec [of i])
    qed
  qed
qed

lemma ring_walk_same [simp]: "ring_walk N i i = []"
  by (simp add: ring_walk.simps)

lemma set_ring_walk: "t \<in> set (ring_walk N i e) \<Longrightarrow> t < N \<and> t \<noteq> e"
  by (induction N i e rule: ring_walk.induct) (subst (asm) (2) ring_walk.simps, auto split: if_splits)

lemma length_ring_walk: "i < N \<Longrightarrow> e < N \<Longrightarrow> length (ring_walk N i e) = cdist N i e"
  by (auto simp: ring_walk_eq cdist_def)

section \<open>C strings and decimal numerals\<close>

abbreviation (input) NUL :: char where "NUL \<equiv> CHR 0x00"
abbreviation (input) SP :: char where "SP \<equiv> CHR 0x20"
abbreviation (input) CR :: char where "CR \<equiv> CHR 0x0D"
abbreviation (input) LF :: char where "LF \<equiv> CHR 0x0A"
abbreviation (input) CRLF :: string where "CRLF \<equiv> [CR, LF]"

text \<open>\<open>std::string::c_str\<close> read by a C function: up to the first zero byte.\<close>

definition c_str :: "string \<Rightarrow> string" where
  "c_str s = takeWhile (\<lambda>c. c \<noteq> NUL) s"

lemma c_str_id [cstr_simps]: "NUL \<notin> set s \<Longrightarrow> c_str s = s"
  by (simp add: c_str_def takeWhile_eq_all_conv) metis

definition digit_char :: "nat \<Rightarrow> char" where
  "digit_char d = char_of (48 + d)"

definition is_digit :: "char \<Rightarrow> bool" where
  "is_digit c \<longleftrightarrow> 48 \<le> (of_char c :: nat) \<and> (of_char c :: nat) \<le> 57"

definition digit_val :: "char \<Rightarrow> nat" where
  "digit_val c = of_char c - 48"

text \<open>The digits \<open>printf\<close> writes for an unsigned value, most significant first.\<close>

fun dec_str :: "nat \<Rightarrow> string" where
  "dec_str n = (if n < 10 then [digit_char n] else dec_str (n div 10) @ [digit_char (n mod 10)])"

declare dec_str.simps [simp del]

text \<open>The value of a leading run of digits, as \<open>strtol\<close> with base 10 reads it.\<close>

definition digits_val :: "string \<Rightarrow> nat" where
  "digits_val s = foldl (\<lambda>a c. a * 10 + digit_val c) 0 (takeWhile is_digit s)"

lemma is_digit_digit_char [cstr_simps]: "d < 10 \<Longrightarrow> is_digit (digit_char d)"
  by (simp add: is_digit_def digit_char_def)

lemma digit_val_digit_char [cstr_simps]: "d < 10 \<Longrightarrow> digit_val (digit_char d) = d"
  by (simp add: digit_val_def digit_char_def)

lemma dec_str_digits [cstr_simps]: "list_all is_digit (dec_str n)"
proof (induction n rule: dec_str.induct)
  case (1 n)
  then show ?case by (subst dec_str.simps) (auto simp: cstr_simps)
qed

lemma dec_str_nonempty [simp]: "dec_str n \<noteq> []"
  by (subst dec_str.simps) simp

lemma foldl_dec_str: "foldl (\<lambda>a c. a * 10 + digit_val c) 0 (dec_str n) = n"
proof (induction n rule: dec_str.induct)
  case (1 n)
  then show ?case
    by (cases "n < 10") (subst dec_str.simps, simp add: cstr_simps)+
qed

lemma digits_val_dec_str [cstr_simps]:
  assumes "\<And>c cs. r = c # cs \<Longrightarrow> \<not> is_digit c"
  shows "digits_val (dec_str n @ r) = n"
proof -
  have "takeWhile is_digit (dec_str n @ r) = dec_str n"
    using assms dec_str_digits [of n]
    by (cases r) (auto simp: takeWhile_append takeWhile_eq_all_conv list_all_iff)
  then show ?thesis by (simp add: digits_val_def foldl_dec_str)
qed

lemma digit_not_special [cstr_simps]:
  "is_digit c \<Longrightarrow> c \<noteq> NUL \<and> c \<noteq> SP \<and> c \<noteq> CR \<and> c \<noteq> LF \<and> c \<noteq> CHR '':'' \<and> c \<noteq> CHR ''-'' \<and> c \<noteq> CHR ''+''"
  by (auto simp: is_digit_def)

text \<open>
  \<open>strtoul\<close>-style conversion with base 10: white space, an optional sign, digits. The result
  is the sign and the magnitude, or nothing where there is no digit.
\<close>

definition is_space :: "char \<Rightarrow> bool" where
  "is_space c \<longleftrightarrow> c = SP \<or> 9 \<le> (of_char c :: nat) \<and> (of_char c :: nat) \<le> 13"

definition c_number :: "string \<Rightarrow> (bool \<times> nat) option" where
  "c_number s =
     (let t = dropWhile is_space s;
          neg = (t \<noteq> [] \<and> hd t = CHR ''-'');
          u = (if t \<noteq> [] \<and> hd t \<in> {CHR ''-'', CHR ''+''} then tl t else t)
      in if u \<noteq> [] \<and> is_digit (hd u) then Some (neg, digits_val u) else None)"

definition strtol :: "string \<Rightarrow> int" where
  "strtol s =
     (case c_number (c_str s) of None \<Rightarrow> 0
      | Some (neg, v) \<Rightarrow> if neg then max (- (2 ^ 63)) (- int v) else min (2 ^ 63 - 1) (int v))"

definition strtoull :: "string \<Rightarrow> 64 word" where
  "strtoull s =
     (case c_number (c_str s) of None \<Rightarrow> 0
      | Some (neg, v) \<Rightarrow>
          if 2 ^ 64 \<le> v then - 1 else if neg then - word_of_nat v else word_of_nat v)"

lemma hd_dec_str [cstr_simps]: "is_digit (hd (dec_str n))"
  using dec_str_digits [of n] by (cases "dec_str n") auto

lemma digit_not_space [cstr_simps]: "is_digit c \<Longrightarrow> \<not> is_space c"
  by (auto simp: is_digit_def is_space_def)

lemma c_number_dec_str [cstr_simps]:
  assumes "\<And>c cs. r = c # cs \<Longrightarrow> \<not> is_digit c"
  shows "c_number (dec_str n @ r) = Some (False, n)"
proof -
  obtain d ds where d: "dec_str n = d # ds" by (cases "dec_str n") auto
  then have "is_digit d" using hd_dec_str [of n] by simp
  then show ?thesis
    using digits_val_dec_str [of r n] assms digit_not_space digit_not_special
    by (auto simp: c_number_def d Let_def)
qed

lemma dec_str_no_NUL [cstr_simps]: "c_str (dec_str n @ r) = dec_str n @ c_str r"
  using dec_str_digits [of n] digit_not_special
  by (auto simp: c_str_def takeWhile_append list_all_iff)

section \<open>std::map with string keys\<close>

text \<open>
  \<open>std::map\<close> iterates in key order; strings compare as unsigned bytes, lexicographically.
  The model is the list of its entries in that order.
\<close>

type_synonym ('k, 'v) smap = "('k \<times> 'v) list"

fun smap_set :: "'k::linorder \<Rightarrow> 'v \<Rightarrow> ('k, 'v) smap \<Rightarrow> ('k, 'v) smap" where
  "smap_set k v [] = [(k, v)]"
| "smap_set k v ((k', v') # m) =
     (if k < k' then (k, v) # (k', v') # m
      else if k = k' then (k, v) # m
      else (k', v') # smap_set k v m)"

definition smap_ok :: "('k::linorder, 'v) smap \<Rightarrow> bool" where
  "smap_ok m \<longleftrightarrow> sorted_wrt (<) (map fst m)"

lemma set_smap_set: "fst ` set (smap_set k v m) = insert k (fst ` set m)"
  by (induction k v m rule: smap_set.induct) auto

lemma smap_ok_Nil [simp]: "smap_ok []"
  by (simp add: smap_ok_def)

lemma smap_ok_set [simp]: "smap_ok m \<Longrightarrow> smap_ok (smap_set k v m)"
  unfolding smap_ok_def
proof (induction k v m rule: smap_set.induct)
  case (2 k v k' v' m)
  then show ?case
    using set_smap_set [of k v m] by (auto simp: image_iff)
qed simp

lemma smap_get_set [simp]:
  "smap_ok m \<Longrightarrow> map_of (smap_set k v m) = (map_of m)(k \<mapsto> v)"
  unfolding smap_ok_def
proof (induction k v m rule: smap_set.induct)
  case (2 k v k' v' m)
  then show ?case by (auto simp: fun_eq_iff)
qed simp

end
