(* ===== verification/Buffer.thy ===== *)
theory Buffer
  imports Prelude
begin

text \<open>
  The ring of buffer pieces of \<open>mio/mio_buffer.h\<close> and \<open>mio/mio_buffer.cpp\<close>: pieces,
  iterators, \<open>IOBuffer\<close>, \<open>ReadBuffer\<close> and \<open>WriteBuffer\<close>. An iterator's \<open>_que\<close> pointer
  is the piece list passed beside it. \<open>MAX_BUFFER_PIECES\<close> is the length of that list, and
  \<open>DEFAULT_BUFFER_SIZE\<close> is an argument of the operations that read it (both are mutable
  globals of the program, so the lemmas hold for every value of them).

  The abstract view: the used parts of the pieces, laid end to end, form one circular array
  (\<open>flat\<close>), an iterator is an index into it (\<open>lin\<close>), and a buffer is the byte queue between
  its read and write positions (\<open>content\<close>).
\<close>

section \<open>Data\<close>

definition DEFAULT_BUFFER_SIZE :: nat where
  "DEFAULT_BUFFER_SIZE = 1024 * 512"

definition MAX_BUFFER_PIECES :: nat where
  "MAX_BUFFER_PIECES = 16"

record piece =
  pbuf :: "char list"   \<comment> \<open>the array \<open>buffer\<close>\<close>
  psize :: nat          \<comment> \<open>its used size \<open>size\<close>\<close>

record iter =
  it_idx :: nat   \<comment> \<open>\<open>_idx\<close>\<close>
  it_pos :: nat   \<comment> \<open>\<open>_pos\<close>, negative only inside \<open>operator-=\<close>\<close>

record iovec =
  iov_piece :: nat  \<comment> \<open>\<open>iov_base\<close> is a pointer into this piece,\<close>
  iov_off :: nat    \<comment> \<open>at this offset\<close>
  iov_len :: int

record iobuf =
  que :: "piece list"
  readpos :: iter
  writepos :: iter

record read_buffer = iobuf +
  beginRead :: iter

record write_buffer = iobuf +
  beginWrite :: iter

abbreviation psz :: "piece list \<Rightarrow> nat \<Rightarrow> nat" where
  "psz q i \<equiv> psize (q ! i)"

abbreviation mk_it :: "nat \<Rightarrow> nat \<Rightarrow> iter" where
  "mk_it i p \<equiv> \<lparr>it_idx = i, it_pos = p\<rparr>"

definition new_piece :: "nat \<Rightarrow> piece" where
  \<comment> \<open>\<open>new char[n]\<close> leaves the bytes indeterminate; no lemma depends on their value\<close>
  "new_piece dbs = \<lparr>pbuf = replicate dbs NUL, psize = dbs\<rparr>"

definition new_iobuf :: "nat \<Rightarrow> nat \<Rightarrow> iobuf" where
  "new_iobuf n dbs =
     \<lparr>que = replicate n (new_piece dbs), readpos = mk_it 0 0, writepos = mk_it 0 0\<rparr>"

definition new_read_buffer :: "nat \<Rightarrow> nat \<Rightarrow> read_buffer" where
  "new_read_buffer n dbs = iobuf.extend (new_iobuf n dbs) (read_buffer.fields (mk_it 0 0))"

definition new_write_buffer :: "nat \<Rightarrow> nat \<Rightarrow> write_buffer" where
  "new_write_buffer n dbs = iobuf.extend (new_iobuf n dbs) (write_buffer.fields (mk_it 0 0))"

section \<open>Iterator\<close>

definition it_less :: "iter \<Rightarrow> iter \<Rightarrow> bool" where
  "it_less a b =
     (if it_idx a < it_idx b then True
      else if it_idx a > it_idx b then False
      else it_pos a < it_pos b)"

text \<open>\<open>size\<close> and the result are an \<open>int\<close> of 32 bits.\<close>

definition it_diff :: "piece list \<Rightarrow> iter \<Rightarrow> iter \<Rightarrow> int" where
  "it_diff q this it =
     (let end_idx = it_idx this; start_idx = it_idx it in
      if end_idx = start_idx \<and> it_pos it \<le> it_pos this then int32 (int (it_pos this) - int (it_pos it))
      else
        let size = int32 (int (psz q (it_idx it)) - int (it_pos it));
            size = foldl (\<lambda>size idx. int32 (size + int (psz q idx))) size
              (ring_walk (length q) ((start_idx + 1) mod length q) end_idx)
        in int32 (size + int (it_pos this)))"

text \<open>The loops of \<open>operator+=\<close> and \<open>operator-=\<close>; \<open>None\<close> is a loop that does not end.\<close>

partial_function (option) it_norm :: "piece list \<Rightarrow> nat \<Rightarrow> nat \<Rightarrow> iter option" where
  "it_norm q i p =
     (if psz q i \<le> p then it_norm q ((i + 1) mod length q) (p - psz q i)
      else Some (mk_it i p))"

definition it_add :: "piece list \<Rightarrow> iter \<Rightarrow> nat \<Rightarrow> iter option" where
  "it_add q it n = it_norm q (it_idx it) (it_pos it + n)"

partial_function (option) it_norm_back :: "piece list \<Rightarrow> nat \<Rightarrow> int \<Rightarrow> iter option" where
  "it_norm_back q i p =
     (if p < 0 then it_norm_back q ((i + length q - 1) mod length q) (p + int (psz q i))
      else Some (mk_it i (nat p)))"

definition it_sub :: "piece list \<Rightarrow> iter \<Rightarrow> nat \<Rightarrow> iter option" where
  "it_sub q it n = it_norm_back q (it_idx it) (int (it_pos it) - int n)"

definition it_deref :: "piece list \<Rightarrow> iter \<Rightarrow> char" where
  "it_deref q it = pbuf (q ! it_idx it) ! it_pos it"

definition it_left :: "nat \<Rightarrow> iter \<Rightarrow> int" where
  "it_left dbs it = int dbs - int (it_pos it)"

definition it_inc :: "piece list \<Rightarrow> iter \<Rightarrow> iter" where
  "it_inc q it =
     (if it_pos it + 1 < psz q (it_idx it) then it\<lparr>it_pos := it_pos it + 1\<rparr>
      else mk_it ((it_idx it + 1) mod length q) 0)"

definition isBetween :: "iter \<Rightarrow> iter \<Rightarrow> iter \<Rightarrow> bool" where
  "isBetween this A B =
     (if this = A then True
      else if this = B then False
      else if it_less A B \<or> A = B then it_less A this \<and> it_less this B
      else it_less B this \<or> it_less A this)"

section \<open>IOBuffer\<close>

definition AlignWritePos :: "'a iobuf_scheme \<Rightarrow> iter \<times> 'a iobuf_scheme" where
  "AlignWritePos b =
     (let w = mk_it ((it_idx (writepos b) + 1) mod length (que b)) 0
      in (w, b\<lparr>writepos := w\<rparr>))"

definition set_psize :: "piece list \<Rightarrow> nat \<Rightarrow> nat \<Rightarrow> piece list" where
  "set_psize q i n = q[i := (q ! i)\<lparr>psize := n\<rparr>]"

definition Reserve :: "'a iobuf_scheme \<Rightarrow> nat \<Rightarrow> bool \<times> 'a iobuf_scheme" where
  "Reserve b n =
     (let w = writepos b; r = readpos b; q = que b in
      if it_idx w = it_idx r \<and> it_pos w < it_pos r then (False, b)
      else if (int (psz q (it_idx w)) - int (it_pos w)) mod 2 ^ 32 < int n
      then (True, b\<lparr>que := set_psize q (it_idx w) (it_pos w),
                    writepos := mk_it ((it_idx w + 1) mod length q) 0\<rparr>)
      else (True, b))"

definition isFull :: "'a iobuf_scheme \<Rightarrow> bool" where
  "isFull b \<longleftrightarrow> it_idx (writepos b) = it_idx (readpos b)
     \<and> it_pos (writepos b) + 1 = it_pos (readpos b)"

definition isEmpty :: "'a iobuf_scheme \<Rightarrow> bool" where
  "isEmpty b \<longleftrightarrow> readpos b = writepos b"

text \<open>
  The part of \<open>GetReciveBuffer\<close> and \<open>GetSendBuffer\<close> after their first guard; the two
  bodies differ only in the roles of the positions \<open>a\<close> (start) and \<open>e\<close> (end).
\<close>

definition iov_between :: "piece list \<Rightarrow> iter \<Rightarrow> iter \<Rightarrow> iovec list" where
  "iov_between q a e =
     (if it_idx e = it_idx a \<and> it_pos a < it_pos e
      then [\<lparr>iov_piece = it_idx a, iov_off = it_pos a, iov_len = int (it_pos e) - int (it_pos a)\<rparr>]
      else \<lparr>iov_piece = it_idx a, iov_off = it_pos a,
             iov_len = int (psz q (it_idx a)) - int (it_pos a)\<rparr>
         # map (\<lambda>t. \<lparr>iov_piece = t, iov_off = 0, iov_len = int (psz q t)\<rparr>)
             (ring_walk (length q) ((it_idx a + 1) mod length q) (it_idx e))
         @ (if it_pos e > 0
            then [\<lparr>iov_piece = it_idx e, iov_off = 0, iov_len = int (it_pos e)\<rparr>] else []))"

text \<open>The list is the array \<open>iov\<close>, its length is \<open>iov_num\<close>.\<close>

definition GetReciveBuffer :: "'a iobuf_scheme \<Rightarrow> bool \<times> iovec list" where
  "GetReciveBuffer b =
     (if isFull b then (False, []) else (True, iov_between (que b) (writepos b) (readpos b)))"

definition MoveRecivePtr :: "'a iobuf_scheme \<Rightarrow> nat \<Rightarrow> 'a iobuf_scheme option" where
  "MoveRecivePtr b n = map_option (\<lambda>w. b\<lparr>writepos := w\<rparr>) (it_add (que b) (writepos b) n)"

definition GetSendBuffer_to :: "'a iobuf_scheme \<Rightarrow> iter \<Rightarrow> bool \<times> iovec list" where
  "GetSendBuffer_to b e =
     (if e = readpos b then (False, []) else (True, iov_between (que b) (readpos b) e))"

definition GetSendBuffer :: "'a iobuf_scheme \<Rightarrow> bool \<times> iovec list" where
  "GetSendBuffer b = GetSendBuffer_to b (writepos b)"

definition MoveSendPtr :: "'a iobuf_scheme \<Rightarrow> nat \<Rightarrow> 'a iobuf_scheme option" where
  "MoveSendPtr b n = map_option (\<lambda>r. b\<lparr>readpos := r\<rparr>) (it_add (que b) (readpos b) n)"

definition GetBufferLeft :: "nat \<Rightarrow> 'a iobuf_scheme \<Rightarrow> int" where
  "GetBufferLeft dbs b =
     (if readpos b = writepos b then int32 (int (length (que b)) * int dbs)
      else it_diff (que b) (readpos b) (writepos b))"

definition GetBufferUsed :: "'a iobuf_scheme \<Rightarrow> int" where
  "GetBufferUsed b = it_diff (que b) (writepos b) (readpos b) mod 2 ^ 32"

definition Reset :: "nat \<Rightarrow> 'a iobuf_scheme \<Rightarrow> 'a iobuf_scheme" where
  "Reset dbs b =
     (let r = readpos b; w = writepos b; q = que b in
      if isFull b then b
      else if it_idx r = it_idx w \<and> it_pos w < it_pos r then b
      else b\<lparr>que := set_psize
               (fold (\<lambda>t q. set_psize q t dbs)
                  (ring_walk (length q) ((it_idx w + 1) mod length q) (it_idx r)) q)
               (it_idx r) dbs\<rparr>)"

section \<open>ReadBuffer and WriteBuffer\<close>

text \<open>
  \<open>Next\<close> returns a pointer into a piece and a length: the \<open>iovec\<close> of the result. The
  protobuf library reads or fills that memory itself.
\<close>

definition ReadBuffer_Next :: "'a iobuf_scheme \<Rightarrow> (iovec \<times> 'a iobuf_scheme) option" where
  "ReadBuffer_Next b =
     (let r = readpos b; w = writepos b; q = que b in
      if isEmpty b then None
      else if it_idx r = it_idx w \<and> it_pos r < it_pos w
      then Some (\<lparr>iov_piece = it_idx r, iov_off = it_pos r,
                   iov_len = int (it_pos w) - int (it_pos r)\<rparr>,
                 b\<lparr>readpos := r\<lparr>it_pos := it_pos w\<rparr>\<rparr>)
      else Some (\<lparr>iov_piece = it_idx r, iov_off = it_pos r,
                   iov_len = int (psz q (it_idx r)) - int (it_pos r)\<rparr>,
                 b\<lparr>readpos := mk_it ((it_idx r + 1) mod length q) 0\<rparr>))"

definition ReadBuffer_BackUp :: "'a iobuf_scheme \<Rightarrow> nat \<Rightarrow> 'a iobuf_scheme option" where
  "ReadBuffer_BackUp b count =
     map_option (\<lambda>r. b\<lparr>readpos := r\<rparr>) (it_sub (que b) (readpos b) count)"

definition ReadBuffer_Skip :: "'a iobuf_scheme \<Rightarrow> nat \<Rightarrow> 'a iobuf_scheme option" where
  \<comment> \<open>the loop of \<open>Skip\<close> is the loop of \<open>operator+=\<close> on copies of the fields\<close>
  "ReadBuffer_Skip b count =
     map_option (\<lambda>r. b\<lparr>readpos := r\<rparr>)
       (it_norm (que b) (it_idx (readpos b)) (it_pos (readpos b) + count))"

definition ReadBuffer_ByteCount :: "read_buffer \<Rightarrow> int" where
  "ReadBuffer_ByteCount b = it_diff (que b) (readpos b) (beginRead b)"

definition ReadBuffer_BeginPacket :: "read_buffer \<Rightarrow> read_buffer" where
  "ReadBuffer_BeginPacket b = b\<lparr>beginRead := readpos b\<rparr>"

definition WriteBuffer_Next :: "'a iobuf_scheme \<Rightarrow> (iovec \<times> 'a iobuf_scheme) option" where
  "WriteBuffer_Next b =
     (let r = readpos b; w = writepos b; q = que b in
      if isFull b then None
      else if it_idx r = it_idx w \<and> int (it_pos w) < int (it_pos r) - 1
      then Some (\<lparr>iov_piece = it_idx w, iov_off = it_pos w,
                   iov_len = int (it_pos r) - 1 - int (it_pos w)\<rparr>,
                 b\<lparr>writepos := w\<lparr>it_pos := it_pos r - 1\<rparr>\<rparr>)
      else Some (\<lparr>iov_piece = it_idx w, iov_off = it_pos w,
                   iov_len = int (psz q (it_idx w)) - int (it_pos w)\<rparr>,
                 b\<lparr>writepos := mk_it ((it_idx w + 1) mod length q) 0\<rparr>))"

definition WriteBuffer_BackUp :: "'a iobuf_scheme \<Rightarrow> nat \<Rightarrow> 'a iobuf_scheme option" where
  "WriteBuffer_BackUp b count =
     map_option (\<lambda>w. b\<lparr>writepos := w\<rparr>) (it_sub (que b) (writepos b) count)"

definition WriteBuffer_ByteCount :: "write_buffer \<Rightarrow> int" where
  "WriteBuffer_ByteCount b = it_diff (que b) (writepos b) (beginWrite b)"

definition WriteBuffer_BeginPacket :: "write_buffer \<Rightarrow> write_buffer" where
  \<comment> \<open>the code stores \<open>readpos\<close>, not \<open>writepos\<close>\<close>
  "WriteBuffer_BeginPacket b = b\<lparr>beginWrite := readpos b\<rparr>"

text \<open>The copy constructors share the pieces of their argument.\<close>

definition ReadBuffer_of_WriteBuffer :: "write_buffer \<Rightarrow> read_buffer" where
  "ReadBuffer_of_WriteBuffer b =
     \<lparr>que = que b, readpos = readpos b, writepos = writepos b, beginRead = beginWrite b\<rparr>"

definition WriteBuffer_of_ReadBuffer :: "read_buffer \<Rightarrow> write_buffer" where
  "WriteBuffer_of_ReadBuffer b =
     \<lparr>que = que b, readpos = readpos b, writepos = writepos b, beginWrite = mk_it 0 0\<rparr>"

section \<open>The circular array view\<close>

definition off :: "piece list \<Rightarrow> nat \<Rightarrow> nat" where
  "off q i = sum_list (map psize (take i q))"

definition total :: "piece list \<Rightarrow> nat" where
  "total q = sum_list (map psize q)"

definition flat :: "piece list \<Rightarrow> char list" where
  "flat q = concat (map (\<lambda>p. take (psize p) (pbuf p)) q)"

definition lin :: "piece list \<Rightarrow> iter \<Rightarrow> nat" where
  "lin q it = off q (it_idx it) + it_pos it"

definition wf_que :: "piece list \<Rightarrow> bool" where
  "wf_que q \<longleftrightarrow> q \<noteq> [] \<and> list_all (\<lambda>p. 0 < psize p \<and> psize p \<le> length (pbuf p)) q"

definition wf_it :: "piece list \<Rightarrow> iter \<Rightarrow> bool" where
  "wf_it q it \<longleftrightarrow> it_idx it < length q \<and> it_pos it < psz q (it_idx it)"

definition wf_buf :: "'a iobuf_scheme \<Rightarrow> bool" where
  "wf_buf b \<longleftrightarrow> wf_que (que b) \<and> wf_it (que b) (readpos b) \<and> wf_it (que b) (writepos b)"

definition content :: "'a iobuf_scheme \<Rightarrow> char list" where
  "content b = cslice (flat (que b)) (lin (que b) (readpos b)) (lin (que b) (writepos b))"

definition room :: "'a iobuf_scheme \<Rightarrow> nat" where
  "room b = total (que b) - length (content b)"

lemma off_0 [simp]: "off q 0 = 0"
  by (simp add: off_def)

lemma off_length [simp]: "off q (length q) = total q"
  by (simp add: off_def total_def)

lemma off_Suc [ring_simps]: "i < length q \<Longrightarrow> off q (Suc i) = off q i + psz q i"
  by (simp add: off_def take_Suc_conv_app_nth)

lemma off_mono: "i \<le> j \<Longrightarrow> off q i \<le> off q j"
proof (induction j)
  case (Suc j)
  then show ?case
    by (cases "j < length q") (auto simp: off_Suc le_Suc_eq, simp add: off_def)
qed simp

lemma off_le_total: "off q i \<le> total q"
  using off_mono [of i "max i (length q)" q]
  by (simp add: off_def total_def max_def split: if_splits)

lemma wf_que_pos: "wf_que q \<Longrightarrow> i < length q \<Longrightarrow> 0 < psz q i"
  by (auto simp: wf_que_def list_all_length)

lemma wf_que_room: "wf_que q \<Longrightarrow> i < length q \<Longrightarrow> psz q i \<le> length (pbuf (q ! i))"
  by (auto simp: wf_que_def list_all_length)

lemma wf_que_total: "wf_que q \<Longrightarrow> 0 < total q"
  using off_Suc [of 0 q] off_le_total [of q 1] wf_que_pos [of q 0]
  by (auto simp: wf_que_def)

lemma length_flat: "wf_que q \<Longrightarrow> length (flat q) = total q"
proof -
  have "list_all (\<lambda>p. psize p \<le> length (pbuf p)) q \<Longrightarrow> length (flat q) = total q"
    by (induction q) (auto simp: flat_def total_def)
  then show "wf_que q \<Longrightarrow> ?thesis" by (simp add: wf_que_def list_all_length)
qed

lemma lin_less_off_Suc: "wf_it q it \<Longrightarrow> lin q it < off q (Suc (it_idx it))"
  by (simp add: wf_it_def lin_def ring_simps)

lemma lin_less: "wf_it q it \<Longrightarrow> lin q it < total q"
  using lin_less_off_Suc off_le_total by (metis order_less_le_trans)

lemma lin_idx_mono: "wf_it q a \<Longrightarrow> it_idx a < it_idx b \<Longrightarrow> lin q a < lin q b"
  using lin_less_off_Suc [of q a] off_mono [of "Suc (it_idx a)" "it_idx b" q]
  by (simp add: lin_def)

lemma lin_inj: "wf_it q a \<Longrightarrow> wf_it q b \<Longrightarrow> lin q a = lin q b \<longleftrightarrow> a = b"
proof
  assume a: "wf_it q a" and b: "wf_it q b" and e: "lin q a = lin q b"
  then have "it_idx a = it_idx b"
    using lin_idx_mono [OF a, of b] lin_idx_mono [OF b, of a] by (cases "it_idx a" "it_idx b" rule: linorder_cases) auto
  with e show "a = b" by (simp add: lin_def)
qed simp

lemma flat_nth:
  "wf_que q \<Longrightarrow> i < length q \<Longrightarrow> p < psz q i \<Longrightarrow> flat q ! (off q i + p) = pbuf (q ! i) ! p"
proof (induction q arbitrary: i)
  case (Cons x q)
  show ?case
  proof (cases i)
    case 0
    then show ?thesis using Cons.prems by (auto simp: flat_def wf_que_def nth_append)
  next
    case (Suc j)
    then have "q \<noteq> []" using Cons.prems(2) by auto
    then have wf: "wf_que q" using Cons.prems(1) by (simp add: wf_que_def)
    have "length (take (psize x) (pbuf x)) = psize x"
      using Cons.prems(1) by (simp add: wf_que_def)
    then show ?thesis
      using Cons.IH [OF wf, of j] Cons.prems Suc by (simp add: flat_def off_def nth_append add.assoc)
  qed
qed simp

lemma it_deref_flat: "wf_que q \<Longrightarrow> wf_it q it \<Longrightarrow> it_deref q it = flat q ! lin q it"
  by (simp add: it_deref_def lin_def wf_it_def flat_nth)

subsection \<open>Iterator arithmetic\<close>

lemma it_inc_wf: "wf_que q \<Longrightarrow> wf_it q it \<Longrightarrow> wf_it q (it_inc q it)"
  by (auto simp: it_inc_def wf_it_def wf_que_pos intro!: wf_que_pos)

lemma off_wrap:
  assumes "i < length q"
  shows "(off q ((i + 1) mod length q) + x) mod total q = (off q i + psz q i + x) mod total q"
proof (cases "Suc i = length q")
  case True
  then have "off q i + psz q i = total q" using off_Suc [OF assms] by simp
  with True show ?thesis by simp
next
  case False
  with assms show ?thesis by (simp add: ring_simps)
qed

lemma lin_it_inc:
  assumes "wf_que q" "wf_it q it"
  shows "lin q (it_inc q it) = Suc (lin q it) mod total q"
proof (cases "it_pos it + 1 < psz q (it_idx it)")
  case True
  then have "Suc (lin q it) < off q (Suc (it_idx it))"
    using assms(2) by (simp add: lin_def wf_it_def ring_simps)
  then have "Suc (lin q it) < total q" using off_le_total by (metis order_less_le_trans)
  with True show ?thesis by (simp add: it_inc_def lin_def)
next
  case False
  then have p: "Suc (it_pos it) = psz q (it_idx it)" using assms(2) by (simp add: wf_it_def)
  have "lin q (it_inc q it) = off q ((it_idx it + 1) mod length q) + 0"
    using False by (simp add: it_inc_def lin_def)
  moreover have "off q ((it_idx it + 1) mod length q) < total q"
    using lin_less [OF it_inc_wf [OF assms]] False by (simp add: it_inc_def lin_def)
  ultimately have "lin q (it_inc q it) = (off q ((it_idx it + 1) mod length q) + 0) mod total q"
    by simp
  also have "\<dots> = (off q (it_idx it) + psz q (it_idx it) + 0) mod total q"
    using assms(2) by (intro off_wrap) (simp add: wf_it_def)
  also have "off q (it_idx it) + psz q (it_idx it) + 0 = Suc (lin q it)"
    using p by (simp add: lin_def)
  finally show ?thesis .
qed

lemma it_norm_lin:
  assumes "wf_que q" "i < length q"
  shows "\<exists>it. it_norm q i p = Some it \<and> wf_it q it \<and> lin q it = (off q i + p) mod total q"
  using assms(2)
proof (induction p arbitrary: i rule: less_induct)
  case (less p)
  show ?case
  proof (cases "psz q i \<le> p")
    case True
    have i': "(i + 1) mod length q < length q" using less.prems by simp
    have "p - psz q i < p" using True wf_que_pos [OF assms(1) less.prems] by simp
    from less.IH [OF this i'] obtain it where it:
      "it_norm q ((i + 1) mod length q) (p - psz q i) = Some it" "wf_it q it"
      "lin q it = (off q ((i + 1) mod length q) + (p - psz q i)) mod total q" by blast
    have "lin q it = (off q i + psz q i + (p - psz q i)) mod total q"
      using it(3) off_wrap [OF less.prems] by simp
    then show ?thesis using it True by (subst it_norm.simps) simp
  next
    case False
    then have w: "wf_it q (mk_it i p)" using less.prems by (simp add: wf_it_def)
    then have "lin q (mk_it i p) = (off q i + p) mod total q"
      using lin_less [OF w] by (simp add: lin_def)
    with False w show ?thesis by (subst it_norm.simps) simp
  qed
qed

lemma it_add_lin:
  assumes "wf_que q" "wf_it q it"
  obtains it' where "it_add q it n = Some it'" "wf_it q it'"
    "lin q it' = (lin q it + n) mod total q"
  using it_norm_lin [OF assms(1), of "it_idx it" "it_pos it + n"] assms(2)
  by (auto simp: it_add_def wf_it_def lin_def add.assoc)

lemma sum_upt_psz: "a \<le> b \<Longrightarrow> b \<le> length q \<Longrightarrow> off q a + (\<Sum>t\<leftarrow>[a..<b]. psz q t) = off q b"
  by (induction b) (auto simp: le_Suc_eq off_Suc)

lemma walk_sum:
  assumes "i < length q" "e < length q"
  shows "off q (Suc i) + (\<Sum>t\<leftarrow>ring_walk (length q) ((i + 1) mod length q) e. psz q t) =
    (if i < e then off q e else total q + off q e)"
proof (cases "Suc i = length q")
  case True
  have "0 < length q" using assms by linarith
  then show ?thesis using True assms sum_upt_psz [of 0 e q]
    by (simp add: ring_walk_eq)
next
  case False
  then have i: "Suc i < length q" using assms by simp
  show ?thesis
  proof (cases "i < e")
    case True
    then show ?thesis using i assms sum_upt_psz [of "Suc i" e q]
      by (simp add: ring_walk_eq Suc_le_eq)
  next
    case False
    then show ?thesis
      using i assms sum_upt_psz [of "Suc i" "length q" q] sum_upt_psz [of 0 e q]
      by (simp add: ring_walk_eq)
  qed
qed

text \<open>\<open>operator-\<close> without the bound of its type.\<close>

definition it_span :: "piece list \<Rightarrow> iter \<Rightarrow> iter \<Rightarrow> int" where
  "it_span q b a =
     (if it_idx b = it_idx a \<and> it_pos a \<le> it_pos b then int (it_pos b) - int (it_pos a)
      else (int (psz q (it_idx a)) - int (it_pos a))
         + (\<Sum>t\<leftarrow>ring_walk (length q) ((it_idx a + 1) mod length q) (it_idx b). int (psz q t))
         + int (it_pos b))"

lemma it_diff_span: "it_diff q b a = int32 (it_span q b a)"
proof (cases "it_idx b = it_idx a \<and> it_pos a \<le> it_pos b")
  case True
  then show ?thesis by (simp add: it_diff_def it_span_def)
next
  case False
  show ?thesis unfolding it_diff_def it_span_def Let_def if_not_P [OF False] int32_sum ..
qed

lemma it_span_lin:
  assumes a: "wf_it q a" and b: "wf_it q b"
  shows "it_span q b a = int (cdist (total q) (lin q a) (lin q b))"
proof (cases "it_idx b = it_idx a \<and> it_pos a \<le> it_pos b")
  case True
  then show ?thesis by (simp add: it_span_def lin_def cdist_def)
next
  case False
  let ?i = "it_idx a" and ?e = "it_idx b"
  let ?w = "\<Sum>t\<leftarrow>ring_walk (length q) ((?i + 1) mod length q) ?e. psz q t"
  have ie: "?i < length q" "?e < length q" using a b by (auto simp: wf_it_def)
  have la: "lin q a < off q (Suc ?i)" by (rule lin_less_off_Suc [OF a])
  have "it_span q b a = int (psz q ?i) - int (it_pos a) + int ?w + int (it_pos b)"
    unfolding it_span_def if_not_P [OF False] by (simp add: int_sum_list comp_def del: One_nat_def)
  also have "\<dots> = int (off q (Suc ?i) + ?w + it_pos b) - int (lin q a)"
    using ie by (simp add: lin_def off_Suc)
  also have "\<dots> = int (cdist (total q) (lin q a) (lin q b))"
  proof (cases "?i < ?e")
    case True
    then have "lin q a < lin q b" by (rule lin_idx_mono [OF a])
    then show ?thesis using walk_sum [OF ie] True by (simp add: cdist_def lin_def)
  next
    case F: False
    then have "\<not> lin q a \<le> lin q b"
      using False lin_idx_mono [OF b, of a] by (cases "?i = ?e") (auto simp: lin_def)
    then show ?thesis using walk_sum [OF ie] F lin_less [OF a]
      by (simp add: cdist_def lin_def)
  qed
  finally show ?thesis .
qed

lemma it_diff_lin:
  assumes "wf_it q a" "wf_it q b" "total q < 2 ^ 31"
  shows "it_diff q b a = int (cdist (total q) (lin q a) (lin q b))"
proof -
  have "cdist (total q) (lin q a) (lin q b) < total q"
    using assms by (intro cdist_less lin_less)
  then have "int (cdist (total q) (lin q a) (lin q b)) < 2 ^ 31" using assms(3) by (simp add: nat_less_iff)
  then show ?thesis unfolding it_diff_span it_span_lin [OF assms(1,2)] by (intro int32_id) auto
qed

subsection \<open>Scatter and gather lists\<close>

text \<open>
  The effect of \<open>readv\<close> and \<open>writev\<close> on the memory of the pieces, as POSIX states it:
  the segments are filled, or read, one after the other in array order.
\<close>

definition poke :: "piece list \<Rightarrow> nat \<Rightarrow> nat \<Rightarrow> char list \<Rightarrow> piece list" where
  "poke q i p d =
     q[i := (q ! i)\<lparr>pbuf := take p (pbuf (q ! i)) @ d @ drop (p + length d) (pbuf (q ! i))\<rparr>]"

fun scatter :: "piece list \<Rightarrow> iovec list \<Rightarrow> char list \<Rightarrow> piece list" where
  "scatter q [] d = q"
| "scatter q (v # vs) d =
     scatter (poke q (iov_piece v) (iov_off v) (take (nat (iov_len v)) d)) vs
       (drop (nat (iov_len v)) d)"

definition gather :: "piece list \<Rightarrow> iovec list \<Rightarrow> char list" where
  "gather q vs = concat (map (\<lambda>v. take (nat (iov_len v))
     (drop (iov_off v) (pbuf (q ! iov_piece v)))) vs)"

definition iov_total :: "iovec list \<Rightarrow> nat" where
  "iov_total vs = (\<Sum>v\<leftarrow>vs. nat (iov_len v))"

fun iov_chain :: "piece list \<Rightarrow> nat \<Rightarrow> iovec list \<Rightarrow> bool" where
  "iov_chain q l [] = True"
| "iov_chain q l (v # vs) =
     (iov_piece v < length q \<and> 0 \<le> iov_len v
      \<and> iov_off v + nat (iov_len v) \<le> psz q (iov_piece v)
      \<and> off q (iov_piece v) + iov_off v = l
      \<and> iov_chain q ((l + nat (iov_len v)) mod total q) vs)"

lemma off_less_total: "wf_que q \<Longrightarrow> i < length q \<Longrightarrow> off q i < total q"
  using off_le_total [of q "Suc i"] wf_que_pos [of q i] by (simp add: off_Suc)

lemma off_wrap0:
  "wf_que q \<Longrightarrow> i < length q \<Longrightarrow> (off q i + psz q i) mod total q = off q ((i + 1) mod length q)"
  using off_wrap [of i q 0] off_less_total [of q "(i + 1) mod length q"] by simp

lemma iov_chain_walk:
  assumes "wf_que q" "i < length q" "wf_it q e"
  shows "iov_chain q (off q i)
    (map (\<lambda>t. \<lparr>iov_piece = t, iov_off = 0, iov_len = int (psz q t)\<rparr>)
       (ring_walk (length q) i (it_idx e))
     @ (if it_pos e > 0 then [\<lparr>iov_piece = it_idx e, iov_off = 0, iov_len = int (it_pos e)\<rparr>] else []))"
  using assms(2)
proof (induction "length q" i "it_idx e" rule: ring_walk.induct)
  case (1 i)
  show ?case
  proof (cases "i = it_idx e")
    case True
    then show ?thesis using assms(3) by (simp add: wf_it_def)
  next
    case False
    then have w: "ring_walk (length q) i (it_idx e) =
        i # ring_walk (length q) (Suc i mod length q) (it_idx e)"
      using "1.prems" assms(3) by (subst ring_walk.simps) (simp add: wf_it_def)
    show ?thesis
      using 1 False assms off_wrap0 [of q i] by (simp add: w wf_it_def)
  qed
qed

lemma iov_between_chain:
  assumes "wf_que q" "wf_it q a" "wf_it q e"
  shows "iov_chain q (lin q a) (iov_between q a e)"
proof -
  have i: "it_idx a < length q" using assms(2) by (simp add: wf_it_def)
  have p: "it_pos a < psz q (it_idx a)" using assms(2) by (simp add: wf_it_def)
  have "(lin q a + (psz q (it_idx a) - it_pos a)) mod total q =
      off q ((it_idx a + 1) mod length q)"
    using off_wrap0 [OF assms(1) i] p by (simp add: lin_def)
  then show ?thesis
    using iov_chain_walk [OF assms(1) _ assms(3), of "(it_idx a + 1) mod length q"] i p assms(3)
    by (auto simp: iov_between_def lin_def wf_it_def nat_diff_distrib)
qed

lemma iov_between_total:
  assumes "wf_que q" "wf_it q a" "wf_it q e"
  shows "iov_total (iov_between q a e) =
    (if a = e then total q else cdist (total q) (lin q a) (lin q e))"
proof -
  let ?i = "it_idx a" and ?e = "it_idx e"
  let ?w = "\<Sum>t\<leftarrow>ring_walk (length q) ((?i + 1) mod length q) ?e. psz q t"
  have ie: "?i < length q" "?e < length q" using assms by (auto simp: wf_it_def)
  have p: "it_pos a < psz q ?i" using assms by (simp add: wf_it_def)
  have walk: "iov_total (iov_between q a e) = psz q ?i - it_pos a + ?w + it_pos e"
    if "\<not> (?e = ?i \<and> it_pos a < it_pos e)"
    unfolding iov_between_def if_not_P [OF that] iov_total_def
    using p by (simp add: comp_def nat_diff_distrib add.assoc)
  consider (eq) "a = e" | (single) "?e = ?i" "it_pos a < it_pos e"
    | (ring) "a \<noteq> e" "\<not> (?e = ?i \<and> it_pos a \<le> it_pos e)"
    by (metis iter.equality old.unit.exhaust order_le_less)
  then show ?thesis
  proof cases
    case single
    then show ?thesis by (auto simp: iov_between_def iov_total_def lin_def cdist_def)
  next
    case eq
    have "iov_total (iov_between q a e) = psz q ?i - it_pos a + ?w + it_pos e"
      by (rule walk) (use eq in simp)
    then show ?thesis
      using eq walk_sum [OF ie] p off_Suc [OF ie(1)] off_le_total [of q "Suc ?i"] by simp
  next
    case ring
    have "iov_total (iov_between q a e) = psz q ?i - it_pos a + ?w + it_pos e"
      by (rule walk) (use ring in auto)
    also have "int \<dots> = it_span q e a"
      unfolding it_span_def if_not_P [OF ring(2)]
      using p by (simp add: int_sum_list)
    finally show ?thesis
      using it_span_lin [OF assms(2,3)] ring(1) by simp
  qed
qed

lemma gather_chain:
  assumes "wf_que q"
  shows "iov_chain q l vs \<Longrightarrow> l < total q \<Longrightarrow>
    gather q vs = map (\<lambda>k. flat q ! ((l + k) mod total q)) [0..<iov_total vs]"
proof (induction vs arbitrary: l)
  case Nil
  then show ?case by (simp add: gather_def iov_total_def)
next
  case (Cons v vs)
  let ?n = "nat (iov_len v)" and ?i = "iov_piece v" and ?p = "iov_off v"
  have v: "?i < length q" "?p + ?n \<le> psz q ?i" "l = off q ?i + ?p"
    using Cons.prems by auto
  have le: "l + ?n \<le> total q"
    using v off_le_total [of q "Suc ?i"] by (simp add: off_Suc)
  have seg: "take ?n (drop ?p (pbuf (q ! ?i))) = map (\<lambda>k. flat q ! ((l + k) mod total q)) [0..<?n]"
  proof (rule nth_equalityI)
    show "length (take ?n (drop ?p (pbuf (q ! ?i)))) =
        length (map (\<lambda>k. flat q ! ((l + k) mod total q)) [0..<?n])"
      using v wf_que_room [OF assms v(1)] by simp
    fix k assume k: "k < length (take ?n (drop ?p (pbuf (q ! ?i))))"
    then have "k < ?n" "?p + k < psz q ?i" using v by auto
    then show "take ?n (drop ?p (pbuf (q ! ?i))) ! k =
        map (\<lambda>k. flat q ! ((l + k) mod total q)) [0..<?n] ! k"
      using k v flat_nth [OF assms v(1), of "?p + k"] le by (simp add: add.assoc)
  qed
  have "gather q vs = map (\<lambda>k. flat q ! (((l + ?n) mod total q + k) mod total q)) [0..<iov_total vs]"
    using Cons.IH [of "(l + ?n) mod total q"] Cons.prems by simp
  also have "\<dots> = map (\<lambda>k. flat q ! ((l + k) mod total q)) [?n..<?n + iov_total vs]"
    by (rule nth_equalityI) (auto simp: mod_simps add.assoc)
  finally show ?case
    using seg upt_add_eq_append [of 0 ?n "iov_total vs"]
    by (simp add: gather_def iov_total_def)
qed

lemma content_map:
  assumes "wf_buf b"
  shows "content b = map (\<lambda>k. flat (que b) ! ((lin (que b) (readpos b) + k) mod total (que b)))
    [0..<cdist (total (que b)) (lin (que b) (readpos b)) (lin (que b) (writepos b))]"
  using assms by (simp add: content_def wf_buf_def cslice_map length_flat lin_less)

lemma length_content:
  "wf_buf b \<Longrightarrow> length (content b) =
    cdist (total (que b)) (lin (que b) (readpos b)) (lin (que b) (writepos b))"
  by (simp add: content_map)

lemma content_Nil_iff: "wf_buf b \<Longrightarrow> content b = [] \<longleftrightarrow> isEmpty b"
  using length_content [of b]
  by (auto simp: isEmpty_def wf_buf_def cdist_0_iff lin_less lin_inj simp flip: length_0_conv)

text \<open>Queues whose pieces have the same sizes: writing into a piece keeps the layout.\<close>

definition same_layout :: "piece list \<Rightarrow> piece list \<Rightarrow> bool" where
  "same_layout q q' \<longleftrightarrow> map psize q' = map psize q
     \<and> map (length \<circ> pbuf) q' = map (length \<circ> pbuf) q"

lemma same_layout_refl [simp]: "same_layout q q"
  by (simp add: same_layout_def)

lemma same_layout_trans: "same_layout q q' \<Longrightarrow> same_layout q' q'' \<Longrightarrow> same_layout q q''"
  by (simp add: same_layout_def)

lemma same_layout_simps:
  assumes "same_layout q q'"
  shows "length q' = length q" and "total q' = total q" and "off q' = off q" and "lin q' = lin q"
    and "wf_que q' = wf_que q" and "wf_it q' = wf_it q"
proof -
  have m: "map psize q' = map psize q" "map (length \<circ> pbuf) q' = map (length \<circ> pbuf) q"
    using assms by (auto simp: same_layout_def)
  show l: "length q' = length q" using m(1) by (metis length_map)
  show "total q' = total q" using m(1) by (simp add: total_def)
  show o: "off q' = off q" using m(1) by (simp add: off_def fun_eq_iff flip: take_map)
  then show "lin q' = lin q" by (simp add: lin_def fun_eq_iff)
  have s: "psz q' i = psz q i \<and> length (pbuf (q' ! i)) = length (pbuf (q ! i))" if "i < length q" for i
    using m l that by (metis comp_apply nth_map)
  then show "wf_que q' = wf_que q"
    using l by (auto simp: wf_que_def list_all_length)
  show "wf_it q' = wf_it q"
    using s l by (auto simp: wf_it_def fun_eq_iff)
qed

lemma same_layout_psz: "same_layout q q' \<Longrightarrow> t < length q \<Longrightarrow> psz q' t = psz q t"
proof -
  assume q: "same_layout q q'" and t: "t < length q"
  have "map psize q' ! t = map psize q ! t" using q by (simp add: same_layout_def)
  then show ?thesis using t same_layout_simps(1) [OF q] by simp
qed

lemma lin_cover: "wf_que q \<Longrightarrow> m < total q \<Longrightarrow> \<exists>i p. i < length q \<and> p < psz q i \<and> m = off q i + p"
  using it_norm_lin [of q 0 m] by (auto simp: wf_it_def lin_def wf_que_def)

lemma poke_layout:
  assumes "i < length q" "p + length d \<le> length (pbuf (q ! i))"
  shows "same_layout q (poke q i p d)"
  using assms by (auto simp: same_layout_def poke_def map_update intro!: list_update_same_conv [THEN iffD2])

lemma poke_flat:
  assumes wf: "wf_que q" and i: "i < length q" and d: "p + length d \<le> psz q i" and m: "m < total q"
  shows "flat (poke q i p d) ! m =
    (if off q i + p \<le> m \<and> m < off q i + p + length d then d ! (m - (off q i + p)) else flat q ! m)"
proof -
  obtain j r where j: "j < length q" "r < psz q j" "m = off q j + r"
    using lin_cover [OF wf m] by blast
  let ?q = "poke q i p d"
  have len: "p + length d \<le> length (pbuf (q ! i))" using d wf_que_room [OF wf i] by simp
  note L = same_layout_simps [OF poke_layout [OF i len]]
  have "psz ?q j = psz q j" using j(1) by (cases "j = i") (simp_all add: poke_def)
  then have f: "flat ?q ! m = pbuf (?q ! j) ! r"
    using flat_nth [of ?q j r] j wf L by simp
  show ?thesis
  proof (cases "j = i")
    case True
    then show ?thesis using f j d len flat_nth [OF wf j(1,2)]
      by (auto simp: poke_def nth_append)
  next
    case False
    then have "m < off q i \<or> off q (Suc i) \<le> m"
      using j off_mono [of "Suc j" i q] off_mono [of "Suc i" j q] off_Suc [OF j(1)]
      by (cases j i rule: linorder_cases) auto
    then show ?thesis using f False j d i flat_nth [OF wf j(1,2)]
      by (auto simp: poke_def off_Suc)
  qed
qed

lemma scatter_flat:
  assumes "wf_que q"
  shows "iov_chain q l vs \<Longrightarrow> l < total q \<Longrightarrow> length d \<le> iov_total vs \<Longrightarrow> length d \<le> total q \<Longrightarrow>
    same_layout q (scatter q vs d) \<and>
    (\<forall>k < total q. flat (scatter q vs d) ! ((l + k) mod total q) =
       (if k < length d then d ! k else flat q ! ((l + k) mod total q)))"
  using assms
proof (induction vs arbitrary: q l d)
  case Nil
  then show ?case by (simp add: iov_total_def)
next
  case (Cons v vs)
  let ?n = "nat (iov_len v)" and ?i = "iov_piece v" and ?p = "iov_off v" and ?T = "total q"
  let ?d = "take ?n d" and ?q = "poke q (iov_piece v) (iov_off v) (take (nat (iov_len v)) d)"
  let ?l = "(l + ?n) mod ?T"
  have v: "?i < length q" "?p + length ?d \<le> psz q ?i" "l = off q ?i + ?p" "?p + ?n \<le> psz q ?i"
    using Cons.prems(1) by auto
  have le: "l + ?n \<le> ?T" using v(1,3,4) off_le_total [of q "Suc ?i"] by (simp add: off_Suc)
  have lay: "same_layout q ?q"
    using poke_layout [OF v(1)] v(2) wf_que_room [OF Cons.prems(5) v(1)] le_trans by blast
  note L = same_layout_simps [OF lay]
  have ch: "iov_chain q ?l vs \<Longrightarrow> iov_chain ?q ?l vs" for l'
  proof -
    have "psz ?q t = psz q t" if "t < length q" for t
      using that by (rule same_layout_psz [OF lay])
    then have "iov_chain q x ws \<Longrightarrow> iov_chain ?q x ws" for x ws
      using L by (induction ws arbitrary: x) auto
    then show "iov_chain q ?l vs \<Longrightarrow> iov_chain ?q ?l vs" .
  qed
  have IH: "same_layout ?q (scatter ?q vs (drop ?n d)) \<and>
    (\<forall>k < ?T. flat (scatter ?q vs (drop ?n d)) ! ((?l + k) mod ?T) =
       (if k < length (drop ?n d) then drop ?n d ! k else flat ?q ! ((?l + k) mod ?T)))"
    using Cons.IH [of ?q ?l "drop ?n d"] ch Cons.prems L by (simp add: iov_total_def)
  have "flat (scatter q (v # vs) d) ! ((l + k) mod ?T) =
       (if k < length d then d ! k else flat q ! ((l + k) mod ?T))" if k: "k < ?T" for k
  proof -
    have pk: "flat ?q ! ((l + k) mod ?T) =
        (if k < length ?d then ?d ! k else flat q ! ((l + k) mod ?T))"
      using poke_flat [OF Cons.prems(5) v(1,2), of "(l + k) mod ?T"] le k v(3) Cons.prems(2)
      by (auto simp: mod_if)
    show ?thesis
    proof (cases "k < ?n")
      case True
      let ?k = "k + ?T - ?n"
      have "(?l + ?k) mod ?T = ((l + ?n) + ?k) mod ?T" by (rule mod_add_left_eq)
      also have "(l + ?n) + ?k = l + k + ?T" using True le by simp
      finally have k': "?k < ?T" "(?l + ?k) mod ?T = (l + k) mod ?T"
        using True k le by auto
      have "\<not> ?k < length (drop ?n d)" using Cons.prems(4) True by auto
      then show ?thesis using IH k' pk True by auto
    next
      case False
      have "(?l + (k - ?n)) mod ?T = ((l + ?n) + (k - ?n)) mod ?T" by (rule mod_add_left_eq)
      also have "(l + ?n) + (k - ?n) = l + k" using False by simp
      finally have "(?l + (k - ?n)) mod ?T = (l + k) mod ?T" .
      moreover have "k - ?n < ?T" using k by simp
      ultimately show ?thesis using IH pk False by (auto simp: less_diff_conv)
    qed
  qed
  then show ?case using IH lay by (auto intro: same_layout_trans)
qed

section \<open>The buffer is a byte queue\<close>

lemma content_advance_write:
  assumes wf: "wf_buf b" and q: "same_layout (que b) q"
    and n: "length d < room b" and w: "writepos b' = w'" "readpos b' = readpos b" "que b' = q"
    and w': "wf_it q w'" "lin q w' = (lin (que b) (writepos b) + length d) mod total (que b)"
    and f: "\<And>k. k < total (que b) \<Longrightarrow> flat q ! ((lin (que b) (writepos b) + k) mod total (que b)) =
        (if k < length d then d ! k else flat (que b) ! ((lin (que b) (writepos b) + k) mod total (que b)))"
  shows "wf_buf b' \<and> content b' = content b @ d"
proof -
  let ?T = "total (que b)" and ?r = "lin (que b) (readpos b)" and ?w = "lin (que b) (writepos b)"
  note L = same_layout_simps [OF q]
  have wfs: "wf_que (que b)" "wf_it (que b) (readpos b)" "wf_it (que b) (writepos b)"
    using wf by (auto simp: wf_buf_def)
  have rw: "?r < ?T" "?w < ?T" using wfs by (auto intro: lin_less)
  have len: "length (flat (que b)) = ?T" "length (flat q) = ?T"
    using wfs L by (auto simp: length_flat)
  have n': "length d + cdist ?T ?r ?w < ?T"
    using n by (simp add: room_def length_content [OF wf])
  have "content b' = cslice (flat q) ?r ((?w + length d) mod ?T)"
    using w w'(2) L by (simp add: content_def)
  also have "\<dots> = cslice (flat q) ?r ?w @ cslice (flat q) ?w ((?w + length d) mod ?T)"
    using cslice_append [of ?r "flat q" ?w "length d"] rw n' len by simp
  also have "cslice (flat q) ?w ((?w + length d) mod ?T) = d"
  proof (rule nth_equalityI)
    have e: "cdist ?T ?w ((?w + length d) mod ?T) = length d"
      using rw n' by (auto simp: cdist_def mod_if)
    have m: "(?w + length d) mod ?T < ?T" using rw by (intro mod_less_divisor) linarith
    show l: "length (cslice (flat q) ?w ((?w + length d) mod ?T)) = length d"
      using rw m len e by simp
    fix k assume "k < length (cslice (flat q) ?w ((?w + length d) mod ?T))"
    then have k: "k < length d" using l by simp
    then show "cslice (flat q) ?w ((?w + length d) mod ?T) ! k = d ! k"
      using cslice_nth [of ?w "flat q" "(?w + length d) mod ?T" k] rw m len e f [of k] n' by simp
  qed
  also have "cslice (flat q) ?r ?w = content b"
  proof -
    have "flat q ! ((?r + k) mod ?T) = flat (que b) ! ((?r + k) mod ?T)" if k: "k < cdist ?T ?r ?w" for k
    proof -
      let ?k = "cdist ?T ?w ?r + k"
      have "?r \<noteq> ?w" using k by auto
      then have "?k < ?T" "\<not> ?k < length d" using n' rw k by (auto simp: cdist_def split: if_splits)
      moreover have "(?w + ?k) mod ?T = (?r + k) mod ?T"
        using rw by (cases "?w \<le> ?r") (simp_all add: cdist_def add.assoc)
      ultimately show ?thesis using f [of ?k] by simp
    qed
    then show ?thesis using rw len by (simp add: content_def cslice_map)
  qed
  finally show ?thesis using wfs L w w'(1) by (simp add: wf_buf_def)
qed

theorem recv_appends_frame:
  assumes wf: "wf_buf b" and g: "GetReciveBuffer b = (True, vs)" and n: "length d < room b"
  shows "\<exists>b'. MoveRecivePtr (b\<lparr>que := scatter (que b) vs d\<rparr>) (length d) = Some b'
    \<and> wf_buf b' \<and> content b' = content b @ d \<and> readpos b' = readpos b \<and> same_layout (que b) (que b')"
proof -
  let ?q = "scatter (que b) vs d"
  have wfs: "wf_que (que b)" "wf_it (que b) (readpos b)" "wf_it (que b) (writepos b)"
    using wf by (auto simp: wf_buf_def)
  have vs: "vs = iov_between (que b) (writepos b) (readpos b)"
    using g by (auto simp: GetReciveBuffer_def split: if_splits)
  have d: "length d \<le> iov_total vs" "length d \<le> total (que b)"
    using n lin_less [OF wfs(2)] lin_less [OF wfs(3)]
    by (auto simp: vs iov_between_total [OF wfs(1,3,2)] room_def length_content [OF wf] cdist_def
        lin_inj wfs split: if_splits)
  have S: "same_layout (que b) ?q \<and>
    (\<forall>k < total (que b). flat ?q ! ((lin (que b) (writepos b) + k) mod total (que b)) =
       (if k < length d then d ! k else flat (que b) ! ((lin (que b) (writepos b) + k) mod total (que b))))"
    by (rule scatter_flat [OF wfs(1) _ _ d(1,2)])
      (simp_all add: vs iov_between_chain wfs lin_less)
  note L = same_layout_simps [OF conjunct1 [OF S]]
  obtain w' where w': "it_add ?q (writepos b) (length d) = Some w'" "wf_it ?q w'"
    "lin ?q w' = (lin ?q (writepos b) + length d) mod total ?q"
    using it_add_lin [of ?q "writepos b" "length d"] wfs L by auto
  have "wf_buf (b\<lparr>que := ?q, writepos := w'\<rparr>) \<and>
      content (b\<lparr>que := ?q, writepos := w'\<rparr>) = content b @ d"
    by (rule content_advance_write [OF wf conjunct1 [OF S] n]) (use w' L S in auto)
  then show ?thesis using w'(1) S by (auto simp: MoveRecivePtr_def)
qed

corollary recv_appends:
  assumes "wf_buf b" and "GetReciveBuffer b = (True, vs)" and "length d < room b"
  shows "\<exists>b'. MoveRecivePtr (b\<lparr>que := scatter (que b) vs d\<rparr>) (length d) = Some b'
    \<and> wf_buf b' \<and> content b' = content b @ d"
  using recv_appends_frame [OF assms] by blast

theorem send_gathers:
  assumes wf: "wf_buf b"
  shows "GetSendBuffer b = (if content b = [] then (False, [])
      else (True, iov_between (que b) (readpos b) (writepos b)))
    \<and> gather (que b) (snd (GetSendBuffer b)) = content b"
proof (cases "content b = []")
  case True
  then show ?thesis using content_Nil_iff [OF wf]
    by (simp add: GetSendBuffer_def GetSendBuffer_to_def isEmpty_def gather_def)
next
  case False
  have wfs: "wf_que (que b)" "wf_it (que b) (readpos b)" "wf_it (que b) (writepos b)"
    using wf by (auto simp: wf_buf_def)
  have ne: "readpos b \<noteq> writepos b" using False content_Nil_iff [OF wf] by (simp add: isEmpty_def)
  then have "gather (que b) (iov_between (que b) (readpos b) (writepos b)) = content b"
    using gather_chain [OF wfs(1) iov_between_chain [OF wfs]] wfs
    by (simp add: lin_less iov_between_total content_map [OF wf])
  then show ?thesis using False ne
    by (simp add: GetSendBuffer_def GetSendBuffer_to_def)
qed

theorem advance_read_drops:
  assumes wf: "wf_buf b" and n: "n \<le> length (content b)"
  shows "\<exists>r. it_add (que b) (readpos b) n = Some r \<and> wf_buf (b\<lparr>readpos := r\<rparr>)
    \<and> content (b\<lparr>readpos := r\<rparr>) = drop n (content b)"
proof -
  have wfs: "wf_que (que b)" "wf_it (que b) (readpos b)" "wf_it (que b) (writepos b)"
    using wf by (auto simp: wf_buf_def)
  obtain r where r: "it_add (que b) (readpos b) n = Some r" "wf_it (que b) r"
    "lin (que b) r = (lin (que b) (readpos b) + n) mod total (que b)"
    using it_add_lin [OF wfs(1,2)] by blast
  have "content (b\<lparr>readpos := r\<rparr>) = drop n (content b)"
    using cslice_drop [of "lin (que b) (readpos b)" "flat (que b)" "lin (que b) (writepos b)" n]
      wfs n length_content [OF wf] by (simp add: content_def r(3) lin_less length_flat)
  then show ?thesis using r wfs by (auto simp: wf_buf_def)
qed

section \<open>The content, piece by piece\<close>

definition pbytes :: "piece list \<Rightarrow> nat \<Rightarrow> nat \<Rightarrow> nat \<Rightarrow> char list" where
  "pbytes q i a e = take (e - a) (drop a (pbuf (q ! i)))"

definition span :: "piece list \<Rightarrow> iter \<Rightarrow> iter \<Rightarrow> char list" where
  "span q a e =
     (if it_idx e = it_idx a \<and> it_pos a < it_pos e then pbytes q (it_idx a) (it_pos a) (it_pos e)
      else pbytes q (it_idx a) (it_pos a) (psz q (it_idx a))
         @ concat (map (\<lambda>t. pbytes q t 0 (psz q t))
             (ring_walk (length q) ((it_idx a + 1) mod length q) (it_idx e)))
         @ pbytes q (it_idx e) 0 (it_pos e))"

lemma gather_span: "gather q (iov_between q a e) = span q a e"
  by (auto simp: gather_def iov_between_def span_def pbytes_def comp_def nat_diff_distrib nat_diff_distrib')

lemma content_span:
  assumes "wf_buf b" "readpos b \<noteq> writepos b"
  shows "content b = span (que b) (readpos b) (writepos b)"
proof -
  have "content b \<noteq> []" using assms content_Nil_iff [OF assms(1)] by (simp add: isEmpty_def)
  then have "gather (que b) (iov_between (que b) (readpos b) (writepos b)) = content b"
    using send_gathers [OF assms(1)] by (metis snd_conv)
  then show ?thesis by (simp add: gather_span)
qed

lemma pbytes_split: "a \<le> m \<Longrightarrow> m \<le> e \<Longrightarrow> pbytes q i a e = pbytes q i a m @ pbytes q i m e"
  using take_add [of "m - a" "e - m" "drop a (pbuf (q ! i))"] by (simp add: pbytes_def)

text \<open>
  Piece \<open>i\<close> gets the bytes \<open>h\<close> at offset \<open>p\<close> and ends there, with the bytes \<open>x\<close> left
  behind the end: what \<open>SerializeHeader\<close> does to the piece a header is written to.
\<close>

definition put_tail :: "piece list \<Rightarrow> nat \<Rightarrow> nat \<Rightarrow> char list \<Rightarrow> char list \<Rightarrow> piece list" where
  "put_tail q i p h x = q[i := \<lparr>pbuf = take p (pbuf (q ! i)) @ h @ x, psize = p + length h\<rparr>]"

lemma put_tail_length [simp]: "length (put_tail q i p h x) = length q"
  by (simp add: put_tail_def)

lemma put_tail_psz: "i < length q \<Longrightarrow> psz (put_tail q i p h x) t = (if t = i then p + length h else psz q t)"
  by (simp add: put_tail_def)

lemma put_tail_other [simp]: "t \<noteq> i \<Longrightarrow> put_tail q i p h x ! t = q ! t"
  by (simp add: put_tail_def)

lemma pbytes_other [simp]: "t \<noteq> i \<Longrightarrow> pbytes (put_tail q i p h x) t a e = pbytes q t a e"
  by (simp add: pbytes_def)

lemma pbytes_put_before:
  "i < length q \<Longrightarrow> p \<le> length (pbuf (q ! i)) \<Longrightarrow> e \<le> p \<Longrightarrow>
   pbytes (put_tail q i p h x) i a e = pbytes q i a e"
  by (cases "a \<le> e") (auto simp: pbytes_def put_tail_def take_drop min_def)

lemma pbytes_put_tail:
  "i < length q \<Longrightarrow> p \<le> length (pbuf (q ! i)) \<Longrightarrow>
   pbytes (put_tail q i p h x) i p (p + length h) = h"
  by (simp add: pbytes_def put_tail_def)

lemma put_tail_wf:
  assumes "wf_que q" "i < length q" "p \<le> length (pbuf (q ! i))" "0 < p + length h"
  shows "wf_que (put_tail q i p h x)"
proof -
  have "0 < psz (put_tail q i p h x) t \<and> psz (put_tail q i p h x) t \<le> length (pbuf (put_tail q i p h x ! t))"
    if "t < length q" for t
    using that assms wf_que_pos [OF assms(1) that] wf_que_room [OF assms(1) that]
    by (cases "t = i") (auto simp: put_tail_def)
  moreover have "put_tail q i p h x \<noteq> []"
    using assms(2) put_tail_length [of q i p h x] by (cases "put_tail q i p h x") auto
  ultimately show ?thesis by (simp add: wf_que_def list_all_length)
qed

lemma map_put_tail_other:
  "i < length q \<Longrightarrow> i \<notin> set ts \<Longrightarrow> 
   concat (map (\<lambda>t. pbytes (put_tail q i p h x) t 0 (psz (put_tail q i p h x) t)) ts) =
   concat (map (\<lambda>t. pbytes q t 0 (psz q t)) ts)"
  by (rule arg_cong [where f = concat]) (auto simp: put_tail_psz)

lemma ring_walk_split:
  "i \<in> set (ring_walk N s e) \<Longrightarrow>
   ring_walk N s e = ring_walk N s i @ i # ring_walk N (Suc i mod N) e"
proof (induction N s e rule: ring_walk.induct)
  case (1 N s e)
  then have g: "\<not> (s = e \<or> N \<le> s \<or> N \<le> e)" by (subst (asm) (3) ring_walk.simps) (auto split: if_splits)
  then have w: "ring_walk N s e = s # ring_walk N (Suc s mod N) e" by (subst ring_walk.simps) simp
  show ?case
  proof (cases "i = s")
    case True
    then show ?thesis using w by simp
  next
    case False
    then have i: "i \<in> set (ring_walk N (Suc s mod N) e)" using "1.prems" w by simp
    then have "ring_walk N s i = s # ring_walk N (Suc s mod N) i"
      using False g set_ring_walk [OF i] by (subst ring_walk.simps) auto
    then show ?thesis using "1.IH" [OF g i] w by simp
  qed
qed

lemma ring_walk_not_start: "s < N \<Longrightarrow> s \<notin> set (ring_walk N (Suc s mod N) e)"
proof
  assume s: "s < N" and i: "s \<in> set (ring_walk N (Suc s mod N) e)"
  have e: "e < N" using i by (subst (asm) ring_walk.simps) (auto split: if_splits)
  show False
  proof (cases "Suc s = N")
    case True
    have "0 < N" using s by linarith
    then show False using True i e by (simp add: ring_walk_eq)
  next
    case False
    then have "Suc s < N" using s by simp
    then show False using i e by (auto simp: ring_walk_eq split: if_splits)
  qed
qed

text \<open>
  Replacing the tail of a piece that lies inside a span replaces those bytes of the span
  and nothing else.
\<close>

lemma span_put_tail:
  assumes i: "i < length q" and h: "p \<le> length (pbuf (q ! i))" and p: "p \<le> psz q i"
    and a: "it_idx a < length q"
    and ring: "\<not> (it_idx e = it_idx a \<and> it_pos a < it_pos e)"
    and inside: "i = it_idx a \<and> it_pos a \<le> p \<or>
      i \<in> set (ring_walk (length q) ((it_idx a + 1) mod length q) (it_idx e))"
    and last: "i = it_idx e \<longrightarrow> it_pos e \<le> p"
  shows "\<exists>u v. span q a e = u @ pbytes q i p (psz q i) @ v
    \<and> span (put_tail q i p h x) a e = u @ h @ v
    \<and> u = (if a = mk_it i p then [] else span q a (mk_it i p))"
proof -
  let ?q = "put_tail q i p h x" and ?N = "length q" and ?f = "\<lambda>q t. pbytes q t 0 (psz q t)"
  let ?W = "ring_walk ?N ((it_idx a + 1) mod ?N) (it_idx e)"
  have le: "pbytes ?q (it_idx e) 0 (it_pos e) = pbytes q (it_idx e) 0 (it_pos e)"
    using last pbytes_put_before [OF i h] by (cases "it_idx e = i") auto
  have cut: "pbytes q i y (psz q i) = pbytes q i y p @ pbytes q i p (psz q i)"
    "pbytes ?q i y (psz ?q i) = pbytes q i y p @ h" if "y \<le> p" for y
    using that p i h pbytes_split [of y p "psz q i" q i] pbytes_split [of y p "p + length h" ?q i]
    by (simp_all add: put_tail_psz pbytes_put_tail pbytes_put_before)
  show ?thesis
  proof (cases "i \<in> set ?W")
    case False
    then have ia: "i = it_idx a" "it_pos a \<le> p" using inside by auto
    have "(if a = mk_it i p then [] else span q a (mk_it i p)) = pbytes q i (it_pos a) p"
      using ia by (cases a) (auto simp: span_def pbytes_def)
    then show ?thesis
      using ia le ring cut [OF ia(2)] map_put_tail_other [OF i False, of p h x] by (auto simp: span_def)
  next
    case True
    let ?X = "ring_walk ?N ((it_idx a + 1) mod ?N) i" and ?Y = "ring_walk ?N (Suc i mod ?N) (it_idx e)"
    have W: "?W = ?X @ i # ?Y" by (rule ring_walk_split [OF True])
    have nX: "i \<notin> set ?X" using set_ring_walk [of i ?N _ i] by auto
    have nY: "i \<notin> set ?Y" by (rule ring_walk_not_start [OF i])
    have ne: "i \<noteq> it_idx a" using True ring_walk_not_start [OF a, of "it_idx e"] by auto
    have "(if a = mk_it i p then [] else span q a (mk_it i p)) =
        pbytes q (it_idx a) (it_pos a) (psz q (it_idx a)) @ concat (map (?f q) ?X) @ pbytes q i 0 p"
      using ne by (auto simp: span_def)
    then show ?thesis
      using ne le ring cut [of 0] W map_put_tail_other [OF i nX, of p h x] map_put_tail_other [OF i nY, of p h x]
      by (auto simp: span_def put_tail_psz [OF i])
  qed
qed

lemma idx_ge_of_lin: "wf_it q e \<Longrightarrow> off q (Suc i) \<le> lin q e \<Longrightarrow> i < it_idx e"
  using lin_less_off_Suc [of q e] off_mono [of "Suc (it_idx e)" "Suc i" q]
  by (cases "i < it_idx e") auto

lemma idx_le_of_lin: "wf_it q a \<Longrightarrow> wf_it q e \<Longrightarrow> lin q e < lin q a \<Longrightarrow>
  it_idx e < it_idx a \<or> it_idx e = it_idx a \<and> it_pos e < it_pos a"
  using lin_idx_mono [of q a e] by (cases "it_idx e" "it_idx a" rule: linorder_cases) (auto simp: lin_def)

text \<open>
  Where the end of the data can be when the tail of the piece of \<open>w\<close> and \<open>n\<close> further
  bytes have been appended at \<open>w\<close>.
\<close>

lemma end_after_piece:
  assumes a: "wf_it q a" and w: "wf_it q w" and e: "wf_it q e"
    and guard: "\<not> (it_idx w = it_idx a \<and> it_pos w < it_pos a)"
    and len: "cdist (total q) (lin q a) (lin q e) =
      cdist (total q) (lin q a) (lin q w) + (psz q (it_idx w) - it_pos w) + n"
  shows "\<not> (it_idx e = it_idx a \<and> it_pos a < it_pos e)"
    and "it_idx w = it_idx a \<and> it_pos a \<le> it_pos w \<or>
      it_idx w \<in> set (ring_walk (length q) ((it_idx a + 1) mod length q) (it_idx e))"
    and "it_idx w = it_idx e \<longrightarrow> it_pos e \<le> it_pos w"
proof -
  let ?T = "total q" and ?p = "it_idx w"
  have idx: "it_idx a < length q" "?p < length q" "it_idx e < length q"
    using a w e by (auto simp: wf_it_def)
  have P: "lin q w + (psz q ?p - it_pos w) = off q (Suc ?p)" "0 < psz q ?p - it_pos w"
    using w by (auto simp: wf_it_def lin_def off_Suc)
  have lt: "lin q a < ?T" "lin q e < ?T" "off q (Suc ?p) \<le> ?T"
    using a e lin_less off_le_total by auto
  have before: "lin q a \<le> lin q w \<longleftrightarrow> it_idx a \<le> ?p"
    using guard lin_idx_mono [OF a, of w] lin_idx_mono [OF w, of a]
    by (cases "it_idx a" ?p rule: linorder_cases) (auto simp: lin_def)
  have pos: "it_idx a \<le> ?p \<and> ?p < it_idx e
      \<or> it_idx a \<le> ?p \<and> lin q e < lin q a
      \<or> ?p < it_idx a \<and> ?p < it_idx e \<and> lin q e < lin q a"
  proof (cases "it_idx a \<le> ?p")
    case True
    then have c: "cdist ?T (lin q a) (lin q e) = off q (Suc ?p) - lin q a + n" "lin q a \<le> lin q w"
      using before len P by (auto simp: cdist_def)
    show ?thesis
    proof (cases "lin q e < lin q a")
      case False
      then have "off q (Suc ?p) \<le> lin q e" using c P by (auto simp: cdist_def)
      then show ?thesis using True idx_ge_of_lin [OF e] by simp
    qed (use True in simp)
  next
    case False
    then have c: "cdist ?T (lin q a) (lin q e) = ?T - lin q a + off q (Suc ?p) + n" "\<not> lin q a \<le> lin q w"
      using before len P by (auto simp: cdist_def)
    then have "lin q e = off q (Suc ?p) + n \<and> lin q e < lin q a"
      using lt by (auto simp: cdist_def split: if_splits)
    then show ?thesis using False idx_ge_of_lin [OF e, of ?p] by simp
  qed
  note le = idx_le_of_lin [OF a e]
  show "\<not> (it_idx e = it_idx a \<and> it_pos a < it_pos e)"
    using pos le by auto
  show "?p = it_idx a \<and> it_pos a \<le> it_pos w \<or>
      ?p \<in> set (ring_walk (length q) ((it_idx a + 1) mod length q) (it_idx e))"
  proof (cases "Suc (it_idx a) = length q")
    case True
    have "0 < length q" using idx by linarith
    then show ?thesis using pos le idx guard True by (auto simp: ring_walk_eq)
  next
    case False
    then have "Suc (it_idx a) < length q" using idx by simp
    then show ?thesis using pos le idx guard by (auto simp: ring_walk_eq)
  qed
  show "?p = it_idx e \<longrightarrow> it_pos e \<le> it_pos w"
    using pos le guard by auto
qed

theorem frame_packet:
  assumes wf: "wf_buf b" and wf2: "wf_buf b2"
    and guard: "\<not> (it_idx (writepos b) = it_idx (readpos b) \<and> it_pos (writepos b) < it_pos (readpos b))"
    and lay: "same_layout (que b) (que b2)" and r: "readpos b2 = readpos b"
    and c2: "content b2 = content b @ g @ body" "length g = psz (que b) (it_idx (writepos b)) - it_pos (writepos b)"
    and b3: "b3 = b2\<lparr>que := put_tail (que b2) (it_idx (writepos b)) (it_pos (writepos b)) h x\<rparr>"
    and h0: "h \<noteq> []"
  shows "wf_buf b3 \<and> content b3 = content b @ h @ body"
proof -
  let ?q = "que b2" and ?r = "readpos b" and ?w = "writepos b" and ?e = "writepos b2"
  let ?p = "it_idx ?w" and ?q3 = "put_tail (que b2) (it_idx (writepos b)) (it_pos (writepos b)) h x"
  note L = same_layout_simps [OF lay]
  have W: "wf_que ?q" "wf_it ?q ?r" "wf_it ?q ?w" "wf_it ?q ?e"
    using wf wf2 L r by (auto simp: wf_buf_def)
  have p: "?p < length ?q" "it_pos ?w < psz ?q ?p" using W(3) by (auto simp: wf_it_def)
  have ps: "psz (que b) ?p = psz ?q ?p"
    using same_layout_psz [OF lay] p(1) L(1) by simp
  have room: "it_pos ?w \<le> length (pbuf (?q ! ?p))" using p(2) wf_que_room [OF W(1) p(1)] by simp
  have len: "cdist (total ?q) (lin ?q ?r) (lin ?q ?e) =
      cdist (total ?q) (lin ?q ?r) (lin ?q ?w) + (psz ?q ?p - it_pos ?w) + length body"
    using arg_cong [OF c2(1), of length] c2(2) length_content [OF wf] length_content [OF wf2] L r ps by simp
  note E = end_after_piece [OF W(2,3,4) guard len]
  obtain u v where uv: "span ?q ?r ?e = u @ pbytes ?q ?p (it_pos ?w) (psz ?q ?p) @ v"
    "span ?q3 ?r ?e = u @ h @ v" "u = (if ?r = mk_it ?p (it_pos ?w) then [] else span ?q ?r (mk_it ?p (it_pos ?w)))"
    using span_put_tail [OF p(1) room less_imp_le [OF p(2)] _ E, of h x] W(2) by (auto simp: wf_it_def)
  have w: "mk_it ?p (it_pos ?w) = ?w" by (cases ?w) simp
  have ne: "?r \<noteq> ?e" using arg_cong [OF c2(1), of length] c2(2) ps p(2) length_content [OF wf2] r by auto
  have cont: "content b2 = u @ pbytes ?q ?p (it_pos ?w) (psz ?q ?p) @ v"
    using content_span [OF wf2] ne r uv(1) by simp
  have "length u = length (content b)"
  proof (cases "?r = ?w")
    case True
    then show ?thesis using uv(3) w length_content [OF wf] by simp
  next
    case False
    have "length (span ?q ?r ?w) = cdist (total ?q) (lin ?q ?r) (lin ?q ?w)"
      using gather_chain [OF W(1) iov_between_chain [OF W(1,2,3)]] False W iov_between_total [OF W(1,2,3)]
      by (simp add: lin_less flip: gather_span)
    then show ?thesis using False uv(3) w length_content [OF wf] L by simp
  qed
  moreover have "length (pbytes ?q ?p (it_pos ?w) (psz ?q ?p)) = length g"
    using c2(2) ps wf_que_room [OF W(1) p(1)] by (simp add: pbytes_def)
  ultimately have uvb: "u = content b" "v = body"
    using cont c2(1) by auto
  have q3: "wf_que ?q3" by (rule put_tail_wf [OF W(1) p(1) room]) (simp add: h0)
  have "1 \<le> length h" using h0 by (cases h) auto
  then have its: "wf_it ?q3 ?r" "wf_it ?q3 ?e"
    using W(2,4) guard E(3) p(1) by (auto simp: wf_it_def put_tail_psz)
  have wf3: "wf_buf b3" using q3 its by (simp add: wf_buf_def b3 r)
  then show ?thesis using content_span [OF wf3] ne uv(2) uvb by (simp add: b3 r)
qed

section \<open>Writing piece by piece\<close>

lemma poke_ring:
  assumes wf: "wf_que q" and w: "wf_it q w" and d: "it_pos w + length d \<le> psz q (it_idx w)"
  shows "same_layout q (poke q (it_idx w) (it_pos w) d)"
    and "k < total q \<Longrightarrow> flat (poke q (it_idx w) (it_pos w) d) ! ((lin q w + k) mod total q) =
      (if k < length d then d ! k else flat q ! ((lin q w + k) mod total q))"
proof -
  have i: "it_idx w < length q" using w by (simp add: wf_it_def)
  show "same_layout q (poke q (it_idx w) (it_pos w) d)"
    using d wf_que_room [OF wf i] by (intro poke_layout [OF i]) simp
  assume k: "k < total q"
  have "lin q w + length d \<le> total q"
    using d off_le_total [of q "Suc (it_idx w)"] i by (simp add: lin_def off_Suc)
  then show "flat (poke q (it_idx w) (it_pos w) d) ! ((lin q w + k) mod total q) =
      (if k < length d then d ! k else flat q ! ((lin q w + k) mod total q))"
    using poke_flat [OF wf i d, of "(lin q w + k) mod total q"] k lin_less [OF w]
    by (auto simp: mod_if lin_def)
qed

lemma poke_self:
  "p \<le> n \<Longrightarrow> n \<le> length (pbuf (q ! i)) \<Longrightarrow> poke q i p (pbytes q i p n) = q"
proof -
  assume pn: "p \<le> n" "n \<le> length (pbuf (q ! i))"
  let ?b = "pbuf (q ! i)"
  have "take p ?b @ pbytes q i p n = take n ?b"
    using pn take_add [of p "n - p" ?b] by (simp add: pbytes_def)
  moreover have "p + length (pbytes q i p n) = n" using pn by (simp add: pbytes_def)
  ultimately have "take p ?b @ pbytes q i p n @ drop (p + length (pbytes q i p n)) ?b = ?b"
    by (metis append.assoc append_take_drop_id)
  then show ?thesis by (simp add: poke_def)
qed

lemma write_to_piece_end:
  assumes wf: "wf_buf b" and d: "it_pos (writepos b) + length d = psz (que b) (it_idx (writepos b))"
    and room: "length d < room b"
    and b': "b' = b\<lparr>que := poke (que b) (it_idx (writepos b)) (it_pos (writepos b)) d,
      writepos := mk_it ((it_idx (writepos b) + 1) mod length (que b)) 0\<rparr>"
  shows "wf_buf b' \<and> content b' = content b @ d"
proof -
  let ?q = "poke (que b) (it_idx (writepos b)) (it_pos (writepos b)) d" and ?w = "writepos b"
  have W: "wf_que (que b)" "wf_it (que b) ?w" using wf by (auto simp: wf_buf_def)
  note P = poke_ring [OF W eq_imp_le [OF d]]
  note L = same_layout_simps [OF P(1)]
  have i: "it_idx ?w < length (que b)" using W(2) by (simp add: wf_it_def)
  have w': "wf_it ?q (mk_it ((it_idx ?w + 1) mod length (que b)) 0)"
    using L(6) i wf_que_pos [OF W(1), of "(it_idx ?w + 1) mod length (que b)"] by (simp add: wf_it_def)
  have "(lin (que b) ?w + length d) mod total (que b) = off (que b) ((it_idx ?w + 1) mod length (que b))"
    using off_wrap0 [OF W(1) i] d by (simp add: lin_def add.assoc)
  then have lw: "lin ?q (mk_it ((it_idx ?w + 1) mod length (que b)) 0) =
      (lin (que b) ?w + length d) mod total (que b)"
    using L by (simp add: lin_def)
  show ?thesis
    by (rule content_advance_write [OF wf P(1) room _ _ _ w' lw P(2)]) (simp_all add: b')
qed

lemma write_in_piece:
  assumes wf: "wf_buf b" and d: "it_pos (writepos b) + length d < psz (que b) (it_idx (writepos b))"
    and room: "length d < room b"
    and b': "b' = b\<lparr>que := poke (que b) (it_idx (writepos b)) (it_pos (writepos b)) d,
      writepos := mk_it (it_idx (writepos b)) (it_pos (writepos b) + length d)\<rparr>"
  shows "wf_buf b' \<and> content b' = content b @ d"
proof -
  let ?q = "poke (que b) (it_idx (writepos b)) (it_pos (writepos b)) d" and ?w = "writepos b"
  have W: "wf_que (que b)" "wf_it (que b) ?w" using wf by (auto simp: wf_buf_def)
  note P = poke_ring [OF W less_imp_le [OF d]]
  note L = same_layout_simps [OF P(1)]
  have w: "wf_it (que b) (mk_it (it_idx ?w) (it_pos ?w + length d))"
    using W(2) d by (simp add: wf_it_def)
  then have w': "wf_it ?q (mk_it (it_idx ?w) (it_pos ?w + length d))" using L(6) by simp
  have lw: "lin ?q (mk_it (it_idx ?w) (it_pos ?w + length d)) =
      (lin (que b) ?w + length d) mod total (que b)"
    using L lin_less [OF w] by (simp add: lin_def add.assoc)
  show ?thesis
    by (rule content_advance_write [OF wf P(1) room _ _ _ w' lw P(2)]) (simp_all add: b')
qed

lemma align_content:
  assumes wf: "wf_buf b" and room: "psz (que b) (it_idx (writepos b)) - it_pos (writepos b) < room b"
  shows "wf_buf (snd (AlignWritePos b))"
    and "\<exists>g. length g = psz (que b) (it_idx (writepos b)) - it_pos (writepos b)
      \<and> content (snd (AlignWritePos b)) = content b @ g"
proof -
  let ?w = "writepos b"
  let ?g = "pbytes (que b) (it_idx ?w) (it_pos ?w) (psz (que b) (it_idx ?w))"
  have W: "wf_que (que b)" "wf_it (que b) ?w" using wf by (auto simp: wf_buf_def)
  then have i: "it_idx ?w < length (que b)" "it_pos ?w < psz (que b) (it_idx ?w)"
    by (auto simp: wf_it_def)
  have len: "length ?g = psz (que b) (it_idx ?w) - it_pos ?w"
    using wf_que_room [OF W(1) i(1)] by (simp add: pbytes_def)
  have "wf_buf (snd (AlignWritePos b)) \<and> content (snd (AlignWritePos b)) = content b @ ?g"
    by (rule write_to_piece_end [OF wf])
      (use len i room wf_que_room [OF W(1) i(1)] in \<open>simp_all add: AlignWritePos_def Let_def poke_self\<close>)
  then show "wf_buf (snd (AlignWritePos b))"
    and "\<exists>g. length g = psz (que b) (it_idx (writepos b)) - it_pos (writepos b)
      \<and> content (snd (AlignWritePos b)) = content b @ g"
    using len by auto
qed

section \<open>A zero-copy client\<close>

text \<open>
  How a caller of \<open>ZeroCopyOutputStream\<close> writes the bytes \<open>d\<close>: it asks for chunks with
  \<open>Next\<close>, fills them, and gives the unused rest of the last one back with \<open>BackUp\<close>.
  The fuel bounds the number of chunks.
\<close>

fun zero_copy_write :: "nat \<Rightarrow> 'a iobuf_scheme \<Rightarrow> char list \<Rightarrow> 'a iobuf_scheme option" where
  "zero_copy_write fuel b [] = Some b"
| "zero_copy_write 0 b d = None"
| "zero_copy_write (Suc fuel) b d =
     (case WriteBuffer_Next b of
        None \<Rightarrow> None
      | Some (v, b1) \<Rightarrow>
          let n = nat (iov_len v);
              b2 = b1\<lparr>que := poke (que b1) (iov_piece v) (iov_off v) (take n d)\<rparr>
          in if length d \<le> n then WriteBuffer_BackUp b2 (n - length d)
             else zero_copy_write fuel b2 (drop n d))"

text \<open>The pieces the next bytes can go to.\<close>

definition free_pieces :: "'a iobuf_scheme \<Rightarrow> nat set" where
  "free_pieces b =
     (let w = writepos b; r = readpos b; N = length (que b) in
      if it_idx w = it_idx r \<and> it_pos w < it_pos r then {it_idx r}
      else {it_idx w, it_idx r} \<union> set (ring_walk N ((it_idx w + 1) mod N) (it_idx r)))"

definition free_uniform :: "'a iobuf_scheme \<Rightarrow> nat \<Rightarrow> bool" where
  "free_uniform b s \<longleftrightarrow> (\<forall>t \<in> free_pieces b. psz (que b) t = s)"

lemma next_free:
  assumes "wf_buf b" "\<not> (it_idx (writepos b) = it_idx (readpos b) \<and> it_pos (writepos b) < it_pos (readpos b))"
  shows "(it_idx (writepos b) + 1) mod length (que b) \<in> free_pieces b"
proof -
  let ?n = "(it_idx (writepos b) + 1) mod length (que b)"
  have "it_idx (readpos b) < length (que b)" "?n < length (que b)"
    using assms(1) by (auto simp: wf_buf_def wf_it_def)
  then have "?n = it_idx (readpos b) \<or> ?n \<in> set (ring_walk (length (que b)) ?n (it_idx (readpos b)))"
    by (subst ring_walk.simps) auto
  then show ?thesis using assms(2) by (auto simp: free_pieces_def Let_def)
qed

lemma free_pieces_next:
  assumes wf: "wf_buf b" and ring: "\<not> (it_idx (writepos b) = it_idx (readpos b) \<and> it_pos (writepos b) < it_pos (readpos b))"
    and b': "writepos b' = mk_it ((it_idx (writepos b) + 1) mod length (que b)) 0"
      "readpos b' = readpos b" "length (que b') = length (que b)"
    and ne: "writepos b' \<noteq> readpos b'"
  shows "free_pieces b' \<subseteq> free_pieces b"
proof -
  let ?N = "length (que b)" and ?n = "(it_idx (writepos b) + 1) mod length (que b)" and ?r = "it_idx (readpos b)"
  have i: "?r < ?N" "?n < ?N" using wf by (auto simp: wf_buf_def wf_it_def)
  show ?thesis
  proof (cases "?n = ?r")
    case True
    then have "it_pos (readpos b) \<noteq> 0" using ne b' by (cases "readpos b") auto
    then show ?thesis using True b' ring by (auto simp: free_pieces_def Let_def)
  next
    case False
    then have "ring_walk ?N ?n ?r = ?n # ring_walk ?N (Suc ?n mod ?N) ?r"
      using i by (subst ring_walk.simps) auto
    then show ?thesis using False b' ring by (auto simp: free_pieces_def Let_def)
  qed
qed

lemma it_norm_back_once:
  "0 < c \<Longrightarrow> c \<le> psz q i \<Longrightarrow> it_norm_back q i (- int c) = Some (mk_it ((i + length q - 1) mod length q) (psz q i - c))"
  by (subst it_norm_back.simps, subst it_norm_back.simps) (auto simp: nat_diff_distrib')

lemma it_norm_back_0: "0 \<le> p \<Longrightarrow> it_norm_back q i p = Some (mk_it i (nat p))"
  by (subst it_norm_back.simps) simp

lemma upd_swap: "b\<lparr>writepos := w, que := q\<rparr> = b\<lparr>que := q, writepos := w\<rparr>"
  by simp

lemma pred_succ_mod: "(i::nat) < N \<Longrightarrow> ((i + 1) mod N + N - 1) mod N = i"
  by (cases "Suc i = N") auto

theorem zero_copy_write_appends:
  "wf_buf b \<Longrightarrow> free_uniform b s \<Longrightarrow> length d < room b \<Longrightarrow> length d \<le> fuel \<Longrightarrow>
   \<exists>b'. zero_copy_write fuel b d = Some b' \<and> wf_buf b' \<and> content b' = content b @ d
     \<and> same_layout (que b) (que b') \<and> readpos b' = readpos b"
proof (induction fuel b d rule: zero_copy_write.induct)
  case (3 fuel b c cs)
  let ?d = "c # cs" and ?w = "writepos b" and ?r = "readpos b" and ?q = "que b"
  let ?p = "it_idx ?w" and ?o = "it_pos ?w"
  have W: "wf_que ?q" "wf_it ?q ?w" "wf_it ?q ?r" using "3.prems"(1) by (auto simp: wf_buf_def)
  have i: "?p < length ?q" "?o < psz ?q ?p" using W(2) by (auto simp: wf_it_def)
  have room: "length ?d < room b" using "3.prems"(3) .
  show ?case
  proof (cases "it_idx ?r = ?p \<and> ?o < it_pos ?r")
    case True
    then have "room b = it_pos ?r - ?o"
      using lin_less [OF W(3)] by (simp add: room_def length_content [OF "3.prems"(1)] cdist_def lin_def)
    then have fits: "?o + length ?d < it_pos ?r" "it_pos ?r < psz ?q ?p"
      using room True W(3) by (auto simp: wf_it_def)
    have wr: "?w\<lparr>it_pos := it_pos ?r - 1\<rparr> = mk_it ?p (it_pos ?r - 1)" by (cases ?w) simp
    let ?n = "it_pos ?r - 1 - ?o" and ?e = "mk_it ?p (it_pos ?r - 1)"
    have "\<not> isFull b" using fits by (simp add: isFull_def)
    then have nx: "WriteBuffer_Next b = Some (\<lparr>iov_piece = ?p, iov_off = ?o, iov_len = int (it_pos ?r) - 1 - int ?o\<rparr>,
        b\<lparr>writepos := ?e\<rparr>)"
      unfolding WriteBuffer_Next_def Let_def wr using True fits by auto
    have n: "nat (int (it_pos ?r) - 1 - int ?o) = ?n" using fits by simp
    have le: "length ?d \<le> ?n" "take ?n ?d = ?d" using fits by auto
    have bk: "it_sub q' ?e (?n - length ?d) = Some (mk_it ?p (?o + length ?d))" for q'
      using fits by (simp add: it_sub_def it_norm_back_0)
    let ?b = "b\<lparr>que := poke ?q ?p ?o ?d, writepos := mk_it ?p (?o + length ?d)\<rparr>"
    have "zero_copy_write (Suc fuel) b ?d =
        WriteBuffer_BackUp (b\<lparr>que := poke ?q ?p ?o ?d, writepos := ?e\<rparr>) (?n - length ?d)"
      unfolding zero_copy_write.simps nx option.case prod.case Let_def iovec.simps n le(2)
      using le(1) by (simp add: upd_swap)
    then have "zero_copy_write (Suc fuel) b ?d = Some ?b"
      using bk by (simp add: WriteBuffer_BackUp_def)
    moreover have "wf_buf ?b \<and> content ?b = content b @ ?d"
      by (rule write_in_piece [OF "3.prems"(1) _ room refl]) (use fits in simp)
    moreover have "same_layout ?q (que ?b)"
      using poke_ring(1) [OF W(1,2), of ?d] fits by simp
    ultimately show ?thesis by auto
  next
    case ring: False
    let ?n = "psz ?q ?p - ?o" and ?nx = "mk_it ((?p + 1) mod length ?q) 0"
    let ?b2 = "b\<lparr>que := poke ?q ?p ?o (take ?n ?d), writepos := ?nx\<rparr>"
    have ring': "\<not> (?p = it_idx ?r \<and> ?o < it_pos ?r)" using ring by auto
    have nx: "WriteBuffer_Next b = Some (\<lparr>iov_piece = ?p, iov_off = ?o, iov_len = int (psz ?q ?p) - int ?o\<rparr>,
        b\<lparr>writepos := ?nx\<rparr>)"
      using ring by (auto simp: WriteBuffer_Next_def isFull_def Let_def)
    have n: "nat (int (psz ?q ?p) - int ?o) = ?n" by simp
    have lay: "same_layout ?q (poke ?q ?p ?o (take ?n ?d))"
      by (rule poke_ring(1) [OF W(1,2)]) (use i in auto)
    note L = same_layout_simps [OF lay]
    have step: "zero_copy_write (Suc fuel) b ?d =
        (if length ?d \<le> ?n then WriteBuffer_BackUp ?b2 (?n - length ?d)
         else zero_copy_write fuel ?b2 (drop ?n ?d))"
      using nx n by (simp add: Let_def upd_swap)
    consider (less) "length ?d < ?n" | (eq) "length ?d = ?n" | (more) "?n < length ?d" by linarith
    then show ?thesis
    proof cases
      case less
      have u: "psz (poke ?q ?p ?o ?d) ((?p + 1) mod length ?q) = psz ?q ?p"
      proof -
        have "psz ?q ((?p + 1) mod length ?q) = s" "psz ?q ?p = s"
          using "3.prems"(2) next_free [OF "3.prems"(1) ring'] ring'
          by (auto simp: free_uniform_def free_pieces_def Let_def)
        then show ?thesis using same_layout_psz [OF lay, of "(?p + 1) mod length ?q"] i less by simp
      qed
      let ?b = "b\<lparr>que := poke ?q ?p ?o ?d, writepos := mk_it ?p (?o + length ?d)\<rparr>"
      have c: "?n - length ?d \<le> psz ?q ?p" "psz ?q ?p - (?n - length ?d) = ?o + length ?d"
        using less i by auto
      have tk: "take ?n ?d = ?d" using less by simp
      have len: "length (poke ?q ?p ?o ?d) = length ?q" by (simp add: poke_def)
      have "it_sub (poke ?q ?p ?o ?d) ?nx (?n - length ?d) = Some (mk_it ?p (?o + length ?d))"
        unfolding it_sub_def
        using it_norm_back_once [of "?n - length ?d" "poke ?q ?p ?o ?d" "(?p + 1) mod length ?q"]
          less c u len pred_succ_mod [OF i(1)] by simp
      then have "zero_copy_write (Suc fuel) b ?d = Some ?b"
        unfolding step tk using less by (simp add: WriteBuffer_BackUp_def)
      moreover have "wf_buf ?b \<and> content ?b = content b @ ?d"
        by (rule write_in_piece [OF "3.prems"(1) _ room refl]) (use less in simp)
      moreover have "same_layout ?q (que ?b)" using lay tk by simp
      ultimately show ?thesis by auto
    next
      case eq
      have "zero_copy_write (Suc fuel) b ?d = Some ?b2"
        unfolding step using eq by (simp add: WriteBuffer_BackUp_def it_sub_def it_norm_back_0)
      moreover have "wf_buf ?b2 \<and> content ?b2 = content b @ take ?n ?d"
        by (rule write_to_piece_end [OF "3.prems"(1) _ _ refl]) (use eq i room in auto)
      ultimately show ?thesis using lay eq by auto
    next
      case more
      have B: "wf_buf ?b2 \<and> content ?b2 = content b @ take ?n ?d"
        by (rule write_to_piece_end [OF "3.prems"(1) _ _ refl]) (use more i room in auto)
      have rm: "room ?b2 = room b - ?n" using B L more by (simp add: room_def)
      have lt: "length (content b) + length ?d < total ?q"
        using room by (simp add: room_def)
      then have ne: "?nx \<noteq> ?r"
        using content_Nil_iff [of ?b2] B more i by (auto simp: isEmpty_def)
      have sub: "free_pieces ?b2 \<subseteq> free_pieces b"
        by (rule free_pieces_next [OF "3.prems"(1) ring']) (use ne L in auto)
      have lim: "free_pieces b \<subseteq> {..<length ?q}"
        using i W(3) by (auto simp: free_pieces_def wf_it_def Let_def dest: set_ring_walk)
      have fu: "free_uniform ?b2 s"
        unfolding free_uniform_def
      proof
        fix t assume "t \<in> free_pieces ?b2"
        then have "t \<in> free_pieces b" "t < length ?q" using sub lim by blast+
        then show "psz (que ?b2) t = s"
          using "3.prems"(2) same_layout_psz [OF lay, of t] by (simp add: free_uniform_def)
      qed
      have "\<exists>b'. zero_copy_write fuel ?b2 (drop ?n ?d) = Some b' \<and> wf_buf b' \<and>
          content b' = content ?b2 @ drop ?n ?d \<and> same_layout (que ?b2) (que b') \<and> readpos b' = readpos ?b2"
        by (rule "3.IH" [OF nx refl, simplified n, simplified])
          (use more B fu rm room i "3.prems"(4) in auto)
      then show ?thesis
        unfolding step using more B lay by (auto intro: same_layout_trans)
    qed
  qed
qed auto

section \<open>Reading\<close>

lemma wf_bufD:
  "wf_buf b \<Longrightarrow> wf_que (que b) \<and> wf_it (que b) (readpos b) \<and> wf_it (que b) (writepos b)"
  by (simp add: wf_buf_def)

text \<open>A chunk of the read side: the bytes handed out, and the rest of the content.\<close>

lemma read_next_chunk:
  assumes wf: "wf_buf b"
  shows "ReadBuffer_Next b = None \<longleftrightarrow> content b = []"
    and "ReadBuffer_Next b = Some (v, b') \<Longrightarrow>
      wf_buf b' \<and> que b' = que b \<and> writepos b' = writepos b
      \<and> content b = gather (que b) [v] @ content b'
      \<and> length (gather (que b) [v]) = nat (iov_len v) \<and> 0 < iov_len v"
proof -
  let ?r = "readpos b" and ?w = "writepos b" and ?q = "que b"
  have W: "wf_que ?q" "wf_it ?q ?r" "wf_it ?q ?w" using wf_bufD [OF wf] by auto
  have i: "it_idx ?r < length ?q" "it_pos ?r < psz ?q (it_idx ?r)" using W(2) by (auto simp: wf_it_def)
  have rm: "psz ?q (it_idx ?r) \<le> length (pbuf (?q ! it_idx ?r))" by (rule wf_que_room [OF W(1) i(1)])
  show "ReadBuffer_Next b = None \<longleftrightarrow> content b = []"
    using content_Nil_iff [OF wf] by (simp add: ReadBuffer_Next_def Let_def)
  assume nx: "ReadBuffer_Next b = Some (v, b')"
  then have ne: "content b \<noteq> []" "?r \<noteq> ?w"
    using content_Nil_iff [OF wf] by (auto simp: ReadBuffer_Next_def isEmpty_def Let_def)
  define n where "n = nat (iov_len v)"
  have c: "content b = span ?q ?r ?w" by (rule content_span [OF wf ne(2)])
  have v: "iov_piece v = it_idx ?r" "iov_off v = it_pos ?r" "0 < iov_len v"
    "n \<le> psz ?q (it_idx ?r) - it_pos ?r"
    "b' = b\<lparr>readpos := readpos b'\<rparr>"
    "readpos b' = (if it_idx ?r = it_idx ?w \<and> it_pos ?r < it_pos ?w then ?w
       else mk_it ((it_idx ?r + 1) mod length ?q) 0)"
    "n = (if it_idx ?r = it_idx ?w \<and> it_pos ?r < it_pos ?w then it_pos ?w - it_pos ?r
       else psz ?q (it_idx ?r) - it_pos ?r)"
    using nx i W(3) by (cases ?r; cases ?w; force simp: ReadBuffer_Next_def Let_def n_def wf_it_def
        split: if_splits)+
  have g: "gather ?q [v] = pbytes ?q (it_idx ?r) (it_pos ?r) (it_pos ?r + n)"
    using v(1,2) by (simp add: gather_def pbytes_def n_def)
  have lg: "length (gather ?q [v]) = n" using g v(4) rm by (simp add: pbytes_def)
  have tk: "gather ?q [v] = take n (content b)"
  proof (cases "it_idx ?w = it_idx ?r \<and> it_pos ?r < it_pos ?w")
    case True
    then show ?thesis using v(7) g by (simp add: c span_def pbytes_def)
  next
    case False
    then have "n = psz ?q (it_idx ?r) - it_pos ?r" using v(7) by auto
    then have "gather ?q [v] = pbytes ?q (it_idx ?r) (it_pos ?r) (psz ?q (it_idx ?r))"
      using g i by simp
    moreover have "content b = pbytes ?q (it_idx ?r) (it_pos ?r) (psz ?q (it_idx ?r)) @
        drop n (content b)"
      unfolding c span_def if_not_P [OF False] using lg calculation by auto
    ultimately show ?thesis using lg by (metis append_eq_conv_conj)
  qed
  have nle: "n \<le> length (content b)" using lg tk by simp
  have lw: "lin ?q (readpos b') = (lin ?q ?r + n) mod total ?q"
  proof (cases "it_idx ?w = it_idx ?r \<and> it_pos ?r < it_pos ?w")
    case True
    then have "lin ?q ?r + n = lin ?q ?w" using v(7) by (simp add: lin_def)
    then show ?thesis using True v(6) lin_less [OF W(3)] by simp
  next
    case False
    then show ?thesis using v(6,7) i off_wrap0 [OF W(1) i(1)] by (auto simp: lin_def add.assoc)
  qed
  obtain r where r: "it_add ?q ?r n = Some r" "wf_it ?q r" "lin ?q r = (lin ?q ?r + n) mod total ?q"
    using it_add_lin [OF W(1,2)] by blast
  have wr: "wf_it ?q (readpos b')"
    using v(6) W(3) i wf_que_pos [OF W(1)] by (auto simp: wf_it_def)
  then have rr: "readpos b' = r" using lin_inj [OF wr r(2)] lw r(3) by simp
  have b': "b' = b\<lparr>readpos := r\<rparr>" by (rule trans [OF v(5)]) (simp only: rr)
  then have "wf_buf b' \<and> content b' = drop n (content b)"
    using advance_read_drops [OF wf nle] r(1) by auto
  moreover have "que b' = ?q \<and> writepos b' = ?w" using b' by simp
  ultimately show "wf_buf b' \<and> que b' = que b \<and> writepos b' = writepos b
      \<and> content b = gather (que b) [v] @ content b'
      \<and> length (gather (que b) [v]) = nat (iov_len v) \<and> 0 < iov_len v"
    using tk lg v(3) by (simp add: n_def)
qed

lemma skip_content:
  assumes "wf_buf b" "n \<le> length (content b)"
  shows "\<exists>b'. ReadBuffer_Skip b n = Some b' \<and> wf_buf b' \<and> content b' = drop n (content b)"
  using advance_read_drops [OF assms] by (auto simp: ReadBuffer_Skip_def it_add_def)

lemma move_send_content:
  assumes "wf_buf b" "n \<le> length (content b)"
  shows "\<exists>b'. MoveSendPtr b n = Some b' \<and> wf_buf b' \<and> content b' = drop n (content b)"
  using advance_read_drops [OF assms] by (auto simp: MoveSendPtr_def)

lemma buffer_used:
  assumes "wf_buf b" "total (que b) \<le> 2 ^ 32"
  shows "GetBufferUsed b = int (length (content b))"
proof -
  have W: "wf_it (que b) (readpos b)" "wf_it (que b) (writepos b)" using wf_bufD [OF assms(1)] by auto
  have "length (content b) < total (que b)"
    unfolding length_content [OF assms(1)] by (rule cdist_less [OF lin_less [OF W(1)] lin_less [OF W(2)]])
  then have "int (length (content b)) < 2 ^ 32" using assms(2) by (simp add: nat_less_iff)
  then show ?thesis
    unfolding GetBufferUsed_def it_diff_span int32_mod it_span_lin [OF W] length_content [OF assms(1)]
    by (intro mod_pos_pos_trivial) simp_all
qed

lemma buffer_left:
  assumes "wf_buf b" "content b \<noteq> []" "total (que b) < 2 ^ 31"
  shows "GetBufferLeft dbs b = int (room b)"
proof -
  have W: "wf_it (que b) (readpos b)" "wf_it (que b) (writepos b)" using wf_bufD [OF assms(1)] by auto
  have ne: "readpos b \<noteq> writepos b" using assms(2) content_Nil_iff [OF assms(1)] by (simp add: isEmpty_def)
  have lr: "lin (que b) (readpos b) \<noteq> lin (que b) (writepos b)" using ne lin_inj [OF W] by simp
  have "cdist (total (que b)) (lin (que b) (writepos b)) (lin (que b) (readpos b)) = room b"
    unfolding room_def length_content [OF assms(1)] cdist_def
    using lr lin_less [OF W(1)] lin_less [OF W(2)] by auto
  then show ?thesis
    unfolding GetBufferLeft_def if_not_P [OF ne] using it_diff_lin [OF W(2,1) assms(3)] by simp
qed

text \<open>An empty buffer reports what its pieces would hold in full: too much by what has been cut off.\<close>

lemma buffer_left_empty:
  assumes "wf_buf b" "isEmpty b" "length (que b) * dbs < 2 ^ 31"
  shows "GetBufferLeft dbs b = int (room b) + (\<Sum>p\<leftarrow>que b. int dbs - int (psize p))"
proof -
  have "GetBufferLeft dbs b = int (length (que b)) * int dbs"
    using assms(2) int32_nat [OF assms(3)] by (simp add: GetBufferLeft_def isEmpty_def)
  moreover have "(\<Sum>p\<leftarrow>q. int dbs - int (psize p)) = int (length q) * int dbs - int (total q)" for q
    by (induction q) (simp_all add: total_def algebra_simps)
  moreover have "room b = total (que b)" using content_Nil_iff [OF assms(1)] assms(2) by (simp add: room_def)
  ultimately show ?thesis by simp
qed

section \<open>How many segments the scatter lists have\<close>

lemma iov_between_count:
  assumes "it_idx a < length q" "it_idx e < length q"
  shows "length (iov_between q a e) \<le> length q + 1"
    and "length (iov_between q a e) = length q + 1 \<longleftrightarrow>
      it_idx e = it_idx a \<and> 0 < it_pos e \<and> it_pos e \<le> it_pos a"
proof -
  let ?s = "(it_idx a + 1) mod length q"
  have s: "?s < length q" using assms by simp
  have l: "length (ring_walk (length q) ?s (it_idx e)) = cdist (length q) ?s (it_idx e)"
    by (rule length_ring_walk [OF s assms(2)])
  have c: "cdist (length q) ?s (it_idx e) < length q" by (rule cdist_less [OF s assms(2)])
  have m: "cdist (length q) ?s (it_idx e) + 1 = length q \<longleftrightarrow> it_idx e = it_idx a"
    using assms by (cases "Suc (it_idx a) = length q") (auto simp: cdist_def)
  show "length (iov_between q a e) \<le> length q + 1"
    using l c by (auto simp: iov_between_def)
  show "length (iov_between q a e) = length q + 1 \<longleftrightarrow>
      it_idx e = it_idx a \<and> 0 < it_pos e \<and> it_pos e \<le> it_pos a"
    using l c m assms by (auto simp: iov_between_def)
qed

section \<open>Reset, Reserve and BackUp\<close>

lemma set_psize_nth: "t < length q \<Longrightarrow> set_psize q i n ! t = (if t = i then (q ! t)\<lparr>psize := n\<rparr> else q ! t)"
  by (simp add: set_psize_def)

lemma set_psize_length [simp]: "length (set_psize q i n) = length q"
  by (simp add: set_psize_def)

lemma fold_set_psize:
  "length (fold (\<lambda>t q. set_psize q t n) ts q) = length q
   \<and> (\<forall>t < length q. fold (\<lambda>t q. set_psize q t n) ts q ! t =
       (if t \<in> set ts then (q ! t)\<lparr>psize := n\<rparr> else q ! t))"
  by (induction ts arbitrary: q) (auto simp: set_psize_nth)

definition reset_pieces :: "'a iobuf_scheme \<Rightarrow> nat set" where
  "reset_pieces b = insert (it_idx (readpos b))
     (set (ring_walk (length (que b)) ((it_idx (writepos b) + 1) mod length (que b)) (it_idx (readpos b))))"

lemma Reset_que:
  assumes "\<not> (it_idx (readpos b) = it_idx (writepos b) \<and> it_pos (writepos b) < it_pos (readpos b))"
  shows "readpos (Reset dbs b) = readpos b" and "writepos (Reset dbs b) = writepos b"
    and "length (que (Reset dbs b)) = length (que b)"
    and "t < length (que b) \<Longrightarrow> que (Reset dbs b) ! t =
      (if t \<in> reset_pieces b then (que b ! t)\<lparr>psize := dbs\<rparr> else que b ! t)"
  using assms fold_set_psize [of dbs "ring_walk (length (que b))
      ((it_idx (writepos b) + 1) mod length (que b)) (it_idx (readpos b))" "que b"]
  by (auto simp: Reset_def isFull_def Let_def set_psize_nth reset_pieces_def)

lemma Reset_idle:
  "it_idx (readpos b) = it_idx (writepos b) \<and> it_pos (writepos b) < it_pos (readpos b) \<Longrightarrow> Reset dbs b = b"
  by (simp add: Reset_def Let_def)

lemma in_ring_walk_Suc:
  assumes "r < N" "w < N"
  shows "t \<in> set (ring_walk N (Suc r mod N) w) \<longleftrightarrow>
    t < N \<and> (if r < w then r < t \<and> t < w else r < t \<or> t < w)"
proof (cases "Suc r = N")
  case True
  have "0 < N" using assms by linarith
  then show ?thesis using True assms by (auto simp: ring_walk_eq)
next
  case False
  then have "Suc r < N" using assms by simp
  then show ?thesis using assms by (auto simp: ring_walk_eq)
qed

lemma ring_walk_disjoint:
  assumes "r < N" "w < N" "r \<noteq> w"
  shows "set (ring_walk N ((r + 1) mod N) w) \<inter> insert r (set (ring_walk N ((w + 1) mod N) r)) = {}"
    and "w \<notin> set (ring_walk N ((w + 1) mod N) r)"
proof -
  show "set (ring_walk N ((r + 1) mod N) w) \<inter> insert r (set (ring_walk N ((w + 1) mod N) r)) = {}"
    using assms by (auto simp: in_ring_walk_Suc simp del: Suc_eq_plus1 split: if_splits)
  show "w \<notin> set (ring_walk N ((w + 1) mod N) r)"
    using ring_walk_not_start [OF assms(2)] by simp
qed

lemma Reset_content:
  assumes wf: "wf_buf b" and dbs: "list_all (\<lambda>p. length (pbuf p) = dbs) (que b)"
    and full: "isEmpty b \<or> it_idx (readpos b) = it_idx (writepos b)
      \<or> psz (que b) (it_idx (readpos b)) = dbs"
  shows "wf_buf (Reset dbs b) \<and> content (Reset dbs b) = content b"
proof (cases "it_idx (readpos b) = it_idx (writepos b) \<and> it_pos (writepos b) < it_pos (readpos b)")
  case True
  then show ?thesis using wf by (simp add: Reset_idle)
next
  case ring: False
  let ?b = "Reset dbs b" and ?r = "readpos b" and ?w = "writepos b" and ?q = "que b"
  note R = Reset_que [OF ring, where dbs = dbs]
  have W: "wf_que ?q" "wf_it ?q ?r" "wf_it ?q ?w" using wf_bufD [OF wf] by auto
  have i: "it_idx ?r < length ?q" "it_idx ?w < length ?q" using W by (auto simp: wf_it_def)
  have len: "length (pbuf (?q ! t)) = dbs" if "t < length ?q" for t
    using dbs that by (simp add: list_all_length)
  have pb: "pbuf (que ?b ! t) = pbuf (?q ! t)" if "t < length ?q" for t using R(4) [OF that] by simp
  have sz: "psz ?q t \<le> psz (que ?b) t \<and> psz (que ?b) t \<le> dbs" if "t < length ?q" for t
    using R(4) [OF that] len [OF that] wf_que_room [OF W(1) that] by auto
  have wfb: "wf_buf ?b"
  proof -
    have "que ?b \<noteq> []" using R(3) i(1) by (metis length_0_conv not_less_zero)
    moreover have "0 < psz (que ?b) t \<and> psz (que ?b) t \<le> length (pbuf (que ?b ! t))" if "t < length ?q" for t
      using sz [OF that] pb [OF that] len [OF that] wf_que_pos [OF W(1) that] by simp
    ultimately show ?thesis using R(1,2,3) W sz i
      by (auto simp: wf_buf_def wf_que_def wf_it_def list_all_length intro: less_le_trans)
  qed
  show ?thesis
  proof (cases "?r = ?w")
    case True
    then show ?thesis using wfb content_Nil_iff [OF wfb] content_Nil_iff [OF wf] R(1,2)
      by (auto simp: isEmpty_def)
  next
    case ne: False
    have "span (que ?b) ?r ?w = span ?q ?r ?w"
    proof (cases "it_idx ?r = it_idx ?w")
      case True
      then show ?thesis using ring ne pb i by (cases ?r; cases ?w) (auto simp: span_def pbytes_def)
    next
      case False
      have keep: "que ?b ! t = ?q ! t" if "t \<in> set (ring_walk (length ?q) ((it_idx ?r + 1) mod length ?q) (it_idx ?w))" for t
        using that ring_walk_disjoint(1) [OF i False] R(4) [of t] set_ring_walk [OF that]
        by (auto simp: reset_pieces_def)
      have "psz (que ?b) (it_idx ?r) = psz ?q (it_idx ?r)"
        using full False ne R(4) [OF i(1)] by (auto simp: isEmpty_def)
      then show ?thesis using False pb [OF i(1)] pb [OF i(2)] R(3)
        by (auto simp: span_def pbytes_def keep intro!: arg_cong [where f = concat])
    qed
    then show ?thesis using wfb content_span [OF wf ne] content_span [OF wfb] R(1,2) ne by simp
  qed
qed

lemma Reset_free:
  assumes wf: "wf_buf b" and w: "psz (que b) (it_idx (writepos b)) = dbs \<or> it_idx (readpos b) = it_idx (writepos b)"
    and ring: "\<not> (it_idx (readpos b) = it_idx (writepos b) \<and> it_pos (writepos b) < it_pos (readpos b))"
  shows "free_uniform (Reset dbs b) dbs"
proof -
  note R = Reset_que [OF ring, where dbs = dbs]
  have i: "it_idx (readpos b) < length (que b)" "it_idx (writepos b) < length (que b)"
    using wf_bufD [OF wf] by (auto simp: wf_it_def)
  have "psz (que (Reset dbs b)) t = dbs" if "t \<in> insert (it_idx (writepos b)) (reset_pieces b)" for t
  proof -
    have "t < length (que b)" using that i by (auto simp: reset_pieces_def dest: set_ring_walk)
    then show ?thesis using that R(4) [of t] w by (auto simp: reset_pieces_def)
  qed
  moreover have "free_pieces (Reset dbs b) \<subseteq> insert (it_idx (writepos b)) (reset_pieces b)"
    using R(1-3) ring by (auto simp: free_pieces_def reset_pieces_def Let_def)
  ultimately show ?thesis by (auto simp: free_uniform_def)
qed

text \<open>
  \<open>BackUp\<close> over a piece border uses the size of the piece it leaves, not of the piece it
  enters: it undoes \<open>Next\<close> only where the two sizes agree.
\<close>

lemma back_up_over_border:
  assumes "0 < c" "c \<le> psz q ((i + 1) mod length q)" "i < length q"
  shows "it_sub q (mk_it ((i + 1) mod length q) 0) c = Some (mk_it i (psz q ((i + 1) mod length q) - c))"
  using it_norm_back_once [OF assms(1,2)] pred_succ_mod [OF assms(3)] by (simp add: it_sub_def)

end
