(* ===== verification/Error_Code.thy ===== *)
theory Error_Code
  imports Prelude
begin

text \<open>
  \<open>mio/mio_error_code.h\<close> and \<open>mio/mio_error_code.cpp\<close>: the error codes, their numbers and
  their names. \<open>ErrorString\<close> is a function of the number, as the controllers pass any
  \<open>int\<close> to it; the statements \<open>"Not Found";\<close> of its body have no effect.
\<close>

datatype ErrorCode =
    OK
  | HTTP_PARSER_FAIL | HTTP_PASER_HALF | HTTP_PASER_FINISH
  | HTTP_REQ_OVERSIZE | HTTP_REQ_NOLENGTH
  | HTTP_SERVER_NOTFOUND | HTTP_METHOD_NOTFOUND | HTTP_REQUEST_OVERFLOW
  | SERVER_READBUFFER_EMPTY | SERVER_READBUFFER_FULL
  | SERVER_WRIEBUFFER_EMPTY | SERVER_WRIEBUFFER_FULL
  | SERVER_REQ_PARSER_FAILED | SERVER_PROCESS_FAILED | SERVER_RES_SERIA_FAILED
  | CLIENT_CONNECT_OK | CLIENT_CONNECT_FAIL | CLIENT_CONNECT_IPROCESS
  | CLIENT_CANCEL_BY_ERROR | CLIENT_CANCEL_BY_CLOSE | CLIENT_SEQ_NOT_MATCH
  | CLIENT_RECV_TIMEOUT | CLIENT_SEND_TIMEOUT

fun error_number :: "ErrorCode \<Rightarrow> int" where
  "error_number OK = 200"
| "error_number HTTP_PARSER_FAIL = 400"
| "error_number HTTP_PASER_HALF = 401"
| "error_number HTTP_PASER_FINISH = 402"
| "error_number HTTP_REQ_OVERSIZE = 410"
| "error_number HTTP_REQ_NOLENGTH = 411"
| "error_number HTTP_SERVER_NOTFOUND = 423"
| "error_number HTTP_METHOD_NOTFOUND = 424"
| "error_number HTTP_REQUEST_OVERFLOW = 425"
| "error_number SERVER_READBUFFER_EMPTY = 500"
| "error_number SERVER_READBUFFER_FULL = 501"
| "error_number SERVER_WRIEBUFFER_EMPTY = 502"
| "error_number SERVER_WRIEBUFFER_FULL = 503"
| "error_number SERVER_REQ_PARSER_FAILED = 504"
| "error_number SERVER_PROCESS_FAILED = 505"
| "error_number SERVER_RES_SERIA_FAILED = 506"
| "error_number CLIENT_CONNECT_OK = 1000"
| "error_number CLIENT_CONNECT_FAIL = 1001"
| "error_number CLIENT_CONNECT_IPROCESS = 1002"
| "error_number CLIENT_CANCEL_BY_ERROR = 1003"
| "error_number CLIENT_CANCEL_BY_CLOSE = 1004"
| "error_number CLIENT_SEQ_NOT_MATCH = 1005"
| "error_number CLIENT_RECV_TIMEOUT = 1006"
| "error_number CLIENT_SEND_TIMEOUT = 1007"

definition ErrorString :: "int \<Rightarrow> string" where
  "ErrorString error_code =
    (if error_code = error_number OK then ''OK''
     else if error_code = error_number HTTP_PARSER_FAIL then ''HTTP_PARSER_FAIL''
     else if error_code = error_number HTTP_PASER_HALF then ''HTTP_PASER_HALF''
     else if error_code = error_number HTTP_PASER_FINISH then ''HTTP_PASER_FINISH''
     else if error_code = error_number HTTP_REQ_OVERSIZE then ''HTTP_REQ_OVERSIZE''
     else if error_code = error_number HTTP_REQ_NOLENGTH then ''HTTP_REQ_NOLENGTH''
     else if error_code = error_number HTTP_REQUEST_OVERFLOW then ''HTTP_REQUEST_OVERFLOW''
     else if error_code = error_number SERVER_READBUFFER_EMPTY then ''SERVER_READBUFFER_EMPTY''
     else if error_code = error_number SERVER_READBUFFER_FULL then ''SERVER_READBUFFER_FULL''
     else if error_code = error_number SERVER_WRIEBUFFER_EMPTY then ''SERVER_WRIEBUFFER_EMPTY''
     else if error_code = error_number SERVER_WRIEBUFFER_FULL then ''SERVER_WRIEBUFFER_FULL''
     else if error_code = error_number SERVER_REQ_PARSER_FAILED then ''SERVER_REQ_PARSER_FAILED''
     else if error_code = error_number SERVER_PROCESS_FAILED then ''SERVER_PROCESS_FAILED''
     else if error_code = error_number SERVER_RES_SERIA_FAILED then ''SERVER_RES_SERIA_FAILED''
     else if error_code = error_number CLIENT_CONNECT_OK then ''CLIENT_CONNECT_OK''
     else if error_code = error_number CLIENT_CONNECT_FAIL then ''CLIENT_CONNECT_FAIL''
     else if error_code = error_number CLIENT_CONNECT_IPROCESS then ''CLIENT_CONNECT_IPROCESS''
     else if error_code = error_number CLIENT_CANCEL_BY_CLOSE then ''CLIENT_CANCEL_BY_CLOSE''
     else if error_code = error_number CLIENT_CANCEL_BY_ERROR then ''CLIENT_CANCEL_BY_ERROR''
     else if error_code = error_number CLIENT_SEQ_NOT_MATCH then ''CLIENT_SEQ_NOT_MATCH''
     else if error_code = error_number CLIENT_RECV_TIMEOUT then ''CLIENT_RECV_TIMEOUT''
     else if error_code = error_number CLIENT_SEND_TIMEOUT then ''CLIENT_SEND_TIMEOUT''
     else ''ERROR_UNDEFINED'')"

lemma error_number_inj: "error_number a = error_number b \<longleftrightarrow> a = b"
  by (cases a; cases b) simp_all

text \<open>Exactly the two \<open>NOTFOUND\<close> codes have no name of their own.\<close>

lemma ErrorString_undefined:
  "ErrorString (error_number c) = ''ERROR_UNDEFINED'' \<longleftrightarrow>
    c = HTTP_SERVER_NOTFOUND \<or> c = HTTP_METHOD_NOTFOUND"
  by (cases c) (simp_all add: ErrorString_def)

lemma ErrorString_inj:
  "ErrorString (error_number a) = ErrorString (error_number b) \<Longrightarrow>
   ErrorString (error_number a) \<noteq> ''ERROR_UNDEFINED'' \<Longrightarrow> a = b"
  by (cases a; cases b) (simp_all add: ErrorString_def)

end
