(* ===== verification/Http_Header.thy ===== *)
theory Http_Header
  imports Buffer Error_Code
begin

text \<open>
  \<open>http/rpc_http_header.h\<close> and \<open>http/rpc_http_header.cpp\<close>: the headers of requests and
  responses, the two incremental parsers and the two serialisers. \<open>TRACE\<close> and \<open>WARN\<close> only
  log. The token buffer \<open>buf\<close> has 256 bytes; an access outside of it is \<open>Fault\<close>.
\<close>

section \<open>Data\<close>

definition MAX_KEY_LEN :: nat where
  "MAX_KEY_LEN = 256"

definition MAX_METHOD_LEN :: nat where
  "MAX_METHOD_LEN = 8"

datatype http_state =
    START | END
  | REQ_PATH | REQ_VESION_R | REQ_VESION_N | REQ_KEY | REQ_VALUE_R | REQ_VALUE_N | REQ_END_R
  | RES_STATUS | RES_STATUS_MESSAGE_R | RES_STATUS_MESSAGE_N
  | RES_KEY | RES_VALUE_R | RES_VALUE_N | RES_END_R

record http_header =
  h_headers :: "(string, string) smap"
  h_version :: string
  h_state :: http_state
  h_buf :: "char list"
  h_pos :: nat          \<comment> \<open>\<open>pos - buf\<close>\<close>
  h_bodyStart :: iter
  h_body_size :: int

record http_request = http_header +
  rq_method :: string
  rq_path :: string

record http_response = http_header +
  rs_status :: "32 word"
  rs_status_msg :: string

definition HttpHeader_Reset :: "'a http_header_scheme \<Rightarrow> 'a http_header_scheme" where
  "HttpHeader_Reset h =
     h\<lparr>h_headers := [], h_version := ''HTTP/1.1'', h_state := START,
       h_buf := replicate MAX_KEY_LEN NUL, h_pos := 0\<rparr>"

definition HttpRequestHeader_Reset :: "http_request \<Rightarrow> http_request" where
  "HttpRequestHeader_Reset h = (HttpHeader_Reset h)\<lparr>rq_method := ''POST'', rq_path := []\<rparr>"

definition HttpReponseHeader_Reset :: "http_response \<Rightarrow> http_response" where
  "HttpReponseHeader_Reset h = (HttpHeader_Reset h)\<lparr>rs_status := 0, rs_status_msg := []\<rparr>"

text \<open>The constructors: \<open>raw\<close> holds the members they leave as they are.\<close>

definition new_request :: "http_request \<Rightarrow> http_request" where
  "new_request raw = (HttpHeader_Reset raw)\<lparr>rq_method := ''POST'', rq_path := []\<rparr>"

definition new_response :: "http_response \<Rightarrow> http_response" where
  "new_response raw = (HttpHeader_Reset raw)\<lparr>rs_status_msg := []\<rparr>"

section \<open>Fields\<close>

definition SetHeader :: "string \<Rightarrow> string \<Rightarrow> 'a http_header_scheme \<Rightarrow> 'a http_header_scheme" where
  "SetHeader k v h = h\<lparr>h_headers := smap_set k v (h_headers h)\<rparr>"

definition Content_Length_key :: string where
  "Content_Length_key = ''Content-Length''"

definition Seq_key :: string where
  "Seq_key = ''Seq''"

definition SetContentLength :: "32 word \<Rightarrow> 'a http_header_scheme \<Rightarrow> 'a http_header_scheme" where
  "SetContentLength n h = SetHeader Content_Length_key (dec_str (unat n)) h"

definition GetContentLength :: "'a http_header_scheme \<Rightarrow> int" where
  "GetContentLength h =
     (case map_of (h_headers h) Content_Length_key of None \<Rightarrow> 0
      | Some v \<Rightarrow> signed_take_bit 31 (strtol v))"

definition SetSeq :: "64 word \<Rightarrow> 'a http_header_scheme \<Rightarrow> 'a http_header_scheme" where
  "SetSeq s h = SetHeader Seq_key (dec_str (unat s)) h"

definition GetSeq :: "'a http_header_scheme \<Rightarrow> 64 word" where
  "GetSeq h = (case map_of (h_headers h) Seq_key of None \<Rightarrow> - 1 | Some v \<Rightarrow> strtoull v)"

definition SetPath :: "string \<Rightarrow> http_request \<Rightarrow> http_request" where
  "SetPath p h = h\<lparr>rq_path := p\<rparr>"

definition SetStatus :: "32 word \<Rightarrow> string \<Rightarrow> http_response \<Rightarrow> http_response" where
  "SetStatus s m h = h\<lparr>rs_status := s, rs_status_msg := m\<rparr>"

definition GetPendSize :: "'a http_header_scheme \<Rightarrow> nat" where
  "GetPendSize h = h_pos h"

definition isParsed :: "'a http_header_scheme \<Rightarrow> bool" where
  "isParsed h \<longleftrightarrow> h_state h = END"

section \<open>The token buffer\<close>

text \<open>\<open>*pos++ = c\<close>.\<close>

definition put_char :: "char \<Rightarrow> 'a http_header_scheme \<Rightarrow> 'a http_header_scheme outcome" where
  "put_char c h =
     (if h_pos h < length (h_buf h)
      then Done (h\<lparr>h_buf := (h_buf h)[h_pos h := c], h_pos := Suc (h_pos h)\<rparr>) else Fault)"

definition isMethodFound :: "char \<Rightarrow> 'a http_header_scheme \<Rightarrow> (bool \<times> 'a http_header_scheme) outcome" where
  "isMethodFound c h =
     bind_outcome (put_char c h) (\<lambda>h.
       let sz = h_pos h;
           h = (if MAX_KEY_LEN \<le> sz
                then h\<lparr>h_buf := take MAX_METHOD_LEN (drop (sz - MAX_METHOD_LEN) (h_buf h))
                                  @ drop MAX_METHOD_LEN (h_buf h),
                       h_pos := MAX_METHOD_LEN\<rparr> else h);
           tail_is = (\<lambda>m. length m \<le> sz
                \<and> take (length m) (drop (h_pos h - length m) (h_buf h)) = m)
       in if tail_is ''GET '' \<or> tail_is ''POST '' then Done (True, h\<lparr>h_pos := 0\<rparr>)
          else Done (False, h))"

text \<open>
  Both \<open>MoveBufTo\<close> first skip spaces, then run to a zero byte; without one they run out of
  the array.
\<close>

definition buf_token :: "char list \<Rightarrow> nat \<times> string" where
  "buf_token b =
     (let n = length (takeWhile (\<lambda>c. c = SP) b) in (n, c_str (drop n b)))"

definition MoveBufTo :: "string \<Rightarrow> 'a http_header_scheme \<Rightarrow> (string \<times> 'a http_header_scheme) outcome" where
  "MoveBufTo s h =
     (let (n, w) = buf_token (h_buf h) in
      if n + length w < length (h_buf h)
      then Done (s @ w,
        h\<lparr>h_buf := take n (h_buf h) @ replicate (length w) NUL @ drop (n + length w) (h_buf h),
          h_pos := 0\<rparr>)
      else Fault)"

text \<open>\<open>sscanf\<close> with \<open>%u\<close> converts like \<open>strtoul\<close> and keeps the low 32 bits; with no digit it
  leaves the variable.\<close>

definition scan_u :: "string \<Rightarrow> 32 word \<Rightarrow> 32 word" where
  "scan_u t s = (case c_number t of None \<Rightarrow> s | Some _ \<Rightarrow> ucast (strtoull t))"

definition MoveBufTo_u :: "32 word \<Rightarrow> 'a http_header_scheme \<Rightarrow> (32 word \<times> 'a http_header_scheme) outcome" where
  "MoveBufTo_u s h =
     (let (n, w) = buf_token (h_buf h); m = length (c_str (h_buf h)) in
      if n + length w < length (h_buf h)
      then Done (scan_u w s, h\<lparr>h_buf := replicate m NUL @ drop m (h_buf h), h_pos := 0\<rparr>)
      else Fault)"

section \<open>The parsers\<close>

text \<open>
  One turn of the loop of \<open>ParserHeader\<close>: on \<open>Next\<close> the loop goes on, on \<open>Stop\<close> the function
  returns \<open>HTTP_PARSER_FAIL\<close>. The state is the header and the local strings \<open>key\<close> and
  \<open>value\<close>; \<open>i\<close> is the iterator \<open>begin\<close>.
\<close>

datatype 'h turn = Next "'h \<times> string \<times> string" | Stop "'h \<times> string \<times> string"

definition with_outcome :: "'x outcome \<Rightarrow> ('x \<Rightarrow> 'h turn) \<Rightarrow> 'h turn outcome" where
  "with_outcome m f = bind_outcome m (\<lambda>x. Done (f x))"

definition req_turn :: "iter \<Rightarrow> char \<Rightarrow> http_request \<times> string \<times> string \<Rightarrow> http_request turn outcome" where
  "req_turn i c s =
     (let (h, key, value) = s;
          store = with_outcome (put_char c h) (\<lambda>h. Next (h, key, value));
          expect = (\<lambda>d h'. Done (if c = d then Next (h', key, value) else Stop s))
      in if MAX_KEY_LEN \<le> GetPendSize h then Done (Stop s)
      else case h_state h of
        START \<Rightarrow> bind_outcome (isMethodFound c h) (\<lambda>(found, h).
          if found then with_outcome (MoveBufTo [] h)
            (\<lambda>(t, h). Next (h\<lparr>rq_method := t, h_state := REQ_PATH\<rparr>, key, value))
          else Done (Next (h, key, value)))
      | REQ_PATH \<Rightarrow>
          if c = SP then with_outcome (MoveBufTo (rq_path h) h)
            (\<lambda>(t, h). if t = [] then Stop (h\<lparr>rq_path := t\<rparr>, key, value)
               else Next (h\<lparr>rq_path := t, h_state := REQ_VESION_R\<rparr>, key, value))
          else store
      | REQ_VESION_R \<Rightarrow>
          if c = CR then with_outcome (MoveBufTo [] h)
            (\<lambda>(t, h). Next (h\<lparr>h_version := t, h_state := REQ_VESION_N\<rparr>, key, value))
          else store
      | REQ_VESION_N \<Rightarrow> expect LF (h\<lparr>h_state := REQ_KEY\<rparr>)
      | REQ_KEY \<Rightarrow>
          if c = CHR '':'' then with_outcome (MoveBufTo key h)
            (\<lambda>(t, h). if t = [] then Stop (h, t, value)
               else Next (h\<lparr>h_state := REQ_VALUE_R\<rparr>, t, value))
          else if c = CR then Done (Next (h\<lparr>h_state := REQ_END_R\<rparr>, key, value))
          else store
      | REQ_VALUE_R \<Rightarrow>
          if c = CR then with_outcome (MoveBufTo value h)
            (\<lambda>(t, h). Next ((SetHeader key t h)\<lparr>h_state := REQ_VALUE_N\<rparr>, [], []))
          else store
      | REQ_VALUE_N \<Rightarrow> expect LF (h\<lparr>h_state := REQ_KEY\<rparr>)
      | REQ_END_R \<Rightarrow> expect LF (h\<lparr>h_state := END, h_bodyStart := i\<rparr>)
      | _ \<Rightarrow> Done (Next s))"

definition res_turn :: "iter \<Rightarrow> char \<Rightarrow> http_response \<times> string \<times> string \<Rightarrow> http_response turn outcome" where
  "res_turn i c s =
     (let (h, key, value) = s;
          store = with_outcome (put_char c h) (\<lambda>h. Next (h, key, value));
          expect = (\<lambda>d h'. Done (if c = d then Next (h', key, value) else Stop s))
      in case h_state h of
        START \<Rightarrow>
          if c = SP then with_outcome (MoveBufTo key h)
            (\<lambda>(t, h). Next (h\<lparr>h_state := RES_STATUS\<rparr>, [], value))
          else store
      | RES_STATUS \<Rightarrow>
          if c = SP then with_outcome (MoveBufTo_u (rs_status h) h)
            (\<lambda>(n, h). Next (h\<lparr>rs_status := n, h_state := RES_STATUS_MESSAGE_R\<rparr>, key, value))
          else store
      | RES_STATUS_MESSAGE_R \<Rightarrow>
          if c = CR then with_outcome (MoveBufTo (rs_status_msg h) h)
            (\<lambda>(t, h). Next (h\<lparr>rs_status_msg := t, h_state := RES_STATUS_MESSAGE_N\<rparr>, key, value))
          else store
      | RES_STATUS_MESSAGE_N \<Rightarrow> expect LF (h\<lparr>h_state := RES_KEY\<rparr>)
      | RES_KEY \<Rightarrow>
          if c = CHR '':'' then with_outcome (MoveBufTo key h)
            (\<lambda>(t, h). Next (h\<lparr>h_state := RES_VALUE_R\<rparr>, t, value))
          else if c = CR then Done (Next (h\<lparr>h_state := RES_END_R\<rparr>, key, value))
          else store
      | RES_VALUE_R \<Rightarrow>
          if c = CR then with_outcome (MoveBufTo value h)
            (\<lambda>(t, h). Next ((SetHeader key t h)\<lparr>h_state := RES_VALUE_N\<rparr>, [], []))
          else store
      | RES_VALUE_N \<Rightarrow> expect LF (h\<lparr>h_state := RES_KEY\<rparr>)
      | RES_END_R \<Rightarrow> expect LF (h\<lparr>h_state := END, h_bodyStart := i\<rparr>)
      | _ \<Rightarrow> Done (Next s))"

text \<open>
  The loop of a parser with the body \<open>f\<close>. Its result is the header with the locals, whether it left
  by \<open>return\<close>, and \<open>begin\<close>; \<open>None\<close> is a loop that does not end. The two parsers have a loop each.
\<close>

partial_function (option) parse_loop ::
  "(iter \<Rightarrow> char \<Rightarrow> 'a http_header_scheme \<times> string \<times> string \<Rightarrow> 'a http_header_scheme turn outcome) \<Rightarrow>
   piece list \<Rightarrow> iter \<Rightarrow> iter \<Rightarrow> 'a http_header_scheme \<times> string \<times> string \<Rightarrow>
   (('a http_header_scheme \<times> string \<times> string) \<times> bool \<times> iter) outcome option" where
  "parse_loop f q b e s =
     (if b = e \<or> isParsed (fst s) then Some (Done (s, False, b))
      else case f b (it_deref q b) s of
        Fault \<Rightarrow> Some Fault
      | Done (Stop s') \<Rightarrow> Some (Done (s', True, b))
      | Done (Next s') \<Rightarrow> parse_loop f q (it_inc q b) e s')"

definition request_loop ::
  "piece list \<Rightarrow> iter \<Rightarrow> iter \<Rightarrow> http_request \<times> string \<times> string \<Rightarrow>
   ((http_request \<times> string \<times> string) \<times> bool \<times> iter) outcome option" where
  "request_loop q b e s = parse_loop req_turn q b e s"

definition response_loop ::
  "piece list \<Rightarrow> iter \<Rightarrow> iter \<Rightarrow> http_response \<times> string \<times> string \<Rightarrow>
   ((http_response \<times> string \<times> string) \<times> bool \<times> iter) outcome option" where
  "response_loop q b e s = parse_loop res_turn q b e s"

definition parse_result :: "http_state \<Rightarrow> bool \<Rightarrow> ErrorCode" where
  "parse_result st failed =
     (if failed then HTTP_PARSER_FAIL else if st = END then HTTP_PASER_FINISH else HTTP_PASER_HALF)"

definition HttpRequest_ParserHeader ::
  "http_request \<Rightarrow> 'b iobuf_scheme \<Rightarrow> (ErrorCode \<times> http_request \<times> 'b iobuf_scheme) outcome option" where
  "HttpRequest_ParserHeader h b =
     map_option (\<lambda>r. bind_outcome r (\<lambda>((h, _), failed, p).
         Done (parse_result (h_state h) failed, h, b\<lparr>readpos := p\<rparr>)))
       (request_loop (que b) (readpos b) (writepos b) (h, [], []))"

definition HttpReponse_ParserHeader ::
  "http_response \<Rightarrow> 'b iobuf_scheme \<Rightarrow> (ErrorCode \<times> http_response \<times> 'b iobuf_scheme) outcome option" where
  "HttpReponse_ParserHeader h b =
     map_option (\<lambda>r. bind_outcome r (\<lambda>((h, _), failed, p).
         Done (parse_result (h_state h) failed, h, b\<lparr>readpos := p\<rparr>)))
       (response_loop (que b) (readpos b) (writepos b) (h, [], []))"

section \<open>The serialisers\<close>

text \<open>
  \<open>snprintf(bufptr, size, ...)\<close> of an expanded text: the \<open>int\<close> \<open>size\<close> becomes a \<open>size_t\<close>;
  at most \<open>size - 1\<close> bytes and a zero byte are written.
\<close>

definition snprintf :: "char list \<Rightarrow> nat \<Rightarrow> int \<Rightarrow> string \<Rightarrow> char list outcome" where
  "snprintf b p n t =
     (let lim = nat (n mod 2 ^ 64); w = take (lim - 1) t in
      if lim = 0 then Done b
      else if p + length w < length b
      then Done (take p b @ w @ [NUL] @ drop (p + length w + 1) b) else Fault)"

text \<open>
  The chain of \<open>snprintf\<close> calls with \<open>if(size <= 0) return -1\<close> behind each: the array, the
  offset of \<open>bufptr\<close>, and whether all were written.
\<close>

fun emit :: "string list \<Rightarrow> char list \<Rightarrow> nat \<Rightarrow> int \<Rightarrow> (char list \<times> nat \<times> bool) outcome" where
  "emit [] b p n = Done (b, p, True)"
| "emit (t # ts) b p n =
     bind_outcome (snprintf b p n t) (\<lambda>b'.
       let n' = n - int (length t) in
       if n' \<le> 0 then Done (b', p + length t, False) else emit ts b' (p + length t) n')"

definition serialize_at :: "string list \<Rightarrow> piece list \<Rightarrow> iter \<Rightarrow> (int \<times> piece list) outcome" where
  "serialize_at ts q it =
     (let i = it_idx it; p = it_pos it in
      bind_outcome (emit ts (pbuf (q ! i)) p (int (psz q i) - int p)) (\<lambda>(b, e, ok).
        if ok then Done (0, q[i := \<lparr>pbuf = b, psize = e - p + p\<rparr>])
        else Done (- 1, q[i := (q ! i)\<lparr>pbuf := b\<rparr>])))"

definition header_lines :: "(string, string) smap \<Rightarrow> string list" where
  "header_lines m = map (\<lambda>(k, v). c_str k @ '': '' @ c_str v @ [SP] @ CRLF) m @ [CRLF]"

definition HttpRequest_lines :: "http_request \<Rightarrow> string list" where
  "HttpRequest_lines h =
     (c_str (rq_method h) @ [SP] @ c_str (rq_path h) @ [SP] @ c_str (h_version h) @ CRLF)
     # header_lines (h_headers h)"

definition HttpReponse_lines :: "http_response \<Rightarrow> string list" where
  "HttpReponse_lines h =
     (c_str (h_version h) @ [SP] @ dec_str (unat (rs_status h)) @ [SP] @ c_str (rs_status_msg h) @ CRLF)
     # header_lines (h_headers h)"

definition HttpRequest_SerializeHeader :: "http_request \<Rightarrow> piece list \<Rightarrow> iter \<Rightarrow> (int \<times> piece list) outcome" where
  "HttpRequest_SerializeHeader h q it = serialize_at (HttpRequest_lines h) q it"

definition HttpReponse_SerializeHeader :: "http_response \<Rightarrow> piece list \<Rightarrow> iter \<Rightarrow> (int \<times> piece list) outcome" where
  "HttpReponse_SerializeHeader h q it = serialize_at (HttpReponse_lines h) q it"

definition HttpReponse_toString :: "nat \<Rightarrow> http_response \<Rightarrow> string outcome" where
  "HttpReponse_toString dbs h =
     bind_outcome (HttpReponse_SerializeHeader h [new_piece dbs] (mk_it 0 0)) (\<lambda>(_, q).
       let b = pbuf (q ! 0) in
       if length (c_str b) < length b then Done (c_str b) else Fault)"

text \<open>
  \<open>SerializeBody\<close> adds the pointer \<open>bufptr\<close> to the \<open>int\<close> \<open>_pos\<close> when it leaves a piece;
  \<open>addr i o\<close> is that pointer, into piece \<open>i\<close> at offset \<open>o\<close>, as an integer.
\<close>

partial_function (option) body_loop ::
  "(nat \<Rightarrow> int \<Rightarrow> int) \<Rightarrow> string \<Rightarrow> piece list \<Rightarrow> nat \<Rightarrow> int \<Rightarrow> (piece list \<times> iter) outcome option" where
  "body_loop addr d q i p =
     (let b = pbuf (q ! i); room = int (psz q i) - p;
          n = (if int (length d) \<le> room then length d else nat room);
          q' = q[i := (q ! i)\<lparr>pbuf := take (nat p) b @ take n d @ drop (nat p + n) b\<rparr>];
          p' = signed_take_bit 31 (p + addr i (p + room)) in
      if d = [] then Some (Done (q, mk_it i 0))
      else if p < 0 \<or> room < 0 \<or> length b < nat p + n then Some Fault
      else if int (length d) \<le> room then Some (Done (q', mk_it i (length d)))
      else if p' + 1 < int (psz q i) then body_loop addr (drop n d) q' i (p' + 1)
      else body_loop addr (drop n d) q' ((i + 1) mod length q) 0)"

definition SerializeBody ::
  "(nat \<Rightarrow> int \<Rightarrow> int) \<Rightarrow> string \<Rightarrow> piece list \<Rightarrow> iter \<Rightarrow> (piece list \<times> iter) outcome option" where
  "SerializeBody addr d q it = body_loop addr d q (it_idx it) (int (it_pos it))"

section \<open>The parsers as functions of the bytes received\<close>

fun walk :: "piece list \<Rightarrow> iter \<Rightarrow> nat \<Rightarrow> iter list" where
  "walk q b 0 = []"
| "walk q b (Suc n) = b # walk q (it_inc q b) n"

fun run :: "(iter \<Rightarrow> char \<Rightarrow> 's \<times> string \<times> string \<Rightarrow> 's turn outcome) \<Rightarrow> ('s \<Rightarrow> bool) \<Rightarrow>
    (iter \<times> char) list \<Rightarrow> 's \<times> string \<times> string \<Rightarrow> (('s \<times> string \<times> string) \<times> bool \<times> nat) outcome" where
  "run f fin [] s = Done (s, False, 0)"
| "run f fin ((i, c) # cs) s =
     (if fin (fst s) then Done (s, False, 0)
      else case f i c s of
        Fault \<Rightarrow> Fault
      | Done (Stop s') \<Rightarrow> Done (s', True, 0)
      | Done (Next s') \<Rightarrow> bind_outcome (run f fin cs s') (\<lambda>(s, e, n). Done (s, e, Suc n)))"

lemma length_walk [simp]: "length (walk q b n) = n"
  by (induction n arbitrary: b) auto

lemma walk_nth: "k < n \<Longrightarrow> walk q b n ! k = (it_inc q ^^ k) b"
  by (induction n arbitrary: b k) (auto simp: nth_Cons funpow_swap1 split: nat.splits)

lemma it_inc_pow:
  assumes "wf_que q" "wf_it q b"
  shows "wf_it q ((it_inc q ^^ k) b)" "lin q ((it_inc q ^^ k) b) = (lin q b + k) mod total q"
proof (induction k)
  case 0
  { case 1 then show ?case using assms by simp }
  { case 2 then show ?case using lin_less [OF assms(2)] by simp }
next
  case (Suc k)
  { case 1 then show ?case using Suc it_inc_wf [OF assms(1)] by simp }
  { case 2 then show ?case using lin_it_inc [OF assms(1) Suc(1)] Suc(2) by (simp add: mod_Suc_eq) }
qed

lemma walk_content:
  assumes "wf_buf b"
  shows "map (it_deref (que b)) (walk (que b) (readpos b) (length (content b))) = content b"
proof (rule nth_equalityI)
  fix k assume "k < length (map (it_deref (que b)) (walk (que b) (readpos b) (length (content b))))"
  then have k: "k < length (content b)" by simp
  note w = assms [unfolded wf_buf_def]
  have "it_deref (que b) ((it_inc (que b) ^^ k) (readpos b)) =
      flat (que b) ! ((lin (que b) (readpos b) + k) mod total (que b))"
    using w it_inc_pow by (simp add: it_deref_flat)
  also have "\<dots> = content b ! k"
    using k w length_content [OF assms]
      cslice_nth [of "lin (que b) (readpos b)" "flat (que b)" "lin (que b) (writepos b)" k]
    by (simp add: content_def length_flat lin_less)
  finally show "map (it_deref (que b)) (walk (que b) (readpos b) (length (content b))) ! k = content b ! k"
    using k by (simp add: walk_nth)
qed simp

lemma it_inc_reach:
  assumes "wf_que q" "wf_it q b" "wf_it q e"
  shows "(it_inc q ^^ cdist (total q) (lin q b) (lin q e)) b = e"
proof -
  have "cdist (total q) (lin q b) (lin q e) = (lin q e + total q - lin q b) mod total q"
    using cdist_mod lin_less assms by blast
  then have "lin q ((it_inc q ^^ cdist (total q) (lin q b) (lin q e)) b) = lin q e"
    using assms lin_less [OF assms(2)] lin_less [OF assms(3)]
    by (simp add: it_inc_pow mod_add_right_eq)
  then show ?thesis using it_inc_pow(1) [OF assms(1,2)] assms(3) lin_inj by blast
qed

lemma it_inc_step:
  assumes "wf_que q" "wf_it q b" "wf_it q e" "b \<noteq> e"
  shows "cdist (total q) (lin q b) (lin q e) = Suc (cdist (total q) (lin q (it_inc q b)) (lin q e))"
  using assms lin_less [of q b] lin_less [of q e] lin_inj [of q b e]
  by (auto simp: lin_it_inc cdist_def mod_Suc)

definition cells :: "piece list \<Rightarrow> iter \<Rightarrow> nat \<Rightarrow> (iter \<times> char) list" where
  "cells q b n = map (\<lambda>i. (i, it_deref q i)) (walk q b n)"

lemma cells_simps [simp]:
  "cells q b 0 = []"
  "cells q b (Suc n) = (b, it_deref q b) # cells q (it_inc q b) n"
  "length (cells q b n) = n"
  by (auto simp: cells_def)

theorem parse_loop_run:
  assumes "wf_que q" "wf_it q b" "wf_it q e"
  shows "parse_loop f q b e s = Some (bind_outcome
      (run f isParsed (cells q b (cdist (total q) (lin q b) (lin q e))) s)
      (\<lambda>(s', failed, n). Done (s', failed, (it_inc q ^^ n) b)))"
  using assms
proof (induction "cdist (total q) (lin q b) (lin q e)" arbitrary: b s)
  case 0
  then have "b = e" using cdist_0_iff lin_inj lin_less by metis
  then show ?case by (simp add: parse_loop.simps)
next
  case (Suc d)
  then have ne: "b \<noteq> e" by auto
  note st = it_inc_step [OF Suc.prems ne]
  have IH: "parse_loop f q (it_inc q b) e s' = Some (bind_outcome
      (run f isParsed (cells q (it_inc q b) (cdist (total q) (lin q (it_inc q b)) (lin q e))) s')
      (\<lambda>(s', failed, n). Done (s', failed, (it_inc q ^^ n) (it_inc q b))))" for s'
    by (rule Suc.hyps(1)) (use Suc st it_inc_wf in auto)
  show ?case
  proof (cases "isParsed (fst s)")
    case True
    then show ?thesis by (simp add: parse_loop.simps st)
  next
    case False
    show ?thesis
    proof (cases "f b (it_deref q b) s")
      case Fault
      then show ?thesis using False ne by (simp add: parse_loop.simps st)
    next
      case (Done t)
      show ?thesis
      proof (cases t)
        case (Stop s')
        then show ?thesis using Done False ne by (simp add: parse_loop.simps st)
      next
        case (Next s')
        then have "parse_loop f q b e s = parse_loop f q (it_inc q b) e s'"
          using Done False ne by (subst parse_loop.simps) simp
        also note IH
        finally show ?thesis
          using Done Next False by (simp add: st bind_outcome_assoc funpow_swap1 case_prod_unfold)
      qed
    qed
  qed
qed

lemma run_append:
  "run f fin (xs @ ys) s = bind_outcome (run f fin xs s) (\<lambda>(s', failed, n).
     if failed then Done (s', failed, n)
     else bind_outcome (run f fin ys s') (\<lambda>(s'', failed, m). Done (s'', failed, n + m)))"
proof (induction xs arbitrary: s)
  case Nil
  have "bind_outcome m (\<lambda>(s, failed, n). Done (s, failed, n)) = m" for m :: "(('a \<times> string \<times> string) \<times> bool \<times> nat) outcome"
    by (cases m) auto
  then show ?case by simp
next
  case (Cons x xs)
  obtain i c where x: "x = (i, c)" by (cases x)
  show ?case
  proof (cases "fin (fst s)")
    case True
    then have "run f fin ys s = Done (s, False, 0)" by (cases ys) auto
    then show ?thesis using True x by simp
  next
    case False
    then show ?thesis
      by (auto simp: x Cons.IH case_prod_unfold split: outcome.splits turn.splits
          intro!: arg_cong2 [where f = bind_outcome])
  qed
qed

lemma run_length: "run f fin xs s = Done (s', failed, n) \<Longrightarrow>
    n \<le> length xs \<and> (\<not> failed \<and> \<not> fin (fst s') \<longrightarrow> n = length xs)"
proof (induction xs arbitrary: s n)
  case (Cons x xs)
  then show ?case
    by (cases x) (auto split: if_splits outcome.splits turn.splits simp: bind_outcome_Done_iff)
qed auto

text \<open>
  A turn that keeps an invariant and does not fault on it; \<open>run\<close> then does the same.
\<close>

lemma run_invariant:
  assumes "I s"
    and "\<And>i c s. (i, c) \<in> set xs \<Longrightarrow> I s \<Longrightarrow> \<not> fin (fst s) \<Longrightarrow>
      (\<exists>s'. I s' \<and> (f i c s = Done (Next s') \<or> f i c s = Done (Stop s')))"
  shows "\<exists>s' failed n. run f fin xs s = Done (s', failed, n) \<and> I s'"
  using assms
proof (induction xs arbitrary: s)
  case (Cons x xs)
  obtain i c where x: "x = (i, c)" by (cases x)
  show ?case
  proof (cases "fin (fst s)")
    case False
    then obtain s' where s': "I s'" "f i c s = Done (Next s') \<or> f i c s = Done (Stop s')"
      using Cons.prems(2) [of i c s] Cons.prems(1) x by auto
    have "\<exists>s'' failed n. run f fin xs s' = Done (s'', failed, n) \<and> I s''"
      by (rule Cons.IH) (use s' Cons.prems(2) in auto)
    then show ?thesis using s' False x by (cases s') (auto intro: exI [of _ True])
  qed (use Cons.prems x in auto)
qed auto

text \<open>\<open>ParserHeader\<close> on the bytes of the buffer.\<close>

definition parse_bytes ::
  "(iter \<Rightarrow> char \<Rightarrow> 'a http_header_scheme \<times> string \<times> string \<Rightarrow> 'a http_header_scheme turn outcome) \<Rightarrow>
   (iter \<times> char) list \<Rightarrow> 'a http_header_scheme \<Rightarrow> (ErrorCode \<times> 'a http_header_scheme \<times> nat) outcome" where
  "parse_bytes f xs h =
     bind_outcome (run f isParsed xs (h, [], [])) (\<lambda>((h, _), failed, n).
       Done (parse_result (h_state h) failed, h, n))"

definition buffer_cells :: "'b iobuf_scheme \<Rightarrow> (iter \<times> char) list" where
  "buffer_cells b = cells (que b) (readpos b) (length (content b))"

definition read_n :: "'b iobuf_scheme \<Rightarrow> nat \<Rightarrow> 'b iobuf_scheme" where
  "read_n b n = b\<lparr>readpos := (it_inc (que b) ^^ n) (readpos b)\<rparr>"

lemma buffer_cells_snd: "wf_buf b \<Longrightarrow> map snd (buffer_cells b) = content b"
  using walk_content [of b] by (simp add: buffer_cells_def cells_def comp_def)

theorem request_parser_bytes:
  assumes "wf_buf b"
  shows "HttpRequest_ParserHeader h b = Some (bind_outcome (parse_bytes req_turn (buffer_cells b) h)
    (\<lambda>(code, h', n). Done (code, h', read_n b n)))"
  using assms parse_loop_run [of "que b" "readpos b" "writepos b" req_turn "(h, [], [])"]
  by (simp add: HttpRequest_ParserHeader_def request_loop_def wf_buf_def parse_bytes_def buffer_cells_def read_n_def
      length_content [OF assms] case_prod_unfold)

theorem response_parser_bytes:
  assumes "wf_buf b"
  shows "HttpReponse_ParserHeader h b = Some (bind_outcome (parse_bytes res_turn (buffer_cells b) h)
    (\<lambda>(code, h', n). Done (code, h', read_n b n)))"
  using assms parse_loop_run [of "que b" "readpos b" "writepos b" res_turn "(h, [], [])"]
  by (simp add: HttpReponse_ParserHeader_def response_loop_def wf_buf_def parse_bytes_def buffer_cells_def read_n_def
      length_content [OF assms] case_prod_unfold)

lemma read_n_content:
  assumes "wf_buf b" "n \<le> length (content b)"
  shows "wf_buf (read_n b n)" "content (read_n b n) = drop n (content b)"
proof -
  note w = assms(1) [unfolded wf_buf_def]
  show "wf_buf (read_n b n)" using w it_inc_pow(1) by (simp add: read_n_def wf_buf_def)
  show "content (read_n b n) = drop n (content b)"
    using w it_inc_pow(2) [of "que b" "readpos b" n] assms(2) length_content [OF assms(1)]
      cslice_drop [of "lin (que b) (readpos b)" "flat (que b)" "lin (que b) (writepos b)" n]
    by (simp add: read_n_def content_def length_flat lin_less)
qed

lemma parse_bytes_length:
  "parse_bytes f xs h = Done (code, h', n) \<Longrightarrow> n \<le> length xs \<and> (code = HTTP_PASER_HALF \<longrightarrow> n = length xs)
    \<and> (code = HTTP_PASER_FINISH \<longrightarrow> h_state h' = END) \<and> code \<in> {HTTP_PARSER_FAIL, HTTP_PASER_FINISH, HTTP_PASER_HALF}"
  using run_length [of f isParsed xs "(h, [], [])"]
  by (fastforce simp: parse_bytes_def bind_outcome_Done_iff parse_result_def isParsed_def split: if_splits)

text \<open>What the two parsers do to the buffer.\<close>

lemma parser_frame:
  assumes wf: "wf_buf b"
    and P: "P = bind_outcome (parse_bytes f (buffer_cells b) h) (\<lambda>(code, h', n). Done (code, h', read_n b n))"
    and D: "P = Done (code, h', b')"
  shows "wf_buf b' \<and> que b' = que b \<and> writepos b' = writepos b
    \<and> (\<exists>used. content b = used @ content b')
    \<and> (code = HTTP_PASER_HALF \<longrightarrow> isEmpty b') \<and> (code = HTTP_PASER_FINISH \<longrightarrow> isParsed h')"
proof -
  obtain n where n: "parse_bytes f (buffer_cells b) h = Done (code, h', n)" "b' = read_n b n"
    using D [unfolded P bind_outcome_Done_iff] by auto
  have len: "length (buffer_cells b) = length (content b)" by (simp add: buffer_cells_def)
  note L = parse_bytes_length [OF n(1), unfolded len]
  then have c: "wf_buf b'" "content b' = drop n (content b)"
    using read_n_content [OF wf, of n] n(2) by auto
  then have "content b = take n (content b) @ content b'" by simp
  moreover have "code = HTTP_PASER_HALF \<longrightarrow> isEmpty b'"
    using L c content_Nil_iff [OF c(1)] by (auto simp: isEmpty_def)
  ultimately show ?thesis
    using c(1) n(2) L by (auto simp: read_n_def isParsed_def)
qed

subsection \<open>Requests that arrive in several pieces\<close>

definition locals_ok :: "http_request \<times> string \<times> string \<Rightarrow> bool" where
  "locals_ok s \<longleftrightarrow> (case s of (h, k, v) \<Rightarrow> v = [] \<and> (h_state h \<noteq> REQ_VALUE_R \<longrightarrow> k = []))"

lemma bind_outcome_cong_Done: "m = Done x \<Longrightarrow> bind_outcome m f = f x"
  by simp

lemma put_char_state: "put_char c h = Done h' \<Longrightarrow> h_state h' = h_state h"
  by (auto simp: put_char_def split: if_splits)

lemma MoveBufTo_state: "MoveBufTo s h = Done (t, h') \<Longrightarrow> h_state h' = h_state h"
  by (auto simp: MoveBufTo_def split: if_splits prod.splits)

lemma isMethodFound_state: "isMethodFound c h = Done (r, h') \<Longrightarrow> h_state h' = h_state h"
  by (auto simp: isMethodFound_def Let_def bind_outcome_Done_iff dest: put_char_state split: if_splits)

lemma req_turn_locals:
  assumes "locals_ok s" "req_turn i c s = Done (Next s')"
  shows "locals_ok s'"
  using assms
  by (cases s; cases "h_state (fst s)")
    (auto simp: req_turn_def locals_ok_def with_outcome_def bind_outcome_Done_iff SetHeader_def Let_def
      dest: put_char_state MoveBufTo_state isMethodFound_state split: if_splits)

lemma run_locals:
  assumes "locals_ok s" "run req_turn isParsed xs s = Done (s', False, n)"
  shows "locals_ok s'"
  using assms
  by (induction xs arbitrary: s n)
    (auto split: if_splits outcome.splits turn.splits simp: bind_outcome_Done_iff, blast intro: req_turn_locals)

theorem request_in_two_parts:
  assumes first: "parse_bytes req_turn xs h = Done (HTTP_PASER_HALF, h1, n)"
    and states: "h_state h \<noteq> REQ_VALUE_R" "h_state h1 \<noteq> REQ_VALUE_R"
  shows "parse_bytes req_turn (xs @ ys) h =
    bind_outcome (parse_bytes req_turn ys h1) (\<lambda>(code, h2, m). Done (code, h2, length xs + m))"
proof -
  obtain k v where r: "run req_turn isParsed xs (h, [], []) = Done ((h1, k, v), False, n)"
    using first by (auto simp: parse_bytes_def bind_outcome_Done_iff parse_result_def split: if_splits)
  have "locals_ok (h1, k, v)" using run_locals [OF _ r] by (simp add: locals_ok_def)
  then have "k = []" "v = []" using states by (auto simp: locals_ok_def)
  moreover have "n = length xs" using parse_bytes_length [OF first] by simp
  ultimately show ?thesis by (simp add: parse_bytes_def run_append r case_prod_unfold)
qed

text \<open>A piece border between the colon and the end of a value loses the name of the header.\<close>

theorem request_split_in_value:
  assumes st: "h_state h = REQ_VALUE_R" "h_pos h < MAX_KEY_LEN"
    and mv: "MoveBufTo [] h = Done (t, h1)"
  shows "parse_bytes req_turn ((i, CR) # xs) h =
    bind_outcome (parse_bytes req_turn xs ((SetHeader [] t h1)\<lparr>h_state := REQ_VALUE_N\<rparr>))
      (\<lambda>(code, h2, m). Done (code, h2, Suc m))"
  using st mv
  by (simp add: parse_bytes_def isParsed_def req_turn_def with_outcome_def GetPendSize_def case_prod_unfold)

subsection \<open>No access outside of the token buffer\<close>

definition buf_ok :: "'a http_header_scheme \<Rightarrow> bool" where
  "buf_ok h \<longleftrightarrow> length (h_buf h) = MAX_KEY_LEN \<and> h_pos h \<le> MAX_KEY_LEN
     \<and> (h_pos h < MAX_KEY_LEN \<longrightarrow> h_buf h ! (MAX_KEY_LEN - 1) = NUL)"

lemma buf_ok_Reset [simp]: "buf_ok (HttpHeader_Reset h)"
  by (simp add: buf_ok_def HttpHeader_Reset_def MAX_KEY_LEN_def)

lemma length_takeWhile_le: "k < length xs \<Longrightarrow> \<not> P (xs ! k) \<Longrightarrow> length (takeWhile P xs) \<le> k"
  by (metis linorder_not_le nth_mem set_takeWhileD takeWhile_nth)

lemma buf_token_bound:
  assumes "length b = MAX_KEY_LEN" "b ! (MAX_KEY_LEN - 1) = NUL" "buf_token b = (n, w)"
  shows "n + length w < MAX_KEY_LEN"
proof -
  have n: "n = length (takeWhile (\<lambda>c. c = SP) b)" "w = c_str (drop n b)"
    using assms(3) by (auto simp: buf_token_def Let_def)
  then have "n \<le> 255" using assms length_takeWhile_le [of 255 b "\<lambda>c. c = SP"] by (simp add: MAX_KEY_LEN_def)
  moreover have "length w \<le> 255 - n"
    unfolding n(2) c_str_def
    by (rule length_takeWhile_le) (use assms \<open>n \<le> 255\<close> in \<open>auto simp: MAX_KEY_LEN_def\<close>)
  ultimately show ?thesis by (simp add: MAX_KEY_LEN_def)
qed

lemma MoveBufTo_ok:
  assumes "buf_ok h" "h_pos h < MAX_KEY_LEN"
  shows "\<exists>t h'. MoveBufTo s h = Done (t, h') \<and> buf_ok h' \<and> h_pos h' = 0"
proof -
  obtain n w where t: "buf_token (h_buf h) = (n, w)" by (cases "buf_token (h_buf h)")
  have l: "length (h_buf h) = MAX_KEY_LEN" "h_buf h ! (MAX_KEY_LEN - 1) = NUL"
    using assms by (auto simp: buf_ok_def)
  note b = buf_token_bound [OF l t]
  have "(take n (h_buf h) @ replicate (length w) NUL @ drop (n + length w) (h_buf h)) ! (MAX_KEY_LEN - 1) = NUL"
    using b l by (auto simp: nth_append)
  then show ?thesis using b l t by (auto simp: MoveBufTo_def buf_ok_def)
qed

lemma put_char_ok:
  assumes "buf_ok h" "h_pos h < MAX_KEY_LEN"
  shows "\<exists>h'. put_char c h = Done h' \<and> buf_ok h' \<and> h_pos h' = Suc (h_pos h)"
  using assms by (auto simp: put_char_def buf_ok_def)

definition req_safe :: "http_request \<times> string \<times> string \<Rightarrow> bool" where
  "req_safe s \<longleftrightarrow> buf_ok (fst s) \<and> h_state (fst s) \<noteq> START"

lemma buf_ok_update [simp]:
  "buf_ok (h\<lparr>h_state := x\<rparr>) = buf_ok h" "buf_ok (h\<lparr>rq_path := y\<rparr>) = buf_ok h"
  "buf_ok (h\<lparr>rq_method := y\<rparr>) = buf_ok h"
  "buf_ok (h\<lparr>h_version := y\<rparr>) = buf_ok h" "buf_ok (h\<lparr>h_bodyStart := z\<rparr>) = buf_ok h"
  "buf_ok (SetHeader k v h) = buf_ok h"
  by (simp_all add: buf_ok_def SetHeader_def)

definition turn_safe :: "('s \<times> string \<times> string \<Rightarrow> bool) \<Rightarrow> 's turn outcome \<Rightarrow> bool" where
  "turn_safe I t \<longleftrightarrow> (case t of Fault \<Rightarrow> False | Done (Next s) \<Rightarrow> I s | Done (Stop s) \<Rightarrow> I s)"

lemma turn_safeE: "turn_safe I t \<Longrightarrow> \<exists>s'. I s' \<and> (t = Done (Next s') \<or> t = Done (Stop s'))"
  by (auto simp: turn_safe_def split: outcome.splits turn.splits)

lemma req_turn_safe:
  assumes "req_safe s"
  shows "turn_safe req_safe (req_turn i c s)"
proof (cases "MAX_KEY_LEN \<le> h_pos (fst s)")
  case True
  then show ?thesis using assms by (auto simp: req_turn_def GetPendSize_def turn_safe_def split: prod.splits)
next
  case False
  obtain h k v where s: "s = (h, k, v)" by (cases s)
  have ok: "buf_ok h" "h_pos h < MAX_KEY_LEN" using False assms s by (auto simp: req_safe_def)
  obtain h1 where p: "put_char c h = Done h1" "buf_ok h1" using put_char_ok [OF ok] by blast
  have m: "\<exists>t h2. MoveBufTo x h = Done (t, h2) \<and> buf_ok h2 \<and> h_state h2 = h_state h" for x
    using MoveBufTo_ok [OF ok] MoveBufTo_state by blast
  show ?thesis
    using assms ok p m [of "rq_path h"] m [of "[]"] m [of k] m [of v] s
    by (cases "h_state h")
      (auto simp: req_turn_def req_safe_def with_outcome_def GetPendSize_def Let_def turn_safe_def
        dest: put_char_state MoveBufTo_state split: turn.splits if_splits)
qed

lemma run_safe:
  assumes "req_safe s"
  shows "\<exists>s' failed n. run req_turn isParsed xs s = Done (s', failed, n) \<and> req_safe s'"
  by (rule run_invariant [of req_safe, OF assms turn_safeE [OF req_turn_safe]])

text \<open>In state \<open>START\<close>: no method is found yet in the bytes gathered so far.\<close>

definition ends_in_method :: "string \<Rightarrow> bool" where
  "ends_in_method t \<longleftrightarrow> (\<exists>m\<in>{''GET '', ''POST ''}. length m \<le> length t \<and> drop (length t - length m) t = m)"

definition gathered :: "'a http_header_scheme \<Rightarrow> string" where
  "gathered h = take (h_pos h) (h_buf h)"

lemma put_char_gathered:
  "put_char c h = Done h' \<Longrightarrow> gathered h' = gathered h @ [c] \<and> h_pos h' = Suc (h_pos h)
    \<and> length (h_buf h') = length (h_buf h)"
  by (auto simp: put_char_def gathered_def take_Suc_conv_app_nth split: if_splits)

lemma isMethodFound_START:
  assumes ok: "buf_ok h" and room: "Suc (h_pos h) < MAX_KEY_LEN"
  shows "\<exists>h'. buf_ok h' \<and> h_state h' = h_state h \<and>
    isMethodFound c h = Done (ends_in_method (gathered h @ [c]), h') \<and>
    (\<not> ends_in_method (gathered h @ [c]) \<longrightarrow> gathered h' = gathered h @ [c] \<and> h_pos h' = Suc (h_pos h)) \<and>
    (ends_in_method (gathered h @ [c]) \<longrightarrow> h_pos h' = 0)"
proof -
  obtain h1 where h1: "put_char c h = Done h1" "buf_ok h1" "h_pos h1 = Suc (h_pos h)"
    using put_char_ok [OF ok] room by fastforce
  note g = put_char_gathered [OF h1(1)]
  have len: "h_pos h1 \<le> length (h_buf h1)" "length (gathered h @ [c]) = h_pos h1"
    using h1 ok by (auto simp: buf_ok_def gathered_def)
  let ?G = "gathered h @ [c]"
  have tail: "length m \<le> h_pos h1 \<and> take (length m) (drop (h_pos h1 - length m) (h_buf h1)) = m \<longleftrightarrow>
      length m \<le> length ?G \<and> drop (length ?G - length m) ?G = m" for m
  proof -
    have G: "?G = take (h_pos h1) (h_buf h1)" by (metis g gathered_def)
    show ?thesis using len(1) unfolding G by (auto simp: drop_take)
  qed
  have nz: "\<not> MAX_KEY_LEN \<le> h_pos h1" using h1 room by simp
  have "isMethodFound c h = Done (ends_in_method ?G, if ends_in_method ?G then h1\<lparr>h_pos := 0\<rparr> else h1)"
    unfolding isMethodFound_def h1(1) bind_outcome.simps Let_def if_not_P [OF nz] tail ends_in_method_def
    by (simp del: list.size length_append)
  then show ?thesis
    using h1 room g put_char_state [OF h1(1)] by (auto simp: buf_ok_def)
qed

text \<open>
  A request whose method stands within the first 255 bytes never makes the parser leave its
  buffer, whatever else it holds.
\<close>

lemma run_START:
  assumes "buf_ok h" "h_state h = START" "h_pos h + length xs < MAX_KEY_LEN"
  shows "\<exists>h' k' v' failed n. run req_turn isParsed xs (h, k, v) = Done ((h', k', v'), failed, n) \<and> buf_ok h' \<and>
    (h_state h' \<noteq> START \<or> \<not> failed \<and> (gathered h' = gathered h @ map snd xs \<and>
      (xs = [] \<or> \<not> ends_in_method (gathered h'))))"
  using assms
proof (induction xs arbitrary: h)
  case Nil
  then show ?case by (auto intro: exI [of _ False])
next
  case (Cons x xs)
  obtain i c where x: "x = (i, c)" by (cases x)
  have room: "Suc (h_pos h) < MAX_KEY_LEN" using Cons.prems(3) by simp
  then have nf: "\<not> MAX_KEY_LEN \<le> h_pos h" by simp
  let ?e = "ends_in_method (gathered h @ [c])"
  obtain h1 where h1: "buf_ok h1" "h_state h1 = START" "isMethodFound c h = Done (?e, h1)"
    "\<not> ?e \<Longrightarrow> gathered h1 = gathered h @ [c] \<and> h_pos h1 = Suc (h_pos h)" "?e \<Longrightarrow> h_pos h1 = 0"
    using isMethodFound_START [OF Cons.prems(1) room] Cons.prems(2) by metis
  show ?case
  proof (cases ?e)
    case False
    have t: "req_turn i c (h, k, v) = Done (Next (h1, k, v))"
      using nf h1(3) False Cons.prems(2) by (simp add: req_turn_def GetPendSize_def)
    have "h_pos h1 + length xs < MAX_KEY_LEN" using h1(4) [OF False] Cons.prems(3) by simp
    from Cons.IH [OF h1(1,2) this] obtain h' k' v' failed n where
      r: "run req_turn isParsed xs (h1, k, v) = Done ((h', k', v'), failed, n)" "buf_ok h'"
        "h_state h' \<noteq> START \<or> \<not> failed \<and> gathered h' = gathered h1 @ map snd xs \<and>
          (xs = [] \<or> \<not> ends_in_method (gathered h'))" by blast
    have "run req_turn isParsed (x # xs) (h, k, v) = Done ((h', k', v'), failed, Suc n)"
      using t x Cons.prems(2) r(1) by (simp add: isParsed_def)
    then show ?thesis using r h1(4) False x by auto
  next
    case True
    have "h_pos h1 < MAX_KEY_LEN" using h1(5) True room by simp
    then obtain t h2 where h2: "MoveBufTo [] h1 = Done (t, h2)" "buf_ok h2"
      using MoveBufTo_ok [OF h1(1)] by blast
    let ?h = "h2\<lparr>rq_method := t, h_state := REQ_PATH\<rparr>"
    have turn: "req_turn i c (h, k, v) = Done (Next (?h, k, v))"
      using nf h1(3) True Cons.prems(2) h2 by (simp add: req_turn_def GetPendSize_def with_outcome_def)
    have "req_safe (?h, k, v)" using h2(2) by (simp add: req_safe_def)
    from run_safe [OF this, of xs] obtain h' k' v' failed n where
      r: "run req_turn isParsed xs (?h, k, v) = Done ((h', k', v'), failed, n)" "req_safe (h', k', v')"
      by auto
    have "run req_turn isParsed (x # xs) (h, k, v) = Done ((h', k', v'), failed, Suc n)"
      using turn x Cons.prems(2) r(1) by (simp add: isParsed_def)
    then show ?thesis using r(2) by (auto simp: req_safe_def)
  qed
qed

theorem request_parser_safe:
  assumes ok: "buf_ok h"
    and start: "h_state h = START \<Longrightarrow> \<exists>g m rest. map snd xs = g @ m @ rest \<and> m \<in> {''GET '', ''POST ''}
      \<and> h_pos h + length (g @ m) < MAX_KEY_LEN"
  shows "\<exists>code h' n. parse_bytes req_turn xs h = Done (code, h', n) \<and> buf_ok h'"
proof (cases "h_state h = START")
  case False
  then have "req_safe (h, [], [])" using ok by (simp add: req_safe_def)
  from run_safe [OF this, of xs] show ?thesis by (auto simp: parse_bytes_def req_safe_def)
next
  case True
  obtain g m rest where g: "map snd xs = g @ m @ rest" "m \<in> {''GET '', ''POST ''}"
    "h_pos h + length (g @ m) < MAX_KEY_LEN" using start [OF True] by blast
  let ?n = "length (g @ m)"
  have split: "xs = take ?n xs @ drop ?n xs" "map snd (take ?n xs) = g @ m"
    using g(1) by (simp_all add: take_map [symmetric])
  then have len: "length (take ?n xs) = ?n" by (metis length_map)
  have "h_pos h + length (take ?n xs) < MAX_KEY_LEN" using len g(3) by simp
  from run_START [OF ok True this, of "[]" "[]"] obtain h1 k v failed n where
    r: "run req_turn isParsed (take ?n xs) (h, [], []) = Done ((h1, k, v), failed, n)" "buf_ok h1"
      "h_state h1 \<noteq> START \<or> \<not> failed \<and> gathered h1 = gathered h @ g @ m \<and>
        (take ?n xs = [] \<or> \<not> ends_in_method (gathered h1))"
    using split(2) by auto
  have "h_state h1 \<noteq> START"
  proof
    assume "h_state h1 = START"
    then have "gathered h1 = gathered h @ g @ m" "take ?n xs = [] \<or> \<not> ends_in_method (gathered h1)"
      using r(3) by auto
    moreover have "take ?n xs \<noteq> []" using len g(2) by auto
    ultimately show False using g(2) by (auto simp: ends_in_method_def)
  qed
  then have "req_safe (h1, k, v)" using r(2) by (simp add: req_safe_def)
  from run_safe [OF this, of "drop ?n xs"]
  obtain s' e n' where s': "run req_turn isParsed (drop ?n xs) (h1, k, v) = Done (s', e, n')" "req_safe s'"
    by blast
  have "run req_turn isParsed xs (h, [], []) =
      run req_turn isParsed (take ?n xs @ drop ?n xs) (h, [], [])" using split(1) by simp
  also have "\<dots> = (if failed then Done ((h1, k, v), failed, n) else Done (s', e, n + n'))"
    by (simp only: run_append r(1) s' bind_outcome.simps prod.case)
  finally show ?thesis using r(2) s'(2) by (cases s') (auto simp: parse_bytes_def req_safe_def)
qed

text \<open>
  The parser of responses has no test of its own: a token that fills the buffer is the only way out of
  it. The bytes that end a token, by the state:
\<close>

definition res_token_ends :: "http_state \<Rightarrow> char list option" where
  "res_token_ends st =
     (case st of START \<Rightarrow> Some [SP] | RES_STATUS \<Rightarrow> Some [SP] | RES_STATUS_MESSAGE_R \<Rightarrow> Some [CR]
      | RES_KEY \<Rightarrow> Some [CHR '':'', CR] | RES_VALUE_R \<Rightarrow> Some [CR] | _ \<Rightarrow> None)"

lemma MoveBufTo_u_ok:
  assumes "buf_ok h" "h_pos h < MAX_KEY_LEN"
  shows "\<exists>n h'. MoveBufTo_u x h = Done (n, h') \<and> buf_ok h'"
proof -
  obtain n w where t: "buf_token (h_buf h) = (n, w)" by (cases "buf_token (h_buf h)")
  have l: "length (h_buf h) = MAX_KEY_LEN" "h_buf h ! (MAX_KEY_LEN - 1) = NUL"
    using assms by (auto simp: buf_ok_def)
  let ?m = "length (c_str (h_buf h))"
  have "?m \<le> 255" unfolding c_str_def
    by (rule length_takeWhile_le) (use l in \<open>simp_all add: MAX_KEY_LEN_def\<close>)
  then have "(replicate ?m NUL @ drop ?m (h_buf h)) ! (MAX_KEY_LEN - 1) = NUL"
    using l by (auto simp: nth_append MAX_KEY_LEN_def)
  then show ?thesis using buf_token_bound [OF l t] l t \<open>?m \<le> 255\<close>
    by (auto simp: MoveBufTo_u_def buf_ok_def Let_def MAX_KEY_LEN_def)
qed

lemma buf_ok_response [simp]:
  fixes h :: http_response
  shows "buf_ok (h\<lparr>rs_status := x\<rparr>) = buf_ok h" "buf_ok (h\<lparr>rs_status_msg := y\<rparr>) = buf_ok h"
    "buf_ok (h\<lparr>h_state := z\<rparr>) = buf_ok h" "buf_ok (h\<lparr>h_bodyStart := i\<rparr>) = buf_ok h"
    "buf_ok (SetHeader k v h) = buf_ok h"
  by (simp_all add: buf_ok_def SetHeader_def)

lemma res_turn_safe:
  assumes ok: "buf_ok h" "h_pos h < MAX_KEY_LEN"
  shows "turn_safe (\<lambda>s. buf_ok (fst s)) (res_turn i c (h, k, v))"
proof -
  obtain h1 where p: "put_char c h = Done h1" "buf_ok h1" using put_char_ok [OF ok] by blast
  have m: "\<exists>t h2. MoveBufTo x h = Done (t, h2) \<and> buf_ok h2" for x using MoveBufTo_ok [OF ok] by blast
  have u: "\<exists>n h2. MoveBufTo_u x h = Done (n, h2) \<and> buf_ok h2" for x by (rule MoveBufTo_u_ok [OF ok])
  show ?thesis
    using ok p m [of "rs_status_msg h"] m [of k] m [of v] u [of "rs_status h"]
    by (cases "h_state h") (auto simp: res_turn_def with_outcome_def Let_def turn_safe_def)
qed

lemma response_fault_full:
  assumes "buf_ok (fst s)" "run res_turn isParsed xs s = Fault"
  shows "\<exists>n<length xs. \<exists>s1. run res_turn isParsed (take n xs) s = Done (s1, False, n)
    \<and> \<not> isParsed (fst s1) \<and> h_pos (fst s1) = MAX_KEY_LEN"
  using assms
proof (induction xs arbitrary: s)
  case (Cons x xs)
  obtain i c where x: "x = (i, c)" by (cases x)
  obtain h k v where s: "s = (h, k, v)" by (cases s)
  have np: "\<not> isParsed h" using Cons.prems(2) x s by auto
  show ?case
  proof (cases "h_pos h = MAX_KEY_LEN")
    case True
    then show ?thesis using np s by (intro exI [of _ 0]) simp
  next
    case False
    then have ok: "buf_ok h" "h_pos h < MAX_KEY_LEN" using Cons.prems(1) s by (auto simp: buf_ok_def)
    obtain s' where s': "buf_ok (fst s')" "res_turn i c s = Done (Next s') \<or> res_turn i c s = Done (Stop s')"
      using turn_safeE [OF res_turn_safe [OF ok]] s by blast
    have fin: "\<not> isParsed (fst s)" using np s by simp
    have nx: "res_turn i c s = Done (Next s')" using s'(2) Cons.prems(2) x fin by auto
    then have "bind_outcome (run res_turn isParsed xs s') (\<lambda>(s, e, n). Done (s, e, Suc n)) = Fault"
      using Cons.prems(2) x fin by simp
    then have nf: "run res_turn isParsed xs s' = Fault" by (cases "run res_turn isParsed xs s'") auto
    from Cons.IH [OF s'(1) nf] obtain n s1 where n: "n < length xs"
      "run res_turn isParsed (take n xs) s' = Done (s1, False, n)" "\<not> isParsed (fst s1)"
      "h_pos (fst s1) = MAX_KEY_LEN" by blast
    then show ?thesis using nx x fin by (intro exI [of _ "Suc n"]) simp
  qed
qed simp

lemma res_turn_stores:
  assumes "res_token_ends (h_state h) = Some es" "c \<notin> set es"
  shows "res_turn i c (h, k, v) = with_outcome (put_char c h) (\<lambda>h. Next (h, k, v))" "\<not> isParsed h"
  using assms by (auto simp: res_turn_def res_token_ends_def isParsed_def split: http_state.splits)

text \<open>Inside a token: the bytes are stored, and the one behind the 256th is stored outside of the buffer.\<close>

lemma response_token:
  assumes "res_token_ends (h_state h) = Some es" "set (map snd xs) \<inter> set es = {}"
    and "h_pos h \<le> length (h_buf h)"
  shows "if h_pos h + length xs \<le> length (h_buf h)
    then \<exists>h'. run res_turn isParsed xs (h, k, v) = Done ((h', k, v), False, length xs)
      \<and> h_state h' = h_state h \<and> gathered h' = gathered h @ map snd xs
    else run res_turn isParsed xs (h, k, v) = Fault"
  using assms
proof (induction xs arbitrary: h)
  case (Cons x xs)
  obtain i c where x: "x = (i, c)" by (cases x)
  have c: "c \<notin> set es" using Cons.prems(2) x by auto
  note t = res_turn_stores [OF Cons.prems(1) c]
  show ?case
  proof (cases "put_char c h")
    case Fault
    then have "h_pos h = length (h_buf h)" using Cons.prems(3) by (auto simp: put_char_def split: if_splits)
    then show ?thesis using t Fault x by (simp add: with_outcome_def)
  next
    case (Done h1)
    note g = put_char_gathered [OF Done] and st = put_char_state [OF Done]
    have pos: "h_pos h < length (h_buf h)" using Done by (auto simp: put_char_def split: if_splits)
    have r: "run res_turn isParsed (x # xs) (h, k, v) =
        bind_outcome (run res_turn isParsed xs (h1, k, v)) (\<lambda>(s, e, n). Done (s, e, Suc n))"
      using t Done x by (simp add: with_outcome_def)
    from Cons.IH [of h1] Cons.prems(1,2) g st pos
    show ?thesis unfolding r using x by (auto split: if_splits)
  qed
qed simp

end
