(* ===== verification/Http_Wire.thy ===== *)
theory Http_Wire
  imports Http_Header
begin

text \<open>
  What goes over the wire: the text the serialisers of \<open>Http_Header\<close> write into a piece of
  the send buffer, and what the parsers read back from it.
\<close>

section \<open>The serialisers\<close>

lemma snprintf_text:
  assumes "0 < n" "n < 2 ^ 64" "p + nat n \<le> length b"
  shows "snprintf b p n t = (let w = take (nat n - 1) t in
    Done (take p b @ w @ [NUL] @ drop (p + length w + 1) b))"
  using assms by (simp add: snprintf_def Let_def)

lemma snprintf_zero [simp]: "snprintf b p 0 t = Done b"
  by (simp add: snprintf_def)

text \<open>All texts and a zero byte are written, or the area behind \<open>bufptr\<close> is spoiled.\<close>

lemma emit_fits:
  assumes "ts \<noteq> []" "int (length (concat ts)) < n" "n < 2 ^ 64" "p + nat n \<le> length b"
  shows "emit ts b p n = Done (take p b @ concat ts @ [NUL] @ drop (p + length (concat ts) + 1) b,
    p + length (concat ts), True)"
  using assms
proof (induction ts arbitrary: b p n)
  case (Cons t ts)
  have n: "0 < n" "length t \<le> nat n - 1" "\<not> n - int (length t) \<le> 0" using Cons.prems by auto
  let ?b = "take p b @ t @ [NUL] @ drop (p + length t + 1) b"
  have s: "snprintf b p n t = Done ?b"
    using snprintf_text [OF n(1) Cons.prems(3,4), of t] n by simp
  show ?case
  proof (cases "ts = []")
    case True
    then show ?thesis using s n by simp
  next
    case False
    have len: "length ?b = length b" using Cons.prems(4) n by auto
    have "emit ts ?b (p + length t) (n - int (length t)) =
      Done (take (p + length t) ?b @ concat ts @ [NUL] @ drop (p + length t + length (concat ts) + 1) ?b,
        p + length t + length (concat ts), True)"
      by (rule Cons.IH [OF False]) (use Cons.prems len in auto)
    then show ?thesis using s n Cons.prems(4) by (simp add: Let_def ac_simps)
  qed
qed simp

lemma overwrite_inside:
  assumes "length w < m" "p + m \<le> length b"
  shows "length (take p b @ w @ [c] @ drop (p + length w + 1) b) = length b"
    and "take p (take p b @ w @ [c] @ drop (p + length w + 1) b) = take p b"
    and "drop (p + m) (take p b @ w @ [c] @ drop (p + length w + 1) b) = drop (p + m) b"
proof -
  obtain d where "m = Suc (length w + d)" using assms(1) less_iff_Suc_add by auto
  then show "drop (p + m) (take p b @ w @ [c] @ drop (p + length w + 1) b) = drop (p + m) b"
    using assms(2) by (simp add: min_def ac_simps)
qed (use assms in auto)

lemma emit_full:
  assumes "ts \<noteq> []" "n \<le> int (length (concat ts))" "0 \<le> n" "n < 2 ^ 64" "p + nat n \<le> length b"
  shows "\<exists>b' e. emit ts b p n = Done (b', e, False) \<and> length b' = length b
    \<and> take p b' = take p b \<and> drop (p + nat n) b' = drop (p + nat n) b"
  using assms
proof (induction ts arbitrary: b p n)
  case (Cons t ts)
  define b1 where "b1 = (if n = 0 then b else
    take p b @ take (nat n - 1) t @ [NUL] @ drop (p + length (take (nat n - 1) t) + 1) b)"
  have s: "snprintf b p n t = Done b1"
    using snprintf_text [OF _ Cons.prems(4,5), of t] Cons.prems(3) by (auto simp: b1_def Let_def)
  have b1: "length b1 = length b" "take p b1 = take p b" "drop (p + nat n) b1 = drop (p + nat n) b"
  proof -
    have "length (take (nat n - 1) t) < nat n" if "n \<noteq> 0"
    proof -
      have "length (take (nat n - 1) t) \<le> nat n - 1" "0 < nat n" using that Cons.prems(3) by auto
      then show ?thesis by linarith
    qed
    note o = overwrite_inside [OF this Cons.prems(5)]
    show "length b1 = length b" "take p b1 = take p b" "drop (p + nat n) b1 = drop (p + nat n) b"
      unfolding b1_def by (cases "n = 0", simp, simp only: o if_False simp_thms)+
  qed
  show ?case
  proof (cases "n - int (length t) \<le> 0")
    case True
    then show ?thesis using s b1 by simp
  next
    case False
    then have "ts \<noteq> []" using Cons.prems(2) by auto
    then have "\<exists>b' e. emit ts b1 (p + length t) (n - int (length t)) = Done (b', e, False)
      \<and> length b' = length b1 \<and> take (p + length t) b' = take (p + length t) b1
      \<and> drop (p + length t + nat (n - int (length t))) b' = drop (p + length t + nat (n - int (length t))) b1"
      by (rule Cons.IH) (use Cons.prems b1 False in auto)
    moreover have "p + length t + nat (n - int (length t)) = p + nat n" using False by auto
    ultimately obtain b' e where e: "emit ts b1 (p + length t) (n - int (length t)) = Done (b', e, False)"
      "length b' = length b1" "take (p + length t) b' = take (p + length t) b1"
      "drop (p + nat n) b' = drop (p + nat n) b1" by metis
    have "take p b' = take p (take (p + length t) b')" by simp
    also have "\<dots> = take p b" using e(3) b1(2) by simp
    finally show ?thesis using s e b1 False by (simp add: Let_def)
  qed
qed simp

theorem serialize_at_fits:
  assumes q: "wf_que q" "wf_it q it" and sz: "psz q (it_idx it) < 2 ^ 31"
    and ts: "ts \<noteq> []" "it_pos it + length (concat ts) < psz q (it_idx it)"
  shows "\<exists>x. serialize_at ts q it = Done (0, put_tail q (it_idx it) (it_pos it) (concat ts) x)
    \<and> it_pos it + length (concat ts) + length x = length (pbuf (q ! it_idx it))"
proof -
  have i: "it_idx it < length q" using q(2) by (simp add: wf_it_def)
  have "emit ts (pbuf (q ! it_idx it)) (it_pos it) (int (psz q (it_idx it)) - int (it_pos it)) =
    Done (take (it_pos it) (pbuf (q ! it_idx it)) @ concat ts @ [NUL]
      @ drop (it_pos it + length (concat ts) + 1) (pbuf (q ! it_idx it)), it_pos it + length (concat ts), True)"
    by (rule emit_fits [OF ts(1)]) (use ts sz wf_que_room [OF q(1) i] in auto)
  then show ?thesis
    by (intro exI [of _ "[NUL] @ drop (it_pos it + length (concat ts) + 1) (pbuf (q ! it_idx it))"])
      (use ts(2) wf_que_room [OF q(1) i] in \<open>simp add: serialize_at_def put_tail_def Let_def add.commute\<close>)
qed

theorem serialize_at_full:
  assumes q: "wf_que q" "wf_it q it" and sz: "psz q (it_idx it) < 2 ^ 31"
    and ts: "ts \<noteq> []" "psz q (it_idx it) \<le> it_pos it + length (concat ts)"
  shows "\<exists>q'. serialize_at ts q it = Done (- 1, q') \<and> same_layout q q'
    \<and> (\<forall>j<length q. j \<noteq> it_idx it \<longrightarrow> q' ! j = q ! j)
    \<and> take (it_pos it) (pbuf (q' ! it_idx it)) = take (it_pos it) (pbuf (q ! it_idx it))"
proof -
  let ?i = "it_idx it" and ?p = "it_pos it"
  have i: "?i < length q" "?p < psz q ?i" using q(2) by (simp_all add: wf_it_def)
  have "\<exists>b' e. emit ts (pbuf (q ! ?i)) ?p (int (psz q ?i) - int ?p) = Done (b', e, False)
    \<and> length b' = length (pbuf (q ! ?i)) \<and> take ?p b' = take ?p (pbuf (q ! ?i))
    \<and> drop (?p + nat (int (psz q ?i) - int ?p)) b' = drop (?p + nat (int (psz q ?i) - int ?p)) (pbuf (q ! ?i))"
    by (rule emit_full [OF ts(1)]) (use ts sz i wf_que_room [OF q(1) i(1)] in auto)
  then obtain b' e where e: "emit ts (pbuf (q ! ?i)) ?p (int (psz q ?i) - int ?p) = Done (b', e, False)"
    "length b' = length (pbuf (q ! ?i))" "take ?p b' = take ?p (pbuf (q ! ?i))" by blast
  let ?q = "q[?i := (q ! ?i)\<lparr>pbuf := b'\<rparr>]"
  have "same_layout q ?q"
    unfolding same_layout_def
    by (intro conjI; rule nth_equalityI) (use e(2) i(1) in \<open>auto simp: nth_list_update\<close>)
  then show ?thesis
    using e i by (intro exI [of _ ?q]) (simp add: serialize_at_def Let_def)
qed

section \<open>Tokens\<close>

text \<open>
  The token buffer between two tokens holds the leading spaces of the last one (they are
  skipped, not cleared), then zero bytes; inside a token it holds the token.
\<close>

definition clean_h :: "nat \<Rightarrow> 'a http_header_scheme \<Rightarrow> 'a http_header_scheme" where
  "clean_h m h = h\<lparr>h_buf := replicate m SP @ replicate (MAX_KEY_LEN - m) NUL, h_pos := 0\<rparr>"

definition tok_h :: "string \<Rightarrow> 'a http_header_scheme \<Rightarrow> 'a http_header_scheme" where
  "tok_h t h = h\<lparr>h_buf := t @ replicate (MAX_KEY_LEN - length t) NUL, h_pos := length t\<rparr>"

lemma clean_tok_simps [simp]:
  "h_state (clean_h m h) = h_state h" "h_headers (clean_h m h) = h_headers h"
  "h_version (clean_h m h) = h_version h" "h_pos (clean_h m h) = 0"
  "http_header.more (clean_h m h) = http_header.more h" "h_bodyStart (clean_h m h) = h_bodyStart h"
  "h_body_size (clean_h m h) = h_body_size h"
  "h_state (tok_h t h) = h_state h" "h_headers (tok_h t h) = h_headers h"
  "h_version (tok_h t h) = h_version h" "h_pos (tok_h t h) = length t"
  "http_header.more (tok_h t h) = http_header.more h"
  by (simp_all add: clean_h_def tok_h_def)

lemma clean_upd [simp]:
  "(clean_h m h)\<lparr>h_state := x\<rparr> = clean_h m (h\<lparr>h_state := x\<rparr>)"
  "(clean_h m h)\<lparr>h_version := y\<rparr> = clean_h m (h\<lparr>h_version := y\<rparr>)"
  "(clean_h m h)\<lparr>h_headers := z\<rparr> = clean_h m (h\<lparr>h_headers := z\<rparr>)"
  "clean_h m (tok_h t h) = clean_h m h" "clean_h m (clean_h n h) = clean_h m h"
  by (rule http_header.equality, simp_all add: clean_h_def tok_h_def)+

lemma clean_upd_request [simp]:
  "(clean_h m g)\<lparr>rq_method := t\<rparr> = clean_h m (g\<lparr>rq_method := t\<rparr>)"
  "(clean_h m g)\<lparr>rq_path := t\<rparr> = clean_h m (g\<lparr>rq_path := t\<rparr>)"
  "rq_path (clean_h m g) = rq_path g" "rq_method (clean_h m g) = rq_method g"
  "rq_path (tok_h u g) = rq_path g"
  by (simp_all add: clean_h_def tok_h_def)

lemma clean_upd_response [simp]:
  "(clean_h m r)\<lparr>rs_status := n\<rparr> = clean_h m (r\<lparr>rs_status := n\<rparr>)"
  "(clean_h m r)\<lparr>rs_status_msg := t\<rparr> = clean_h m (r\<lparr>rs_status_msg := t\<rparr>)"
  "rs_status (clean_h m r) = rs_status r" "rs_status_msg (clean_h m r) = rs_status_msg r"
  "rs_status (tok_h u r) = rs_status r" "rs_status_msg (tok_h u r) = rs_status_msg r"
  by (simp_all add: clean_h_def tok_h_def)

lemma tok_Nil: "tok_h [] h = clean_h 0 h"
  by (simp add: clean_h_def tok_h_def)

lemma put_char_tok:
  "length t < MAX_KEY_LEN \<Longrightarrow> put_char c (tok_h t h) = Done (tok_h (t @ [c]) h)"
  by (cases "MAX_KEY_LEN - length t")
    (auto simp: put_char_def tok_h_def list_update_append Suc_diff_Suc)

lemma buf_token_tok:
  assumes "NUL \<notin> set w" "w = [] \<or> hd w \<noteq> SP"
  shows "buf_token (replicate j SP @ w @ replicate (Suc n) NUL) = (j, w)"
proof -
  have "takeWhile (\<lambda>c. c = SP) (w @ replicate (Suc n) NUL) = []" using assms(2) by (cases w) auto
  then show ?thesis
    using assms(1) by (simp add: buf_token_def c_str_def takeWhile_append takeWhile_eq_all_conv) 
qed

lemma MoveBufTo_tok:
  assumes "NUL \<notin> set w" "w = [] \<or> hd w \<noteq> SP" "j + length w < MAX_KEY_LEN"
    and b: "h_buf h = (replicate j SP @ w) @ replicate (MAX_KEY_LEN - (j + length w)) NUL"
  shows "MoveBufTo s h = Done (s @ w, clean_h j h)"
proof -
  obtain n where n: "MAX_KEY_LEN - (j + length w) = Suc n" using assms(3) by (cases "MAX_KEY_LEN - (j + length w)") auto
  then have "MAX_KEY_LEN - j = length w + Suc n" by simp
  then show ?thesis
    using buf_token_tok [OF assms(1,2), of j n]
    by (simp add: MoveBufTo_def b n clean_h_def replicate_add replicate_app_Cons_same)
qed

lemma MoveBufTo_tok_h:
  assumes "NUL \<notin> set w" "w = [] \<or> hd w \<noteq> SP" "j + length w < MAX_KEY_LEN"
  shows "MoveBufTo s (tok_h (replicate j SP @ w) h) = Done (s @ w, clean_h j h)"
  using MoveBufTo_tok [OF assms, of "tok_h (replicate j SP @ w) h" s] by (simp add: tok_h_def clean_h_def)

section \<open>Runs over a text\<close>

text \<open>The parser reads the text \<open>t\<close>, wherever in the buffer it is, and goes on in state \<open>s'\<close>.\<close>

definition reads where
  "reads f t s s' \<longleftrightarrow> (\<forall>xs. map snd xs = t \<longrightarrow> run f isParsed xs s = Done (s', False, length t))"

lemma reads_Nil [intro]: "reads f [] s s"
  by (simp add: reads_def)

lemma map_append_split:
  assumes "map f xs = a @ b"
  obtains xs1 xs2 where "xs = xs1 @ xs2" "map f xs1 = a" "map f xs2 = b"
  using assms by (auto simp: map_eq_append_conv)

lemma reads_append:
  assumes "reads f t s s'" "reads f u s' s''"
  shows "reads f (t @ u) s s''"
  unfolding reads_def
proof (intro allI impI)
  fix xs :: "(iter \<times> char) list" assume "map snd xs = t @ u"
  then obtain xs1 xs2 where "xs = xs1 @ xs2" "map snd xs1 = t" "map snd xs2 = u"
    by (rule map_append_split)
  then show "run f isParsed xs s = Done (s'', False, length (t @ u))"
    using assms by (simp add: reads_def run_append)
qed

lemma reads_char:
  assumes "\<And>i. f i c s = Done (Next s')" "\<not> isParsed (fst s)"
  shows "reads f [c] s s'"
  using assms by (auto simp: reads_def)

lemma reads_line:
  "reads f t s s1 \<Longrightarrow> reads f [c] s1 s2 \<Longrightarrow> reads f [d] s2 s3 \<Longrightarrow> reads f (t @ [c, d]) s s3"
  using reads_append [OF reads_append, of f t s s1 "[c]" s2 "[d]" s3] by simp

lemma reads_run:
  assumes "reads f t s s'"
  shows "map snd xs = t \<Longrightarrow> run f isParsed (xs @ ys) s =
    bind_outcome (run f isParsed ys s') (\<lambda>(s'', e, n). Done (s'', e, length t + n))"
  using assms by (simp add: reads_def run_append)

definition stores where
  "stores f st c \<longleftrightarrow> (\<forall>i h k v. h_state h = st \<and> h_pos h < MAX_KEY_LEN \<longrightarrow>
     f i c (h, k, v) = with_outcome (put_char c h) (\<lambda>h. Next (h, k, v)))"

lemma reads_tok:
  assumes "\<forall>c\<in>set u. stores f (h_state h) c" "h_state h \<noteq> END" "length (t @ u) \<le> MAX_KEY_LEN"
  shows "reads f u (tok_h t h, k, v) (tok_h (t @ u) h, k, v)"
  using assms
proof (induction u arbitrary: t)
  case (Cons c u)
  have "f i c (tok_h t h, k, v) = Done (Next (tok_h (t @ [c]) h, k, v))" for i
    using Cons.prems by (simp add: stores_def put_char_tok with_outcome_def)
  then have "reads f [c] (tok_h t h, k, v) (tok_h (t @ [c]) h, k, v)"
    by (rule reads_char) (use Cons.prems(2) in \<open>simp add: isParsed_def\<close>)
  moreover have "reads f u (tok_h (t @ [c]) h, k, v) (tok_h ((t @ [c]) @ u) h, k, v)"
    by (rule Cons.IH) (use Cons.prems in auto)
  ultimately show ?case using reads_append by fastforce
qed auto

text \<open>A token of enough characters overwrites the stale spaces one by one.\<close>

definition stale_tok :: "nat \<Rightarrow> string \<Rightarrow> 'a http_header_scheme \<Rightarrow> 'a http_header_scheme" where
  "stale_tok m t h = h\<lparr>h_buf := t @ replicate (m - length t) SP @ replicate (MAX_KEY_LEN - max m (length t)) NUL,
     h_pos := length t\<rparr>"

lemma stale_tok_ends:
  "stale_tok m [] h = clean_h m h" "m \<le> length t \<Longrightarrow> stale_tok m t h = tok_h t h"
  "h_state (stale_tok m t h) = h_state h" "h_pos (stale_tok m t h) = length t"
  by (simp_all add: stale_tok_def clean_h_def tok_h_def max_absorb2)

lemma put_char_stale:
  assumes "length t < MAX_KEY_LEN"
  shows "put_char c (stale_tok m t h) = Done (stale_tok m (t @ [c]) h)"
proof (cases "length t < m")
  case True
  then obtain d where d: "m - length t = Suc d" by (cases "m - length t") auto
  then have "max m (Suc (length t)) = m" "m - Suc (length t) = d" "max m (length t) = m" by simp_all
  then show ?thesis using assms by (simp add: put_char_def stale_tok_def list_update_append d)
next
  case False
  then have m: "max m (length t) = length t" "max m (Suc (length t)) = Suc (length t)" by simp_all
  obtain d where d: "MAX_KEY_LEN - length t = Suc d" using assms by (cases "MAX_KEY_LEN - length t") auto
  then have "MAX_KEY_LEN - Suc (length t) = d" by simp
  then show ?thesis using False assms by (simp add: put_char_def stale_tok_def m list_update_append d)
qed

lemma reads_token:
  assumes "\<forall>c\<in>set t. stores f (h_state h) c" "h_state h \<noteq> END" "length t \<le> MAX_KEY_LEN" "m \<le> length t"
  shows "reads f t (clean_h m h, k, v) (tok_h t h, k, v)"
proof -
  have "reads f u (stale_tok m p h, k, v) (stale_tok m (p @ u) h, k, v)"
    if "\<forall>c\<in>set u. stores f (h_state h) c" "length (p @ u) \<le> MAX_KEY_LEN" for u p
    using that
  proof (induction u arbitrary: p)
    case (Cons c u)
    have "f i c (stale_tok m p h, k, v) = Done (Next (stale_tok m (p @ [c]) h, k, v))" for i
      using Cons.prems by (simp add: stores_def put_char_stale with_outcome_def stale_tok_ends)
    then have "reads f [c] (stale_tok m p h, k, v) (stale_tok m (p @ [c]) h, k, v)"
      by (rule reads_char) (use assms(2) in \<open>simp add: isParsed_def stale_tok_ends\<close>)
    moreover have "reads f u (stale_tok m (p @ [c]) h, k, v) (stale_tok m ((p @ [c]) @ u) h, k, v)"
      by (rule Cons.IH) (use Cons.prems in auto)
    ultimately show ?case using reads_append by fastforce
  qed auto
  from this [of t "[]"] show ?thesis using assms(1,3,4) by (simp add: stale_tok_ends)
qed

section \<open>Header fields\<close>

text \<open>
  Both parsers read the \<open>key: value\<close> lines with four states of their own. The laws are the
  turns of the two \<open>switch\<close> statements in these states.
\<close>

definition plain :: "string \<Rightarrow> bool" where
  "plain t \<longleftrightarrow> t \<noteq> [] \<and> hd t \<noteq> SP \<and> NUL \<notin> set t \<and> CR \<notin> set t \<and> length t + 2 < MAX_KEY_LEN"

text \<open>A value may start with a space of its own (the response headers of the server do): two stale
  spaces are then left, and the next name must be long enough to overwrite them.\<close>

definition strip :: "string \<Rightarrow> string" where
  "strip v = dropWhile (\<lambda>c. c = SP) v"

definition value_ok :: "string \<Rightarrow> bool" where
  "value_ok v \<longleftrightarrow> strip v \<noteq> [] \<and> length v \<le> length (strip v) + 1 \<and> NUL \<notin> set v \<and> CR \<notin> set v
     \<and> length v + 2 < MAX_KEY_LEN"

definition header_ok :: "(string, string) smap \<Rightarrow> bool" where
  "header_ok m \<longleftrightarrow> smap_ok m \<and> (\<forall>(k, v)\<in>set m. plain k \<and> 2 \<le> length k \<and> CHR '':'' \<notin> set k \<and> value_ok v)"

definition received_headers :: "(string, string) smap \<Rightarrow> (string, string) smap" where
  "received_headers m = map (\<lambda>(k, v). (k, strip v @ [SP])) m"

lemma strip_plain [simp]: "plain v \<Longrightarrow> strip v = v"
  by (cases v) (auto simp: plain_def strip_def)

lemma value_ok_plain: "plain v \<Longrightarrow> value_ok v"
  by (simp add: value_ok_def) (simp add: plain_def)

lemma value_ok_split:
  assumes "value_ok v"
  shows "v = replicate (length v - length (strip v)) SP @ strip v" "hd (strip v) \<noteq> SP" "NUL \<notin> set (strip v)"
proof -
  have t: "takeWhile (\<lambda>c. c = SP) v = replicate (length (takeWhile (\<lambda>c. c = SP) v)) SP"
    by (rule replicate_length_same [symmetric]) (auto dest: set_takeWhileD)
  have s: "v = takeWhile (\<lambda>c. c = SP) v @ strip v" by (simp add: strip_def)
  then have "length (takeWhile (\<lambda>c. c = SP) v) = length v - length (strip v)"
    by (metis add_diff_cancel_right' length_append)
  then show "v = replicate (length v - length (strip v)) SP @ strip v" using s t by metis
  show "hd (strip v) \<noteq> SP" using assms hd_dropWhile [of "\<lambda>c. c = SP" v] by (simp add: value_ok_def strip_def)
  show "NUL \<notin> set (strip v)" using assms by (auto simp: value_ok_def strip_def dest: set_dropWhileD)
qed

lemma smap_set_last:
  "\<forall>(k', v')\<in>set m. k' < k \<Longrightarrow> smap_set k v m = m @ [(k, v)]"
  by (induction k v m rule: smap_set.induct) auto

locale header_parser =
  fixes f :: "iter \<Rightarrow> char \<Rightarrow> 'a http_header_scheme \<times> string \<times> string \<Rightarrow> 'a http_header_scheme turn outcome"
    and K V N E :: http_state
  assumes running: "K \<noteq> END" "V \<noteq> END" "N \<noteq> END" "E \<noteq> END"
    and store_key: "c \<noteq> CR \<Longrightarrow> c \<noteq> CHR '':'' \<Longrightarrow> stores f K c"
    and store_value: "c \<noteq> CR \<Longrightarrow> stores f V c"
    and colon: "h_state h = K \<Longrightarrow> h_pos h < MAX_KEY_LEN \<Longrightarrow> MoveBufTo k h = Done (t, h') \<Longrightarrow> t \<noteq> [] \<Longrightarrow>
      f i CHR '':'' (h, k, v) = Done (Next (h'\<lparr>h_state := V\<rparr>, t, v))"
    and value_end: "h_state h = V \<Longrightarrow> h_pos h < MAX_KEY_LEN \<Longrightarrow> MoveBufTo v h = Done (t, h') \<Longrightarrow>
      f i CR (h, k, v) = Done (Next ((SetHeader k t h')\<lparr>h_state := N\<rparr>, [], []))"
    and newline: "h_state h = N \<Longrightarrow> h_pos h < MAX_KEY_LEN \<Longrightarrow>
      f i LF (h, k, v) = Done (Next (h\<lparr>h_state := K\<rparr>, k, v))"
    and block_end: "h_state h = K \<Longrightarrow> h_pos h < MAX_KEY_LEN \<Longrightarrow>
      f i CR (h, k, v) = Done (Next (h\<lparr>h_state := E\<rparr>, k, v))"
    and finish: "h_state h = E \<Longrightarrow> h_pos h < MAX_KEY_LEN \<Longrightarrow>
      f i LF (h, k, v) = Done (Next (h\<lparr>h_state := END, h_bodyStart := i\<rparr>, k, v))"
begin

lemma reads_key:
  assumes "plain k" "CHR '':'' \<notin> set k" "h_state h = K" "m \<le> length k"
  shows "reads f (k @ '':'') (clean_h m h, [], []) (clean_h 0 (h\<lparr>h_state := V\<rparr>), k, [])"
proof (rule reads_append)
  have "stores f (h_state h) c" if "c \<in> set k" for c
    unfolding assms(3) by (rule store_key) (use that assms in \<open>auto simp: plain_def\<close>)
  then show "reads f k (clean_h m h, [], []) (tok_h k h, [], [])"
    using assms running by (intro reads_token) (auto simp: plain_def)
  have "MoveBufTo [] (tok_h (replicate 0 SP @ k) h) = Done ([] @ k, clean_h 0 h)"
    by (rule MoveBufTo_tok_h) (use assms in \<open>auto simp: plain_def\<close>)
  then have "f i CHR '':'' (tok_h k h, [], []) = Done (Next ((clean_h 0 h)\<lparr>h_state := V\<rparr>, k, []))" for i
    by (intro colon) (use assms in \<open>auto simp: plain_def\<close>)
  then show "reads f '':'' (tok_h k h, [], []) (clean_h 0 (h\<lparr>h_state := V\<rparr>), k, [])"
    by (intro reads_char) (use assms running in \<open>auto simp: isParsed_def\<close>)
qed

lemma reads_value:
  assumes "value_ok v" "h_state h = V"
  shows "reads f ((SP # v @ [SP]) @ CRLF) (clean_h 0 h, k, [])
    (clean_h (Suc (length v - length (strip v)))
      (h\<lparr>h_headers := smap_set k (strip v @ [SP]) (h_headers h), h_state := K\<rparr>), [], [])"
proof -
  let ?w = "strip v" and ?j = "length v - length (strip v)"
  let ?h = "h\<lparr>h_headers := smap_set k (?w @ [SP]) (h_headers h), h_state := N\<rparr>"
  note S = value_ok_split [OF assms(1)]
  have len: "length ?w \<le> length v" by (simp add: strip_def length_dropWhile_le)
  have "stores f (h_state h) c" if "c \<in> set (SP # v @ [SP])" for c
    unfolding assms(2) by (rule store_value) (use that assms in \<open>auto simp: value_ok_def\<close>)
  then have "reads f (SP # v @ [SP]) (clean_h 0 h, k, []) (tok_h (SP # v @ [SP]) h, k, [])"
    using assms running by (intro reads_token) (auto simp: value_ok_def)
  moreover
  have "MoveBufTo [] (tok_h (replicate (Suc ?j) SP @ (?w @ [SP])) h) = Done ([] @ (?w @ [SP]), clean_h (Suc ?j) h)"
    by (rule MoveBufTo_tok_h) (use assms S len in \<open>auto simp: value_ok_def\<close>)
  then have "MoveBufTo [] (tok_h (SP # v @ [SP]) h) = Done (?w @ [SP], clean_h (Suc ?j) h)"
    using S(1) by (metis append_Cons append_assoc append_Nil replicate_Suc)
  then have "f i CR (tok_h (SP # v @ [SP]) h, k, []) = Done (Next (clean_h (Suc ?j) ?h, [], []))" for i
    by (subst value_end) (use assms in \<open>auto simp: value_ok_def SetHeader_def\<close>)
  then have "reads f [CR] (tok_h (SP # v @ [SP]) h, k, []) (clean_h (Suc ?j) ?h, [], [])"
    by (intro reads_char) (use assms running in \<open>auto simp: isParsed_def\<close>)
  moreover
  have "f i LF (clean_h (Suc ?j) ?h, [], []) = Done (Next ((clean_h (Suc ?j) ?h)\<lparr>h_state := K\<rparr>, [], []))" for i
    by (rule newline) (simp_all add: MAX_KEY_LEN_def)
  then have "reads f [LF] (clean_h (Suc ?j) ?h, [], [])
      (clean_h (Suc ?j) (h\<lparr>h_headers := smap_set k (?w @ [SP]) (h_headers h), h_state := K\<rparr>), [], [])"
    by (intro reads_char) (use running in \<open>auto simp: isParsed_def\<close>)
  ultimately show ?thesis by (rule reads_line)
qed

lemma reads_field:
  assumes "plain k" "CHR '':'' \<notin> set k" "value_ok v" "h_state h = K" "m \<le> length k"
  shows "\<exists>j\<le>2. reads f (k @ '': '' @ v @ [SP] @ CRLF) (clean_h m h, [], [])
    (clean_h j (h\<lparr>h_headers := smap_set k (strip v @ [SP]) (h_headers h)\<rparr>), [], [])"
proof (intro exI conjI)
  let ?j = "Suc (length v - length (strip v))"
  have "reads f ((k @ '':'') @ ((SP # v @ [SP]) @ CRLF)) (clean_h m h, [], [])
     (clean_h ?j (h\<lparr>h_state := V, h_headers := smap_set k (strip v @ [SP]) (h_headers h), h_state := K\<rparr>), [], [])"
    using reads_append [OF reads_key [OF assms(1,2,4,5)] reads_value [OF assms(3), of "h\<lparr>h_state := V\<rparr>" k]]
    by simp
  moreover have "h\<lparr>h_state := V, h_headers := x, h_state := K\<rparr> = h\<lparr>h_headers := x\<rparr>" for x
    by (rule http_header.equality) (use assms(4) in simp_all)
  ultimately show "reads f (k @ '': '' @ v @ [SP] @ CRLF) (clean_h m h, [], [])
    (clean_h ?j (h\<lparr>h_headers := smap_set k (strip v @ [SP]) (h_headers h)\<rparr>), [], [])" by simp
  have "length v \<le> length (strip v) + 1" using assms(3) by (simp add: value_ok_def)
  then show "?j \<le> 2" by linarith
qed

lemma reads_fields:
  assumes "header_ok m" "h_state h = K" "h_headers h = received_headers m0" "header_ok (m0 @ m)" "j0 \<le> 2"
  shows "\<exists>j\<le>2. reads f (concat (map (\<lambda>(k, v). c_str k @ '': '' @ c_str v @ [SP] @ CRLF) m))
    (clean_h j0 h, [], []) (clean_h j (h\<lparr>h_headers := received_headers (m0 @ m)\<rparr>), [], [])"
  using assms
proof (induction m arbitrary: h m0 j0)
  case Nil
  have "h\<lparr>h_headers := received_headers m0\<rparr> = h"
    by (rule http_header.equality) (use Nil in simp_all)
  then show ?case using Nil.prems(5) by auto
next
  case (Cons x m)
  obtain k v where x: "x = (k, v)" by (cases x)
  have kv: "plain k" "CHR '':'' \<notin> set k" "value_ok v" "2 \<le> length k" using Cons.prems(1) x by (auto simp: header_ok_def)
  have c: "c_str k = k" "c_str v = v" using kv by (auto simp: plain_def value_ok_def cstr_simps)
  have "\<forall>(k', v')\<in>set (received_headers m0). k' < k"
    using Cons.prems(4) x by (auto simp: header_ok_def smap_ok_def received_headers_def sorted_wrt_append)
  then have set_: "smap_set k (strip v @ [SP]) (h_headers h) = received_headers (m0 @ [x])"
    using smap_set_last [of "received_headers m0" k "strip v @ [SP]"] Cons.prems(3) x
    by (simp add: received_headers_def)
  let ?h = "h\<lparr>h_headers := received_headers (m0 @ [x])\<rparr>"
  obtain j1 where j1: "j1 \<le> 2" "reads f (k @ '': '' @ v @ [SP] @ CRLF) (clean_h j0 h, [], []) (clean_h j1 ?h, [], [])"
    using reads_field [OF kv(1-3) Cons.prems(2), of j0] Cons.prems(5) kv(4) set_ by auto
  have "\<exists>j\<le>2. reads f (concat (map (\<lambda>(k, v). c_str k @ '': '' @ c_str v @ [SP] @ CRLF) m))
      (clean_h j1 ?h, [], []) (clean_h j (?h\<lparr>h_headers := received_headers ((m0 @ [x]) @ m)\<rparr>), [], [])"
    by (rule Cons.IH) (use Cons.prems j1(1) in \<open>auto simp: header_ok_def smap_ok_def\<close>)
  then obtain j where j: "j \<le> 2" "reads f (concat (map (\<lambda>(k, v). c_str k @ '': '' @ c_str v @ [SP] @ CRLF) m))
      (clean_h j1 ?h, [], []) (clean_h j (?h\<lparr>h_headers := received_headers ((m0 @ [x]) @ m)\<rparr>), [], [])"
    by blast
  show ?case
    using reads_append [OF j1(2) j(2)] j(1) by (intro exI [of _ j]) (simp add: x c)
qed

lemma run_fields:
  assumes "header_ok m" "h_state h = K" "h_headers h = []" "map snd xs = concat (header_lines m)"
  shows "\<exists>j. run f isParsed (xs @ ys) (clean_h 0 h, [], []) =
    Done ((clean_h j (h\<lparr>h_headers := received_headers m, h_state := END, h_bodyStart := fst (last xs)\<rparr>), [], []),
      False, length xs)"
proof -
  let ?t = "concat (map (\<lambda>(k, v). c_str k @ '': '' @ c_str v @ [SP] @ CRLF) m)"
  let ?h = "h\<lparr>h_headers := received_headers m\<rparr>"
  have t: "map snd xs = ?t @ CRLF" using assms(4) by (simp add: header_lines_def)
  obtain xs1 xs2 where xs1: "xs = xs1 @ xs2" "map snd xs1 = ?t" "map snd xs2 = CRLF"
    by (rule map_append_split [OF t])
  from xs1(3) obtain i1 i2 where xs2: "xs2 = [(i1, CR), (i2, LF)]" by (auto simp: map_eq_Cons_conv)
  obtain j where j: "reads f ?t (clean_h 0 h, [], []) (clean_h j ?h, [], [])"
    using reads_fields [of m h "[]" 0] assms by (auto simp: received_headers_def)
  have b: "f i1 CR (clean_h j ?h, [], []) = Done (Next ((clean_h j ?h)\<lparr>h_state := E\<rparr>, [], []))"
    by (rule block_end) (simp_all add: assms MAX_KEY_LEN_def)
  have e: "f i2 LF ((clean_h j ?h)\<lparr>h_state := E\<rparr>, [], []) =
      Done (Next (((clean_h j ?h)\<lparr>h_state := E\<rparr>)\<lparr>h_state := END, h_bodyStart := i2\<rparr>, [], []))"
    by (rule finish) (simp_all add: MAX_KEY_LEN_def)
  have upd: "((clean_h j ?h)\<lparr>h_state := E\<rparr>)\<lparr>h_state := END, h_bodyStart := i2\<rparr> =
      clean_h j (?h\<lparr>h_state := END, h_bodyStart := i2\<rparr>)"
    by (rule http_header.equality) (simp_all add: clean_h_def)
  have "run f isParsed (xs2 @ ys) (clean_h j ?h, [], []) =
      Done ((clean_h j (?h\<lparr>h_state := END, h_bodyStart := i2\<rparr>), [], []), False, 2)"
    using b e running assms(2) upd by (cases ys) (auto simp: xs2 isParsed_def)
  moreover have "length ?t = length xs1" using arg_cong [OF xs1(2), of length] by (metis length_map)
  ultimately have "run f isParsed (xs1 @ xs2 @ ys) (clean_h 0 h, [], []) =
      Done ((clean_h j (?h\<lparr>h_state := END, h_bodyStart := i2\<rparr>), [], []), False, length xs1 + 2)"
    using reads_run [OF j xs1(2), of "xs2 @ ys"] by (simp only: bind_outcome.simps prod.case)
  then show ?thesis by (intro exI [of _ j]) (simp add: xs1(1) xs2)
qed

end

section \<open>Requests\<close>

definition request_ok :: "http_request \<Rightarrow> bool" where
  "request_ok h \<longleftrightarrow> rq_method h \<in> {''GET'', ''POST''} \<and> plain (rq_path h) \<and> SP \<notin> set (rq_path h)
     \<and> plain (h_version h) \<and> header_ok (h_headers h)"

lemma stores_req [simp]:
  "stores req_turn REQ_PATH c \<longleftrightarrow> c \<noteq> SP" if "c \<noteq> SP"
  using that by (auto simp: stores_def req_turn_def GetPendSize_def)

lemma stores_req_version: "c \<noteq> CR \<Longrightarrow> stores req_turn REQ_VESION_R c"
  by (auto simp: stores_def req_turn_def GetPendSize_def)

lemma stores_req_key: "c \<noteq> CR \<Longrightarrow> c \<noteq> CHR '':'' \<Longrightarrow> stores req_turn REQ_KEY c"
  by (auto simp: stores_def req_turn_def GetPendSize_def)

lemma stores_req_value: "c \<noteq> CR \<Longrightarrow> stores req_turn REQ_VALUE_R c"
  by (auto simp: stores_def req_turn_def GetPendSize_def)

lemma take_drop_tail:
  "n \<le> length u \<Longrightarrow> take n (drop (length u - n) (u @ r)) = drop (length u - n) u"
  by simp

lemma isMethodFound_tok:
  assumes "Suc (length t) < MAX_KEY_LEN"
  shows "isMethodFound c (tok_h t h) = Done (ends_in_method (t @ [c]),
    if ends_in_method (t @ [c]) then (tok_h (t @ [c]) h)\<lparr>h_pos := 0\<rparr> else tok_h (t @ [c]) h)"
proof -
  have nz: "\<not> MAX_KEY_LEN \<le> h_pos (tok_h (t @ [c]) h)" using assms by simp
  have tail: "length m \<le> h_pos (tok_h (t @ [c]) h) \<and>
      take (length m) (drop (h_pos (tok_h (t @ [c]) h) - length m) (h_buf (tok_h (t @ [c]) h))) = m \<longleftrightarrow>
      length m \<le> length (t @ [c]) \<and> drop (length (t @ [c]) - length m) (t @ [c]) = m" for m
    unfolding tok_h_def by (auto simp: take_drop_tail simp del: drop_append length_append append_assoc)
  show ?thesis
    unfolding isMethodFound_def put_char_tok [OF Suc_lessD [OF assms]] bind_outcome.simps Let_def
      if_not_P [OF nz] tail ends_in_method_def
    by (simp del: list.size length_append)
qed

lemma reads_START_char:
  assumes "Suc (length t) < MAX_KEY_LEN" "h_state h = START" "\<not> ends_in_method (t @ [c])"
  shows "reads req_turn [c] (tok_h t h, k, v) (tok_h (t @ [c]) h, k, v)"
  by (rule reads_char)
    (use assms in \<open>simp_all add: req_turn_def GetPendSize_def isMethodFound_tok isParsed_def\<close>)

lemma reads_method:
  assumes "m \<in> {''GET'', ''POST''}" "h_state h = START"
  shows "reads req_turn (m @ [SP]) (clean_h 0 h, k, v)
    (clean_h 0 (h\<lparr>rq_method := m @ [SP], h_state := REQ_PATH\<rparr>), k, v)"
proof -
  have end_: "reads req_turn [SP] (tok_h m h, k, v)
      (clean_h 0 (h\<lparr>rq_method := m @ [SP], h_state := REQ_PATH\<rparr>), k, v)"
  proof (rule reads_char)
    fix i
    have e: "ends_in_method (m @ [SP])" using assms(1) by (auto simp: ends_in_method_def)
    have "MoveBufTo [] ((tok_h (m @ [SP]) h)\<lparr>h_pos := 0\<rparr>) = Done ([] @ (m @ [SP]), clean_h 0 ((tok_h (m @ [SP]) h)\<lparr>h_pos := 0\<rparr>))"
      by (rule MoveBufTo_tok) (use assms(1) in \<open>auto simp: tok_h_def MAX_KEY_LEN_def\<close>)
    moreover have "clean_h 0 ((tok_h (m @ [SP]) h)\<lparr>h_pos := 0\<rparr>) = clean_h 0 h" by (simp add: clean_h_def tok_h_def)
    ultimately show "req_turn i SP (tok_h m h, k, v) =
        Done (Next (clean_h 0 (h\<lparr>rq_method := m @ [SP], h_state := REQ_PATH\<rparr>), k, v))"
      using assms e by (auto simp: req_turn_def GetPendSize_def isMethodFound_tok with_outcome_def MAX_KEY_LEN_def)
  qed (use assms(2) in \<open>simp add: isParsed_def\<close>)
  have step: "reads req_turn [c] (tok_h t h, k, v) (tok_h (t @ [c]) h, k, v)"
    if "length t < 4" "c \<noteq> SP" for t c
    by (rule reads_START_char)
      (use that assms(2) in \<open>auto simp: MAX_KEY_LEN_def ends_in_method_def dest: arg_cong [where f = last]\<close>)
  have pre: "reads req_turn u (tok_h t h, k, v) (tok_h (t @ u) h, k, v)"
    if "length t + length u \<le> 4" "SP \<notin> set u" for t u
    using that
  proof (induction u arbitrary: t)
    case (Cons c u)
    have "reads req_turn ([c] @ u) (tok_h t h, k, v) (tok_h ((t @ [c]) @ u) h, k, v)"
      by (rule reads_append [OF step Cons.IH]) (use Cons.prems in auto)
    then show ?case by simp
  qed auto
  have "reads req_turn m (tok_h [] h, k, v) (tok_h ([] @ m) h, k, v)"
    by (rule pre) (use assms(1) in auto)
  then show ?thesis using end_ by (simp add: tok_Nil reads_append)
qed

lemma reads_path:
  assumes "plain p" "SP \<notin> set p" "h_state h = REQ_PATH" "rq_path h = []"
  shows "reads req_turn (p @ [SP]) (clean_h 0 h, k, v)
    (clean_h 0 (h\<lparr>rq_path := p, h_state := REQ_VESION_R\<rparr>), k, v)"
proof (rule reads_append)
  have p: "\<forall>c\<in>set p. c \<noteq> SP" using assms(2) by auto
  show "reads req_turn p (clean_h 0 h, k, v) (tok_h p h, k, v)"
    by (rule reads_token) (use assms p in \<open>auto simp: plain_def\<close>)
  have "MoveBufTo (rq_path h) (tok_h (replicate 0 SP @ p) h) = Done (rq_path h @ p, clean_h 0 h)"
    by (rule MoveBufTo_tok_h) (use assms in \<open>auto simp: plain_def\<close>)
  then show "reads req_turn [SP] (tok_h p h, k, v) (clean_h 0 (h\<lparr>rq_path := p, h_state := REQ_VESION_R\<rparr>), k, v)"
    by (intro reads_char)
      (use assms in \<open>auto simp: req_turn_def GetPendSize_def with_outcome_def isParsed_def plain_def\<close>)
qed

lemma reads_version:
  assumes "plain t" "h_state h = REQ_VESION_R"
  shows "reads req_turn (t @ CRLF) (clean_h 0 h, k, v)
    (clean_h 0 (h\<lparr>h_version := t, h_state := REQ_KEY\<rparr>), k, v)"
proof -
  have "reads req_turn t (clean_h 0 h, k, v) (tok_h t h, k, v)"
    by (rule reads_token) (use assms in \<open>auto simp: plain_def intro!: stores_req_version\<close>)
  moreover have "MoveBufTo [] (tok_h (replicate 0 SP @ t) h) = Done ([] @ t, clean_h 0 h)"
    by (rule MoveBufTo_tok_h) (use assms in \<open>auto simp: plain_def\<close>)
  then have "reads req_turn [CR] (tok_h t h, k, v) (clean_h 0 (h\<lparr>h_version := t, h_state := REQ_VESION_N\<rparr>), k, v)"
    by (intro reads_char)
      (use assms in \<open>auto simp: req_turn_def GetPendSize_def with_outcome_def isParsed_def plain_def\<close>)
  moreover have "reads req_turn [LF] (clean_h 0 (h\<lparr>h_version := t, h_state := REQ_VESION_N\<rparr>), k, v)
      (clean_h 0 (h\<lparr>h_version := t, h_state := REQ_KEY\<rparr>), k, v)"
    by (intro reads_char) (auto simp: req_turn_def GetPendSize_def isParsed_def MAX_KEY_LEN_def)
  ultimately show ?thesis by (rule reads_line)
qed

interpretation req: header_parser req_turn REQ_KEY REQ_VALUE_R REQ_VALUE_N REQ_END_R
  by unfold_locales (auto simp: req_turn_def GetPendSize_def with_outcome_def stores_req_key stores_req_value)

text \<open>
  A request written by \<open>SerializeHeader\<close> is read back by \<open>ParserHeader\<close>, whatever follows it,
  with a space behind the method and behind every value.
\<close>

theorem request_roundtrip:
  assumes h: "request_ok h" and xs: "map snd xs = concat (HttpRequest_lines h)"
  shows "\<exists>j. parse_bytes req_turn (xs @ ys) (HttpRequestHeader_Reset r) =
    Done (HTTP_PASER_FINISH, clean_h j (r\<lparr>h_headers := received_headers (h_headers h),
      h_version := h_version h, h_state := END, h_bodyStart := fst (last xs),
      rq_method := rq_method h @ [SP], rq_path := rq_path h\<rparr>), length xs)"
proof -
  let ?m = "rq_method h" and ?p = "rq_path h" and ?v = "h_version h"
  let ?r = "HttpRequestHeader_Reset r"
  have ok: "?m \<in> {''GET'', ''POST''}" "plain ?p" "SP \<notin> set ?p" "plain ?v" "header_ok (h_headers h)"
    using h by (auto simp: request_ok_def)
  have c: "c_str ?m = ?m" "c_str ?p = ?p" "c_str ?v = ?v"
    using ok by (auto simp: plain_def cstr_simps)
  have "map snd xs = (((?m @ [SP]) @ (?p @ [SP])) @ (?v @ CRLF)) @ concat (header_lines (h_headers h))"
    using xs by (simp add: HttpRequest_lines_def c)
  then obtain xs1 xs2 where s: "xs = xs1 @ xs2" "map snd xs1 = ((?m @ [SP]) @ (?p @ [SP])) @ (?v @ CRLF)"
    "map snd xs2 = concat (header_lines (h_headers h))"
    by (rule map_append_split)
  let ?r1 = "?r\<lparr>rq_method := ?m @ [SP], h_state := REQ_PATH\<rparr>"
  let ?r2 = "?r1\<lparr>rq_path := ?p, h_state := REQ_VESION_R\<rparr>"
  let ?r3 = "?r2\<lparr>h_version := ?v, h_state := REQ_KEY\<rparr>"
  have r0: "clean_h 0 ?r = ?r"
    by (rule http_request.equality)
      (simp_all add: clean_h_def HttpRequestHeader_Reset_def HttpHeader_Reset_def)
  have "reads req_turn (((?m @ [SP]) @ (?p @ [SP])) @ (?v @ CRLF)) (clean_h 0 ?r, [], []) (clean_h 0 ?r3, [], [])"
    by (intro reads_append [OF reads_append [OF reads_method reads_path] reads_version])
      (use ok in \<open>auto simp: HttpRequestHeader_Reset_def HttpHeader_Reset_def\<close>)
  note R1 = reads_run [OF this s(2), of "xs2 @ ys"]
  have ne: "xs2 \<noteq> []" using s(3) by (auto simp: header_lines_def)
  obtain j where "run req_turn isParsed (xs2 @ ys) (clean_h 0 ?r3, [], []) =
    Done ((clean_h j (?r3\<lparr>h_headers := received_headers (h_headers h), h_state := END,
      h_bodyStart := fst (last xs2)\<rparr>), [], []), False, length xs2)"
    using req.run_fields [OF ok(5) _ _ s(3), of ?r3 ys]
    by (auto simp: HttpRequestHeader_Reset_def HttpHeader_Reset_def)
  note R2 = R1 [unfolded this bind_outcome.simps prod.case r0]
  have len: "length (((?m @ [SP]) @ (?p @ [SP])) @ (?v @ CRLF)) = length xs1"
    using arg_cong [OF s(2), of length] by (metis length_map)
  let ?o = "r\<lparr>h_headers := received_headers (h_headers h),
      h_version := h_version h, h_state := END, h_bodyStart := fst (last xs),
      rq_method := rq_method h @ [SP], rq_path := rq_path h\<rparr>"
  have "clean_h j (?r3\<lparr>h_headers := received_headers (h_headers h), h_state := END,
      h_bodyStart := fst (last xs2)\<rparr>) = clean_h j ?o"
    by (rule http_request.equality)
      (simp_all add: clean_h_def HttpRequestHeader_Reset_def HttpHeader_Reset_def s(1) ne)
  note R3 = R2 [unfolded this len]
  show ?thesis
    by (rule exI [of _ j]) (simp add: parse_bytes_def s(1) R3 [simplified] parse_result_def)
qed

section \<open>Responses\<close>

definition response_ok :: "http_response \<Rightarrow> bool" where
  "response_ok h \<longleftrightarrow> plain (h_version h) \<and> SP \<notin> set (h_version h) \<and> plain (rs_status_msg h)
     \<and> header_ok (h_headers h)"

lemma stores_res_word: "c \<noteq> SP \<Longrightarrow> stores res_turn START c" "c \<noteq> SP \<Longrightarrow> stores res_turn RES_STATUS c"
  by (auto simp: stores_def res_turn_def)

lemma stores_res_line:
  "c \<noteq> CR \<Longrightarrow> stores res_turn RES_STATUS_MESSAGE_R c" "c \<noteq> CR \<Longrightarrow> stores res_turn RES_VALUE_R c"
  "c \<noteq> CR \<Longrightarrow> c \<noteq> CHR '':'' \<Longrightarrow> stores res_turn RES_KEY c"
  by (auto simp: stores_def res_turn_def)

interpretation res: header_parser res_turn RES_KEY RES_VALUE_R RES_VALUE_N RES_END_R
  by unfold_locales (auto simp: res_turn_def with_outcome_def stores_res_line)

lemma MoveBufTo_u_tok:
  assumes "NUL \<notin> set w" "w = [] \<or> hd w \<noteq> SP" "length w < MAX_KEY_LEN"
  shows "MoveBufTo_u s (tok_h w h) = Done (scan_u w s, clean_h 0 h)"
proof -
  obtain n where n: "MAX_KEY_LEN - length w = Suc n" using assms(3) by (cases "MAX_KEY_LEN - length w") auto
  then have N: "MAX_KEY_LEN = length w + Suc n" by simp
  let ?b = "w @ replicate (Suc n) NUL"
  have b: "h_buf (tok_h w h) = ?b" by (simp add: tok_h_def n)
  have t: "buf_token ?b = (0, w)" using buf_token_tok [OF assms(1,2), of 0 n] by simp
  have c: "c_str ?b = w" using assms(1) by (simp add: c_str_def takeWhile_append takeWhile_eq_all_conv)
  have "replicate (length w) NUL @ drop (length w) ?b = replicate MAX_KEY_LEN NUL"
    unfolding N by (simp add: replicate_add replicate_append_same)
  then show ?thesis
    unfolding MoveBufTo_u_def b t c by (simp add: tok_h_def clean_h_def)
qed

lemma strtoull_dec_str:
  assumes "\<And>c cs. r = c # cs \<Longrightarrow> \<not> is_digit c" "n < 2 ^ 64"
  shows "strtoull (dec_str n @ r) = word_of_nat n"
proof -
  have "\<And>c cs. c_str r = c # cs \<Longrightarrow> \<not> is_digit c"
    using assms(1) by (cases r) (auto simp: c_str_def split: if_splits)
  then show ?thesis using assms(2) by (simp add: strtoull_def cstr_simps)
qed

lemma word_through_64: "ucast (word_of_nat (unat (n :: 32 word)) :: 64 word) = n"
  by transfer (simp add: take_bit_int_eq_self nat_less_iff)

lemma scan_u_dec_str: "scan_u (dec_str (unat (n :: 32 word))) s = n"
proof -
  have "unat n < 2 ^ 32" using unsigned_less [of n, where ?'a = nat] by simp
  then have "strtoull (dec_str (unat n) @ []) = word_of_nat (unat n)" by (intro strtoull_dec_str) auto
  then show ?thesis
    using c_number_dec_str [of "[]" "unat n"] by (simp add: scan_u_def word_through_64 del: of_nat_unat)
qed

lemma length_dec_str: "n < 10 ^ k \<Longrightarrow> 0 < k \<Longrightarrow> length (dec_str n) \<le> k"
proof (induction n arbitrary: k rule: dec_str.induct)
  case (1 n)
  show ?case
  proof (cases "n < 10")
    case False
    then obtain j where k: "k = Suc j" "0 < j" using 1(2,3) by (cases k; cases "k - 1") auto
    have "length (dec_str (n div 10)) \<le> j" by (rule 1(1)) (use False k 1(2) in auto)
    then show ?thesis using False k by (subst dec_str.simps) simp
  qed (use 1 in \<open>subst dec_str.simps, simp\<close>)
qed

lemma dec_str_chars: "c \<in> set (dec_str n) \<Longrightarrow> is_digit c"
  using dec_str_digits [of n] by (auto simp: list_all_iff)

lemma reads_res_version:
  assumes "plain t" "SP \<notin> set t" "h_state h = START"
  shows "reads res_turn (t @ [SP]) (clean_h 0 h, [], []) (clean_h 0 (h\<lparr>h_state := RES_STATUS\<rparr>), [], [])"
proof (rule reads_append)
  have p: "\<forall>c\<in>set t. c \<noteq> SP" using assms(2) by auto
  show "reads res_turn t (clean_h 0 h, [], []) (tok_h t h, [], [])"
    by (rule reads_token) (use assms p in \<open>auto simp: plain_def intro!: stores_res_word\<close>)
  have "MoveBufTo [] (tok_h (replicate 0 SP @ t) h) = Done ([] @ t, clean_h 0 h)"
    by (rule MoveBufTo_tok_h) (use assms in \<open>auto simp: plain_def\<close>)
  then show "reads res_turn [SP] (tok_h t h, [], []) (clean_h 0 (h\<lparr>h_state := RES_STATUS\<rparr>), [], [])"
    by (intro reads_char) (use assms in \<open>auto simp: res_turn_def with_outcome_def isParsed_def\<close>)
qed

lemma reads_res_status:
  assumes "h_state h = RES_STATUS"
  shows "reads res_turn (dec_str (unat n) @ [SP]) (clean_h 0 h, [], [])
    (clean_h 0 (h\<lparr>rs_status := n, h_state := RES_STATUS_MESSAGE_R\<rparr>), [], [])"
proof (rule reads_append)
  let ?t = "dec_str (unat n)"
  have "unat n < 10 ^ 10" using unsigned_less [of n, where ?'a = nat] by simp
  then have len: "length ?t \<le> 10" by (rule length_dec_str) simp
  have d: "c \<noteq> SP" "c \<noteq> NUL" if "c \<in> set ?t" for c
    using dec_str_chars [OF that] digit_not_special by auto
  then show "reads res_turn ?t (clean_h 0 h, [], []) (tok_h ?t h, [], [])"
    by (intro reads_token) (use assms len in \<open>auto simp: MAX_KEY_LEN_def intro!: stores_res_word\<close>)
  have "MoveBufTo_u (rs_status h) (tok_h ?t h) = Done (scan_u ?t (rs_status h), clean_h 0 h)"
    by (rule MoveBufTo_u_tok) (use d len in \<open>auto simp: MAX_KEY_LEN_def\<close>)
  then show "reads res_turn [SP] (tok_h ?t h, [], [])
      (clean_h 0 (h\<lparr>rs_status := n, h_state := RES_STATUS_MESSAGE_R\<rparr>), [], [])"
    by (intro reads_char) (use assms in \<open>auto simp: res_turn_def with_outcome_def isParsed_def scan_u_dec_str\<close>)
qed

lemma reads_res_message:
  assumes "plain t" "h_state h = RES_STATUS_MESSAGE_R" "rs_status_msg h = []"
  shows "reads res_turn (t @ CRLF) (clean_h 0 h, [], [])
    (clean_h 0 (h\<lparr>rs_status_msg := t, h_state := RES_KEY\<rparr>), [], [])"
proof -
  have "reads res_turn t (clean_h 0 h, [], []) (tok_h t h, [], [])"
    by (rule reads_token) (use assms in \<open>auto simp: plain_def intro!: stores_res_line\<close>)
  moreover have "MoveBufTo [] (tok_h (replicate 0 SP @ t) h) = Done ([] @ t, clean_h 0 h)"
    by (rule MoveBufTo_tok_h) (use assms in \<open>auto simp: plain_def\<close>)
  then have "reads res_turn [CR] (tok_h t h, [], [])
      (clean_h 0 (h\<lparr>rs_status_msg := t, h_state := RES_STATUS_MESSAGE_N\<rparr>), [], [])"
    by (intro reads_char) (use assms in \<open>auto simp: res_turn_def with_outcome_def isParsed_def\<close>)
  moreover have "reads res_turn [LF] (clean_h 0 (h\<lparr>rs_status_msg := t, h_state := RES_STATUS_MESSAGE_N\<rparr>), [], [])
      (clean_h 0 (h\<lparr>rs_status_msg := t, h_state := RES_KEY\<rparr>), [], [])"
    by (intro reads_char) (auto simp: res_turn_def isParsed_def)
  ultimately show ?thesis by (rule reads_line)
qed

theorem response_roundtrip:
  assumes h: "response_ok h" and xs: "map snd xs = concat (HttpReponse_lines h)"
  shows "\<exists>j. parse_bytes res_turn (xs @ ys) (HttpReponseHeader_Reset r) =
    Done (HTTP_PASER_FINISH, clean_h j (r\<lparr>h_headers := received_headers (h_headers h),
      h_version := ''HTTP/1.1'', h_state := END, h_bodyStart := fst (last xs),
      rs_status := rs_status h, rs_status_msg := rs_status_msg h\<rparr>), length xs)"
proof -
  let ?v = "h_version h" and ?n = "dec_str (unat (rs_status h))" and ?m = "rs_status_msg h"
  let ?r = "HttpReponseHeader_Reset r"
  have ok: "plain ?v" "SP \<notin> set ?v" "plain ?m" "header_ok (h_headers h)"
    using h by (auto simp: response_ok_def)
  have c: "c_str ?v = ?v" "c_str ?m = ?m" using ok by (auto simp: plain_def cstr_simps)
  have "map snd xs = (((?v @ [SP]) @ (?n @ [SP])) @ (?m @ CRLF)) @ concat (header_lines (h_headers h))"
    using xs by (simp add: HttpReponse_lines_def c)
  then obtain xs1 xs2 where s: "xs = xs1 @ xs2" "map snd xs1 = ((?v @ [SP]) @ (?n @ [SP])) @ (?m @ CRLF)"
    "map snd xs2 = concat (header_lines (h_headers h))"
    by (rule map_append_split)
  let ?r1 = "?r\<lparr>h_state := RES_STATUS\<rparr>"
  let ?r2 = "?r1\<lparr>rs_status := rs_status h, h_state := RES_STATUS_MESSAGE_R\<rparr>"
  let ?r3 = "?r2\<lparr>rs_status_msg := ?m, h_state := RES_KEY\<rparr>"
  have r0: "clean_h 0 ?r = ?r"
    by (rule http_response.equality)
      (simp_all add: clean_h_def HttpReponseHeader_Reset_def HttpHeader_Reset_def)
  have "reads res_turn (((?v @ [SP]) @ (?n @ [SP])) @ (?m @ CRLF)) (clean_h 0 ?r, [], []) (clean_h 0 ?r3, [], [])"
    by (intro reads_append [OF reads_append [OF reads_res_version reads_res_status] reads_res_message])
      (use ok in \<open>auto simp: HttpReponseHeader_Reset_def HttpHeader_Reset_def\<close>)
  note R1 = reads_run [OF this s(2), of "xs2 @ ys"]
  have ne: "xs2 \<noteq> []" using s(3) by (auto simp: header_lines_def)
  obtain j where "run res_turn isParsed (xs2 @ ys) (clean_h 0 ?r3, [], []) =
    Done ((clean_h j (?r3\<lparr>h_headers := received_headers (h_headers h), h_state := END,
      h_bodyStart := fst (last xs2)\<rparr>), [], []), False, length xs2)"
    using res.run_fields [OF ok(4) _ _ s(3), of ?r3 ys]
    by (auto simp: HttpReponseHeader_Reset_def HttpHeader_Reset_def)
  note R2 = R1 [unfolded this bind_outcome.simps prod.case r0]
  have len: "length (((?v @ [SP]) @ (?n @ [SP])) @ (?m @ CRLF)) = length xs1"
    using arg_cong [OF s(2), of length] by (metis length_map)
  have "clean_h j (?r3\<lparr>h_headers := received_headers (h_headers h), h_state := END,
      h_bodyStart := fst (last xs2)\<rparr>) = clean_h j (r\<lparr>h_headers := received_headers (h_headers h),
      h_version := ''HTTP/1.1'', h_state := END, h_bodyStart := fst (last xs),
      rs_status := rs_status h, rs_status_msg := ?m\<rparr>)"
    by (rule http_response.equality)
      (simp_all add: clean_h_def HttpReponseHeader_Reset_def HttpHeader_Reset_def s(1) ne)
  note R3 = R2 [unfolded this len]
  show ?thesis
    by (rule exI [of _ j]) (simp add: parse_bytes_def s(1) R3 [simplified] parse_result_def)
qed

section \<open>The fields the RPC layer adds\<close>

lemma map_of_received: "map_of (received_headers m) k = map_option (\<lambda>v. strip v @ [SP]) (map_of m k)"
  by (induction m) (auto simp: received_headers_def)

lemma plain_dec_str: "n < 10 ^ 20 \<Longrightarrow> plain (dec_str n)"
  using length_dec_str [of n 20] hd_dec_str [of n] digit_not_special
  by (auto simp: plain_def MAX_KEY_LEN_def dest: dec_str_chars)

lemma strip_dec_str [simp]: "strip (dec_str n) = dec_str n"
proof -
  have "hd (dec_str n) \<noteq> SP" using hd_dec_str [of n] by (auto simp: is_digit_def)
  then show ?thesis by (cases "dec_str n") (auto simp: strip_def)
qed

lemma smap_set_items: "set (smap_set k v m) \<subseteq> insert (k, v) (set m)"
  by (induction k v m rule: smap_set.induct) auto

lemma header_ok_set:
  assumes "header_ok m" "plain k" "2 \<le> length k" "CHR '':'' \<notin> set k" "value_ok v"
  shows "header_ok (smap_set k v m)"
  using assms smap_set_items [of k v m] by (auto simp: header_ok_def)

lemma key_facts [simp]:
  "plain Content_Length_key" "CHR '':'' \<notin> set Content_Length_key" "2 \<le> length Content_Length_key" "2 \<le> length Seq_key"
  "plain Seq_key" "CHR '':'' \<notin> set Seq_key" "Seq_key \<noteq> Content_Length_key" "Content_Length_key \<noteq> Seq_key"
  by (simp_all add: plain_def Content_Length_key_def Seq_key_def MAX_KEY_LEN_def)

lemma header_ok_rpc:
  assumes "header_ok (h_headers h)"
  shows "header_ok (h_headers (SetContentLength n (SetSeq s h)))"
proof -
  have "unat n < 10 ^ 20" "unat s < 10 ^ 20"
    using unsigned_less [of n, where ?'a = nat] unsigned_less [of s, where ?'a = nat] by simp_all
  then show ?thesis
    using assms by (simp add: SetContentLength_def SetSeq_def SetHeader_def header_ok_set plain_dec_str value_ok_plain)
qed

lemma strtol_dec_str: "n < 2 ^ 63 \<Longrightarrow> strtol (dec_str n @ [SP]) = int n"
proof -
  have "c_str (dec_str n @ [SP]) = dec_str n @ [SP]" by (subst dec_str_no_NUL) (simp add: c_str_def)
  then show "n < 2 ^ 63 \<Longrightarrow> ?thesis"
    using c_number_dec_str [of "[SP]" n] by (simp add: strtol_def is_digit_def)
qed

lemma GetContentLength_received:
  assumes "smap_ok (h_headers h)" "h_headers h' = received_headers (h_headers (SetContentLength n (SetSeq s h)))"
  shows "GetContentLength h' = signed_take_bit 31 (int (unat n))"
proof -
  have "unat n < 2 ^ 63" using unsigned_less [of n, where ?'a = nat] by simp
  then show ?thesis
    using assms by (simp add: GetContentLength_def map_of_received SetContentLength_def SetSeq_def
        SetHeader_def strtol_dec_str)
qed

lemma GetSeq_received:
  assumes "smap_ok (h_headers h)" "h_headers h' = received_headers (h_headers (SetContentLength n (SetSeq s h)))"
  shows "GetSeq h' = s"
proof -
  have "unat s < 2 ^ 64" using unsigned_less [of s, where ?'a = nat] by simp
  then have "strtoull (dec_str (unat s) @ [SP]) = word_of_nat (unat s)"
    by (intro strtoull_dec_str) (auto simp: is_digit_def)
  then show ?thesis
    using assms by (simp add: GetSeq_def map_of_received SetContentLength_def SetSeq_def SetHeader_def)
qed

lemma header_ok_smap: "header_ok m \<Longrightarrow> smap_ok m"
  by (simp add: header_ok_def)

lemma length_as_int: "k < 2 ^ 31 \<Longrightarrow> signed_take_bit 31 (int k) = int k"
  by (rule signed_take_bit_int_eq_self) auto

theorem request_fields_arrive:
  assumes h: "request_ok h" and n: "unat n < 2 ^ 31"
    and xs: "map snd xs = concat (HttpRequest_lines (SetContentLength n (SetSeq s h)))"
  shows "\<exists>h'. parse_bytes req_turn (xs @ ys) (HttpRequestHeader_Reset r) = Done (HTTP_PASER_FINISH, h', length xs)
    \<and> rq_path h' = rq_path h \<and> GetContentLength h' = int (unat n) \<and> GetSeq h' = s"
proof -
  have ok: "request_ok (SetContentLength n (SetSeq s h))"
    using h header_ok_rpc [of h n s]
    by (simp add: request_ok_def SetContentLength_def SetSeq_def SetHeader_def)
  have sm: "smap_ok (h_headers h)" using h by (simp add: request_ok_def header_ok_smap)
  from request_roundtrip [OF ok xs, of ys r] obtain h' where
    h': "parse_bytes req_turn (xs @ ys) (HttpRequestHeader_Reset r) = Done (HTTP_PASER_FINISH, h', length xs)"
    "h_headers h' = received_headers (h_headers (SetContentLength n (SetSeq s h)))"
    "rq_path h' = rq_path (SetContentLength n (SetSeq s h))"
    by (elim exE) auto
  then show ?thesis
    using GetContentLength_received [OF sm h'(2)] GetSeq_received [OF sm h'(2)] length_as_int [OF n]
    by (simp add: SetContentLength_def SetSeq_def SetHeader_def)
qed

theorem response_fields_arrive:
  assumes h: "response_ok h" and n: "unat n < 2 ^ 31"
    and xs: "map snd xs = concat (HttpReponse_lines (SetContentLength n (SetSeq s h)))"
  shows "\<exists>h'. parse_bytes res_turn (xs @ ys) (HttpReponseHeader_Reset r) = Done (HTTP_PASER_FINISH, h', length xs)
    \<and> rs_status h' = rs_status h \<and> rs_status_msg h' = rs_status_msg h
    \<and> GetContentLength h' = int (unat n) \<and> GetSeq h' = s"
proof -
  have ok: "response_ok (SetContentLength n (SetSeq s h))"
    using h header_ok_rpc [of h n s]
    by (simp add: response_ok_def SetContentLength_def SetSeq_def SetHeader_def)
  have sm: "smap_ok (h_headers h)" using h by (simp add: response_ok_def header_ok_smap)
  from response_roundtrip [OF ok xs, of ys r] obtain h' where
    h': "parse_bytes res_turn (xs @ ys) (HttpReponseHeader_Reset r) = Done (HTTP_PASER_FINISH, h', length xs)"
    "h_headers h' = received_headers (h_headers (SetContentLength n (SetSeq s h)))"
    "rs_status h' = rs_status (SetContentLength n (SetSeq s h))"
    "rs_status_msg h' = rs_status_msg (SetContentLength n (SetSeq s h))"
    by (elim exE) auto
  then show ?thesis
    using GetContentLength_received [OF sm h'(2)] GetSeq_received [OF sm h'(2)] length_as_int [OF n]
    by (simp add: SetContentLength_def SetSeq_def SetHeader_def)
qed

text \<open>A body that fits into the rest of the piece; the position it leaves counts from the start
  of the body, not of the piece.\<close>

lemma SerializeBody_fits:
  assumes "it_pos it + length d \<le> psz q (it_idx it)" "it_pos it + length d \<le> length (pbuf (q ! it_idx it))"
  shows "SerializeBody addr d q it = Some (Done (poke q (it_idx it) (it_pos it) d, mk_it (it_idx it) (length d)))"
  using assms by (auto simp: SerializeBody_def body_loop.simps poke_def Let_def list_update_id)

end
