(* ===== verification/Packet.thy ===== *)
theory Packet
  imports Http_Wire
begin

text \<open>
  The packet code shared by \<open>RpcChannelImpl::SendToServer\<close> (\<open>rpc/rpc_channel_impl.cpp\<close>) and
  \<open>ServerConnect::SendMessage\<close> (\<open>rpc/rpc_server_connect.cpp\<close>): room for a header is reserved in
  the current piece, the body is serialised from the next piece on, then the header is written
  and its piece cut behind it. The protobuf library is a client of the zero-copy streams: it
  writes the bytes of a message with \<open>zero_copy_write\<close> and reads with \<open>zero_copy_read\<close>.
\<close>

definition MAX_HEADER_SIZE :: nat where
  "MAX_HEADER_SIZE = 1024"

section \<open>Writing a packet\<close>

text \<open>\<open>Reset\<close>, \<open>Reserve\<close>, \<open>packetStart\<close>, \<open>bodyStart\<close> and \<open>BeginPacket\<close>.\<close>

definition begin_packet :: "nat \<Rightarrow> write_buffer \<Rightarrow> write_buffer \<times> (iter \<times> iter) option" where
  "begin_packet dbs b =
     (let (ok, b) = Reserve (Reset dbs b) MAX_HEADER_SIZE in
      if \<not> ok then (b, None)
      else let packetStart = writepos b; (bodyStart, b) = AlignWritePos b
           in (WriteBuffer_BeginPacket b, Some (packetStart, bodyStart)))"

text \<open>\<open>uint32_t content_length = buf.writepos - bodyStart\<close>.\<close>

definition packet_length :: "write_buffer \<Rightarrow> iter \<Rightarrow> 32 word" where
  "packet_length b start = word_of_int (it_diff (que b) (writepos b) start)"

text \<open>\<open>SerializeHeader(packetStart)\<close>; its result is ignored.\<close>

definition put_header :: "string list \<Rightarrow> iter \<Rightarrow> write_buffer \<Rightarrow> write_buffer outcome" where
  "put_header ts packetStart b =
     bind_outcome (serialize_at ts (que b) packetStart) (\<lambda>(_, q). Done (b\<lparr>que := q\<rparr>))"

lemma cdist_split:
  "r < T \<Longrightarrow> s < T \<Longrightarrow> e < T \<Longrightarrow> cdist T r e = cdist T r s + n \<Longrightarrow> cdist T s e = n"
  by (auto simp: cdist_def split: if_splits)

text \<open>An idle buffer: nothing unsent, arrays of the full size, which together fit an \<open>int\<close>.\<close>

definition idle :: "nat \<Rightarrow> write_buffer \<Rightarrow> bool" where
  "idle dbs b \<longleftrightarrow> wf_buf b \<and> isEmpty b \<and> list_all (\<lambda>p. length (pbuf p) = dbs) (que b)
     \<and> length (que b) * dbs < 2 ^ 31"

lemma Reset_idle_full:
  assumes "idle dbs b"
  shows "idle dbs (Reset dbs b)" "free_uniform (Reset dbs b) dbs" "writepos (Reset dbs b) = writepos b"
    "\<forall>t<length (que b). psz (que (Reset dbs b)) t = dbs" "length (que (Reset dbs b)) = length (que b)"
proof -
  have a: "wf_buf b" "isEmpty b" "list_all (\<lambda>p. length (pbuf p) = dbs) (que b)"
    using assms by (auto simp: idle_def)
  have fits: "length (que b) * dbs < 2 ^ 31" using assms by (simp add: idle_def)
  from a have e: "readpos b = writepos b" by (simp add: isEmpty_def)
  then have ring: "\<not> (it_idx (readpos b) = it_idx (writepos b) \<and> it_pos (writepos b) < it_pos (readpos b))"
    by simp
  note R = Reset_que [OF ring, where dbs = dbs]
  have i: "it_idx (readpos b) < length (que b)" using wf_bufD [OF a(1)] by (auto simp: wf_it_def)
  have "t \<in> reset_pieces b" if "t < length (que b)" for t
    using that i e by (auto simp: reset_pieces_def in_ring_walk_Suc simp flip: Suc_eq_plus1)
  then show sz: "\<forall>t<length (que b). psz (que (Reset dbs b)) t = dbs" using R(4) by simp
  have "\<forall>t<length (que b). pbuf (que (Reset dbs b) ! t) = pbuf (que b ! t)" using R(4) by simp
  then have arr: "list_all (\<lambda>p. length (pbuf p) = dbs) (que (Reset dbs b))"
    using a(3) R(3) by (simp add: list_all_length)
  show "idle dbs (Reset dbs b)"
    using Reset_content [OF a(1,3)] a(2) R(1-3) arr fits by (simp add: idle_def isEmpty_def)
  show "free_uniform (Reset dbs b) dbs" by (rule Reset_free [OF a(1) _ ring]) (use e in simp)
  show "writepos (Reset dbs b) = writepos b" "length (que (Reset dbs b)) = length (que b)"
    using R by simp_all
qed

lemma total_uniform: "\<forall>t<length q. psz q t = dbs \<Longrightarrow> total q = length q * dbs"
proof (induction q)
  case (Cons p q)
  have "psize p = dbs" using Cons.prems by force
  moreover have "\<forall>t<length q. psz q t = dbs" using Cons.prems by (metis length_Cons not_less_eq nth_Cons_Suc)
  ultimately show ?case using Cons.IH by (simp add: total_def)
qed (simp add: total_def)

lemma same_layout_arrays:
  assumes "same_layout q q'" "list_all (\<lambda>p. length (pbuf p) = n) q"
  shows "list_all (\<lambda>p. length (pbuf p) = n) q'"
proof -
  have "list_all (\<lambda>x. x = n) (map (length \<circ> pbuf) q)" using assms(2) by (simp add: list.pred_map comp_def)
  then have "list_all (\<lambda>x. x = n) (map (length \<circ> pbuf) q')" using assms(1) by (simp add: same_layout_def)
  then show ?thesis by (simp add: list.pred_map comp_def)
qed

lemma total_shrink: "i < length q \<Longrightarrow> psize p \<le> psz q i \<Longrightarrow> total (q[i := p]) \<le> total q"
proof (induction q arbitrary: i)
  case (Cons x q)
  then show ?case by (cases i) (auto simp: total_def)
qed simp

lemma content_forward:
  assumes "wf_buf b" "content b = c @ d" "wf_it (que b) w"
    and "lin (que b) w = (lin (que b) (readpos b) + length c) mod total (que b)"
  shows "wf_buf (b\<lparr>readpos := w\<rparr>)" "content (b\<lparr>readpos := w\<rparr>) = d"
proof -
  note W = wf_bufD [OF assms(1)]
  show "wf_buf (b\<lparr>readpos := w\<rparr>)" using assms(1,3) by (simp add: wf_buf_def)
  have "length c \<le> cdist (total (que b)) (lin (que b) (readpos b)) (lin (que b) (writepos b))"
    unfolding length_content [OF assms(1), symmetric] assms(2) by simp
  then have "content (b\<lparr>readpos := w\<rparr>) = drop (length c) (content b)"
    using cslice_drop [of "lin (que b) (readpos b)" "flat (que b)" "lin (que b) (writepos b)" "length c"] W assms(4)
    by (simp add: content_def length_flat lin_less)
  then show "content (b\<lparr>readpos := w\<rparr>) = d" by (simp add: assms(2))
qed

lemma cdist_forward:
  assumes "r < T" "w < T" "cdist T r w = n"
  shows "w = (r + n) mod T"
proof (cases "r \<le> w")
  case False
  then have "r + n = T + w" using assms by (simp add: cdist_def)
  then show ?thesis using assms(2) by simp
qed (use assms in \<open>simp add: cdist_def\<close>)

lemma it_add_eq:
  "wf_que q \<Longrightarrow> wf_it q it \<Longrightarrow> it_add q it n = Some r \<Longrightarrow> lin q r = (lin q it + n) mod total q"
  using it_add_lin [of q it n "lin q r = (lin q it + n) mod total q"] by simp

lemma cdist_ahead: "r < T \<Longrightarrow> n < T \<Longrightarrow> cdist T r ((r + n) mod T) = n"
  by (cases "r + n < T") (auto simp: cdist_def le_mod_geq)

text \<open>
  A packet whose header goes to the writing position of \<open>b0\<close>, in a piece of full size with room for it.
  What was unread in \<open>b0\<close> does not matter: the packet is what is unread from its header on.
\<close>

lemma packet_core:
  fixes b0 :: write_buffer
  assumes wf: "wf_buf b0" and arr: "list_all (\<lambda>p. length (pbuf p) = dbs) (que b0)" and T: "total (que b0) < 2 ^ 31"
    and sz: "psz (que b0) (it_idx (writepos b0)) = dbs" and pos: "it_pos (writepos b0) + MAX_HEADER_SIZE \<le> dbs"
    and body: "length body + (dbs - it_pos (writepos b0)) < room b0"
    and u: "free_uniform (snd (AlignWritePos b0)) dbs"
    and ts: "ts \<noteq> []" "concat ts \<noteq> []" "length (concat ts) < MAX_HEADER_SIZE"
  shows "\<exists>b2 b3. zero_copy_write (length body) (WriteBuffer_BeginPacket (snd (AlignWritePos b0))) body = Some b2
    \<and> it_diff (que b2) (writepos b2) (fst (AlignWritePos b0)) = int (length body)
    \<and> put_header ts (writepos b0) b2 = Done b3
    \<and> wf_buf (b3\<lparr>readpos := writepos b0\<rparr>) \<and> content (b3\<lparr>readpos := writepos b0\<rparr>) = concat ts @ body
    \<and> it_diff (que b3) (writepos b3) (writepos b0) = int (length (concat ts @ body))
    \<and> list_all (\<lambda>p. length (pbuf p) = dbs) (que b3) \<and> readpos b3 = readpos b0 \<and> writepos b3 = writepos b2
    \<and> length (que b3) = length (que b0)
    \<and> (\<forall>t<length (que b0). t \<noteq> it_idx (writepos b0) \<longrightarrow> psz (que b3) t = psz (que b0) t)"
proof -
  let ?w = "writepos b0" and ?a = "snd (AlignWritePos b0)" and ?bs = "fst (AlignWritePos b0)" and ?q = "que b0"
  have W: "wf_que ?q" "wf_it ?q ?w" "wf_it ?q (readpos b0)" using wf_bufD [OF wf] by auto
  have i: "it_idx ?w < length ?q" using W by (simp add: wf_it_def)
  have gap: "psz ?q (it_idx ?w) - it_pos ?w < room b0" using sz body by simp
  from align_content [OF wf gap] obtain g where g: "wf_buf ?a" "length g = dbs - it_pos ?w" "content ?a = content b0 @ g"
    using sz by auto
  let ?b1 = "WriteBuffer_BeginPacket ?a"
  have b1: "wf_buf ?b1" "content ?b1 = content b0 @ g" "que ?b1 = ?q" "readpos ?b1 = readpos b0" "writepos ?b1 = ?bs"
    using g by (simp_all add: WriteBuffer_BeginPacket_def wf_buf_def content_def AlignWritePos_def Let_def)
  have u1: "free_uniform ?b1 dbs" using u by (simp add: free_uniform_def free_pieces_def WriteBuffer_BeginPacket_def)
  have "length body < room ?b1" using body g(2) b1(2,3) by (simp add: room_def)
  from zero_copy_write_appends [OF b1(1) u1 this order_refl] obtain b2 where
    b2: "zero_copy_write (length body) ?b1 body = Some b2" "wf_buf b2" "content b2 = content b0 @ g @ body"
      "same_layout ?q (que b2)" "readpos b2 = readpos b0" using b1 by auto
  note L = same_layout_simps [OF b2(4)]
  have wf2: "wf_it (que b2) ?w" "wf_it (que b2) (writepos b2)" "wf_it (que b2) ?bs" "wf_que (que b2)"
    using wf_bufD [OF b2(2)] W wf_bufD [OF b1(1)] b1(3,5) L by auto
  have fw: "lin ?q ?w = (lin ?q (readpos b0) + length (content b0)) mod total ?q"
    using cdist_forward [OF lin_less [OF W(3)] lin_less [OF W(2)]] length_content [OF wf] by simp
  let ?c0 = "b0\<lparr>readpos := ?w\<rparr>" and ?c1 = "?b1\<lparr>readpos := ?w\<rparr>" and ?c2 = "b2\<lparr>readpos := ?w\<rparr>"
  have c0: "wf_buf ?c0" "content ?c0 = []" using content_forward [OF wf _ W(2) fw, of "[]"] by simp_all
  have c1: "wf_buf ?c1" "content ?c1 = g" using content_forward [OF b1(1,2), of ?w] W(2) fw b1(3,4) by simp_all
  have c2: "wf_buf ?c2" "content ?c2 = g @ body" using content_forward [OF b2(2,3) wf2(1)] fw b2(5) L by simp_all
  have sz2: "psz (que b2) (it_idx ?w) = dbs" using same_layout_psz [OF b2(4) i] sz by simp
  have "cdist (total (que b2)) (lin (que b2) ?w) (lin (que b2) ?bs) = length g"
    using length_content [OF c1(1)] c1(2) b1(3,5) L by simp
  moreover have "cdist (total (que b2)) (lin (que b2) ?w) (lin (que b2) (writepos b2)) = length g + length body"
    using length_content [OF c2(1)] c2(2) by simp
  ultimately have "cdist (total (que b2)) (lin (que b2) ?bs) (lin (que b2) (writepos b2)) = length body"
    using cdist_split [OF lin_less [OF wf2(1)] lin_less [OF wf2(3)] lin_less [OF wf2(2)]] by simp
  then have len: "it_diff (que b2) (writepos b2) ?bs = int (length body)"
    using it_diff_lin [OF wf2(3,2)] T L by simp
  have "dbs \<le> total ?q" using off_le_total [of ?q "Suc (it_idx ?w)"] off_Suc [OF i] sz by simp
  then have fit: "it_pos ?w + length (concat ts) < psz (que b2) (it_idx ?w)" "psz (que b2) (it_idx ?w) < 2 ^ 31"
    using sz2 pos ts(3) T by simp_all
  from serialize_at_fits [OF wf2(4,1) fit(2) ts(1) fit(1)] obtain x where
    x: "serialize_at ts (que b2) ?w = Done (0, put_tail (que b2) (it_idx ?w) (it_pos ?w) (concat ts) x)"
    "it_pos ?w + length (concat ts) + length x = length (pbuf (que b2 ! it_idx ?w))" by blast
  let ?q3 = "put_tail (que b2) (it_idx ?w) (it_pos ?w) (concat ts) x"
  let ?b3 = "b2\<lparr>que := ?q3\<rparr>" and ?c3 = "b2\<lparr>que := ?q3, readpos := ?w\<rparr>"
  have put: "put_header ts ?w b2 = Done ?b3" by (simp add: put_header_def x)
  have c3: "wf_buf ?c3 \<and> content ?c3 = content ?c0 @ concat ts @ body"
  proof (rule frame_packet [OF c0(1) c2(1)])
    show "content ?c2 = content ?c0 @ g @ body" using c2(2) c0(2) by simp
    show "length g = psz (que ?c0) (it_idx (writepos ?c0)) - it_pos (writepos ?c0)" using g(2) sz by simp
    show "?c3 = ?c2\<lparr>que := put_tail (que ?c2) (it_idx (writepos ?c0)) (it_pos (writepos ?c0)) (concat ts) x\<rparr>"
      by simp
  qed (use b2(4) ts(2) in simp_all)
  have sizes: "psz ?q3 t = psz ?q t" if "t < length ?q" "t \<noteq> it_idx ?w" for t
    using that same_layout_psz [OF b2(4) that(1)] by (simp add: put_tail_def)
  have arr2: "list_all (\<lambda>p. length (pbuf p) = dbs) (que b2)" by (rule same_layout_arrays [OF b2(4) arr])
  then have "length (pbuf (que b2 ! it_idx ?w)) = dbs" using i L(1) by (simp add: list_all_length)
  then have arr3: "list_all (\<lambda>p. length (pbuf p) = dbs) ?q3"
    using arr2 x(2) i L(1) by (auto simp: put_tail_def list_all_length nth_list_update)
  have "total ?q3 \<le> total (que b2)"
    unfolding put_tail_def by (rule total_shrink) (use fit(1) i L(1) in simp_all)
  then have T3: "total ?q3 < 2 ^ 31" using T L by simp
  have "it_diff ?q3 (writepos ?c3) (readpos ?c3) = int (length (content ?c3))"
    using wf_bufD [of ?c3] c3 it_diff_lin [of ?q3 ?w "writepos b2"] length_content [of ?c3] T3 by simp
  then have len3: "it_diff ?q3 (writepos b2) ?w = int (length (concat ts @ body))" using c3 c0(2) by simp
  show ?thesis using b2(1,5) len put c3 c0(2) len3 arr3 sizes L(1)
    by (intro exI [of _ b2] exI [of _ ?b3]) (simp add: put_tail_def)
qed

theorem packet_written:
  assumes b: "idle dbs b" and pos: "it_pos (writepos b) + MAX_HEADER_SIZE \<le> dbs"
    and body: "length body + dbs < length (que b) * dbs"
    and ts: "ts \<noteq> []" "concat ts \<noteq> []" "length (concat ts) < MAX_HEADER_SIZE"
  shows "\<exists>b1 bs b2 b3. begin_packet dbs b = (b1, Some (writepos b, bs))
    \<and> zero_copy_write (length body) b1 body = Some b2
    \<and> it_diff (que b2) (writepos b2) bs = int (length body)
    \<and> put_header ts (writepos b) b2 = Done b3
    \<and> wf_buf b3 \<and> content b3 = concat ts @ body
    \<and> it_diff (que b3) (writepos b3) (writepos b) = int (length (concat ts @ body))
    \<and> list_all (\<lambda>p. length (pbuf p) = dbs) (que b3)"
proof -
  let ?b = "Reset dbs b" and ?w = "writepos b"
  note R = Reset_idle_full [OF b]
  have wf: "wf_buf ?b" "isEmpty ?b" "list_all (\<lambda>p. length (pbuf p) = dbs) (que ?b)"
    using R(1) by (auto simp: idle_def)
  have c0: "content ?b = []" using content_Nil_iff [OF wf(1)] wf(2) by simp
  have r: "readpos ?b = ?w" using wf(2) R(3) by (simp add: isEmpty_def)
  have W: "wf_que (que ?b)" "wf_it (que ?b) ?w" using wf_bufD [OF wf(1)] R(3) by auto
  then have i: "it_idx ?w < length (que b)" using R(5) by (simp add: wf_it_def)
  have sz: "psz (que ?b) (it_idx ?w) = dbs" using R(4) i by simp
  have tot: "total (que ?b) = length (que b) * dbs" using total_uniform [of "que ?b" dbs] R(4,5) by simp
  have T: "total (que ?b) < 2 ^ 31" using b tot by (simp add: idle_def)
  have "dbs \<le> total (que ?b)"
    using off_le_total [of "que ?b" "Suc (it_idx ?w)"] off_Suc [of "it_idx ?w" "que ?b"] i sz R(5) by simp
  then have "int dbs - int (it_pos ?w) = (int dbs - int (it_pos ?w)) mod 2 ^ 32"
    using pos T by simp
  then have res: "Reserve ?b MAX_HEADER_SIZE = (True, ?b)"
    using pos sz R(3) r by (simp add: Reserve_def Let_def MAX_HEADER_SIZE_def)
  let ?a = "snd (AlignWritePos ?b)" and ?bs = "fst (AlignWritePos ?b)"
  have beg: "begin_packet dbs b = (WriteBuffer_BeginPacket ?a, Some (?w, ?bs))"
    by (simp add: begin_packet_def res R(3) split_beta Let_def)
  have u: "free_uniform ?a dbs"
    unfolding free_uniform_def
  proof
    fix t assume "t \<in> free_pieces ?a"
    then have "t < length (que b)"
      using i r R(3,5) by (auto simp: AlignWritePos_def free_pieces_def Let_def dest: set_ring_walk split: if_splits)
    then show "psz (que ?a) t = dbs" using R(4) by (simp add: AlignWritePos_def Let_def)
  qed
  have "length body + (dbs - it_pos (writepos ?b)) < room ?b" using body tot by (simp add: room_def c0)
  from packet_core [OF wf(1,3) T _ _ this u ts] sz pos R(3) obtain b2 b3 where
    P: "zero_copy_write (length body) (WriteBuffer_BeginPacket ?a) body = Some b2"
      "it_diff (que b2) (writepos b2) ?bs = int (length body)" "put_header ts ?w b2 = Done b3"
      "wf_buf (b3\<lparr>readpos := ?w\<rparr>)" "content (b3\<lparr>readpos := ?w\<rparr>) = concat ts @ body"
      "it_diff (que b3) (writepos b3) ?w = int (length (concat ts @ body))"
      "list_all (\<lambda>p. length (pbuf p) = dbs) (que b3)" "readpos b3 = ?w"
    unfolding r by metis
  have "b3\<lparr>readpos := ?w\<rparr> = b3" using P(8) by simp
  then show ?thesis using beg P(1-3,6,7) P(4,5) by metis
qed

subsection \<open>A packet that starts on a new piece\<close>

text \<open>
  When the current piece has no room for a header, \<open>Reserve\<close> cuts it at the writing position, which
  leaves the reading position of an empty buffer at the very end of the piece. What is sent from there
  starts with an empty segment.
\<close>

lemma gather_from_end:
  assumes "psz q i = p" "i < length q" "it_idx e < length q" "it_idx e \<noteq> i" "it_idx e \<noteq> (i + 1) mod length q"
  shows "gather q (iov_between q (mk_it i p) e) = gather q (iov_between q (mk_it ((i + 1) mod length q) 0) e)"
proof -
  have "(i + 1) mod length q < length q" using assms(2) by (intro mod_less_divisor) linarith
  then have "ring_walk (length q) ((i + 1) mod length q) (it_idx e) =
      ((i + 1) mod length q) # ring_walk (length q) (((i + 1) mod length q + 1) mod length q) (it_idx e)"
    using assms(3,5) by (subst ring_walk.simps) auto
  then show ?thesis using assms(1,4,5) by (simp add: iov_between_def gather_def)
qed

lemma it_add_from_end:
  assumes "psz q i = p"
  shows "it_add q (mk_it i p) n = it_add q (mk_it ((i + 1) mod length q) 0) n"
  unfolding it_add_def by (subst it_norm.simps) (simp add: assms)

text \<open>
  Writing does not depend on the reading position, as long as it does not come to its piece: \<open>k\<close> pieces
  of size \<open>s\<close> ahead hold all of \<open>d\<close>.
\<close>

lemma apart_upd:
  fixes y :: write_buffer
  shows "y\<lparr>readpos := r, beginWrite := x, que := q\<rparr> = y\<lparr>que := q, readpos := r, beginWrite := x\<rparr>"
    "y\<lparr>readpos := r, beginWrite := x, writepos := e\<rparr> = y\<lparr>writepos := e, readpos := r, beginWrite := x\<rparr>"
  by simp_all

lemma zero_copy_write_apart:
  fixes b :: write_buffer
  assumes "it_pos (writepos b) = 0" "it_idx (writepos b) < length (que b)" "length d \<le> k * s" "0 < s"
    and "\<And>t. t < k \<Longrightarrow> (it_idx (writepos b) + t) mod length (que b) \<noteq> it_idx (readpos b)
      \<and> (it_idx (writepos b) + t) mod length (que b) \<noteq> it_idx r"
    and "\<And>t. t \<le> k \<Longrightarrow> psz (que b) ((it_idx (writepos b) + t) mod length (que b)) = s"
  shows "zero_copy_write fuel (b\<lparr>readpos := r, beginWrite := x\<rparr>) d =
      map_option (\<lambda>b. b\<lparr>readpos := r, beginWrite := x\<rparr>) (zero_copy_write fuel b d)
    \<and> (\<forall>c. zero_copy_write fuel b d = Some c \<longrightarrow>
        (\<exists>t\<le>k. it_idx (writepos c) = (it_idx (writepos b) + t) mod length (que b)))"
  using assms
proof (induction fuel b d arbitrary: k rule: zero_copy_write.induct)
  case (1 fuel b)
  then show ?case by (auto intro!: exI [of _ 0])
next
  case (2 b c cs)
  then show ?case by simp
next
  case (3 fuel b c cs)
  let ?d = "c # cs" and ?w = "it_idx (writepos b)" and ?N = "length (que b)"
  let ?q = "poke (que b) ?w 0 (take s ?d)" and ?e = "mk_it ((?w + 1) mod ?N) 0"
  have k: "0 < k" using 3(4) by (cases k) auto
  have w: "?w mod ?N = ?w" using 3(3) by simp
  have ne: "?w \<noteq> it_idx (readpos b)" "?w \<noteq> it_idx r" "psz (que b) ?w = s"
    using 3(6) [OF k] 3(6) [of 0] 3(7) [of 0] k w by auto
  let ?v = "\<lparr>iov_piece = ?w, iov_off = 0, iov_len = int s\<rparr>"
  have nx: "WriteBuffer_Next b = Some (?v, b\<lparr>writepos := ?e\<rparr>)"
    "WriteBuffer_Next (b\<lparr>readpos := r, beginWrite := x\<rparr>) = Some (?v, b\<lparr>writepos := ?e, readpos := r, beginWrite := x\<rparr>)"
    using ne 3(2) by (simp_all add: WriteBuffer_Next_def isFull_def Let_def apart_upd)
  let ?b = "b\<lparr>writepos := ?e, que := ?q\<rparr>"
  have sizes: "length ?q = ?N" "psz ?q t = psz (que b) t" for t
    using 3(3) by (simp_all add: poke_def nth_list_update)
  show ?case
  proof (cases "length ?d \<le> s")
    case True
    let ?c = "s - length ?d"
    have bk: "it_sub ?q ?e ?c = Some (if ?c = 0 then ?e else mk_it ?w (s - ?c))"
    proof (cases "?c = 0")
      case False
      have "psz ?q ((?w + 1) mod length ?q) = s" using 3(7) [of 1] k by (simp add: sizes)
      then show ?thesis using back_up_over_border [of ?c ?q ?w] False 3(3) sizes(1) by simp
    qed (simp add: it_sub_def it_norm_back_0)
    have z: "zero_copy_write (Suc fuel) b ?d = WriteBuffer_BackUp ?b ?c"
      "zero_copy_write (Suc fuel) (b\<lparr>readpos := r, beginWrite := x\<rparr>) ?d =
        WriteBuffer_BackUp (?b\<lparr>readpos := r, beginWrite := x\<rparr>) ?c"
      using True by (simp_all add: nx apart_upd)
    have "\<exists>t\<le>k. it_idx (if ?c = 0 then ?e else mk_it ?w (s - ?c)) = (?w + t) mod ?N"
      using k w by (cases "?c = 0") (auto intro: exI [of _ 1] exI [of _ 0])
    then show ?thesis unfolding z WriteBuffer_BackUp_def using bk by simp
  next
    case False
    have z: "zero_copy_write (Suc fuel) b ?d = zero_copy_write fuel ?b (drop s ?d)"
      "zero_copy_write (Suc fuel) (b\<lparr>readpos := r, beginWrite := x\<rparr>) ?d =
        zero_copy_write fuel (?b\<lparr>readpos := r, beginWrite := x\<rparr>) (drop s ?d)"
      using False by (simp_all add: nx apart_upd del: drop_Cons')
    have idx: "((?w + 1) mod ?N + t) mod ?N = (?w + Suc t) mod ?N" for t by (simp add: mod_add_left_eq)
    have sh: "t < k - 1 \<Longrightarrow> ((?w + 1) mod ?N + t) mod ?N \<noteq> it_idx (readpos b) \<and> ((?w + 1) mod ?N + t) mod ?N \<noteq> it_idx r"
      "t \<le> k - 1 \<Longrightarrow> psz (que b) (((?w + 1) mod ?N + t) mod ?N) = s" for t
      unfolding idx using 3(6) [of "Suc t"] 3(7) [of "Suc t"] k by simp_all
    have n: "s = nat (iov_len ?v)" by simp
    have b2: "?b = b\<lparr>writepos := ?e\<rparr>\<lparr>que := poke (que (b\<lparr>writepos := ?e\<rparr>)) (iov_piece ?v) (iov_off ?v) (take s ?d)\<rparr>"
      by simp
    have IH: "zero_copy_write fuel (?b\<lparr>readpos := r, beginWrite := x\<rparr>) (drop s ?d) =
        map_option (\<lambda>b. b\<lparr>readpos := r, beginWrite := x\<rparr>) (zero_copy_write fuel ?b (drop s ?d))
      \<and> (\<forall>c. zero_copy_write fuel ?b (drop s ?d) = Some c \<longrightarrow>
        (\<exists>t\<le>k - 1. it_idx (writepos c) = (it_idx (writepos ?b) + t) mod length (que ?b)))"
    proof (rule 3(1) [OF nx(1) refl n b2 False])
      show "length (drop s ?d) \<le> (k - 1) * s" using 3(4) k by (simp add: diff_mult_distrib)
    qed (use 3(3,5) sh k False in \<open>simp_all add: sizes\<close>)
    have "\<exists>t\<le>k. it_idx (writepos e) = (?w + t) mod ?N" if "zero_copy_write fuel ?b (drop s ?d) = Some e" for e
    proof -
      obtain t where "t \<le> k - 1" "it_idx (writepos e) = (it_idx (writepos ?b) + t) mod length (que ?b)"
        using conjunct2 [OF IH] \<open>zero_copy_write fuel ?b (drop s ?d) = Some e\<close> by blast
      then have "it_idx (writepos e) = (?w + Suc t) mod ?N" using idx [of t] by (simp add: sizes)
      then show ?thesis using \<open>t \<le> k - 1\<close> k by (intro exI [of _ "Suc t"]) simp
    qed
    then show ?thesis unfolding z using conjunct1 [OF IH] by blast
  qed
qed

text \<open>
  The cut case. The pieces behind the new one are of full size up to the one before the cut one; a body that
  ended in that last piece would be given back by the size of the cut one (\<open>back_up_over_border\<close>), so it
  must end before.
\<close>

lemma packet_cut_ring:
  fixes i N t :: nat
  assumes "i < N" "3 < N" "t \<le> N - 3"
  shows "((i + 2) mod N + t) mod N \<noteq> i" "((i + 2) mod N + t) mod N \<noteq> (i + 1) mod N"
    "t < N - 3 \<Longrightarrow> ((i + 2) mod N + t) mod N \<noteq> (i + N - 1) mod N"
proof -
  have s: "((i + 2) mod N + t) mod N = (i + (2 + t)) mod N" by (simp add: mod_add_left_eq add.assoc)
  have apart: "(i + a) mod N \<noteq> (i + b) mod N" if "a < b" "b < N" for a b
  proof
    assume "(i + a) mod N = (i + b) mod N"
    then have "N dvd (i + b) - (i + a)" using that by (metis mod_eq_dvd_iff_nat nat_add_left_cancel_le less_imp_le)
    then show False using that by (auto dest: dvd_imp_le)
  qed
  have t: "2 + t < N" using assms by linarith
  show "((i + 2) mod N + t) mod N \<noteq> i" using t apart [of 0 "2 + t"] assms s by simp
  show "((i + 2) mod N + t) mod N \<noteq> (i + 1) mod N" using t apart [of 1 "2 + t"] assms s by simp
  show "((i + 2) mod N + t) mod N \<noteq> (i + N - 1) mod N" if "t < N - 3"
    using apart [of "2 + t" "N - 1"] assms that s by simp
qed

lemma ring_walk_apart:
  fixes i N :: nat
  assumes "i < N" "3 < N"
  shows "i \<notin> set (ring_walk N (((i + 2) mod N + 1) mod N) ((i + N - 1) mod N))"
proof -
  have "((i + 2) mod N + 1) mod N = (i + 3) mod N"
    by (simp add: mod_Suc_eq numeral_3_eq_3)
  also have "\<dots> = (if i + 3 < N then i + 3 else i + 3 - N)" using assms by (simp add: le_mod_geq)
  finally have a: "((i + 2) mod N + 1) mod N = (if i + 3 < N then i + 3 else i + 3 - N)" .
  have e: "(i + N - 1) mod N = (if i = 0 then N - 1 else i - 1)"
    using assms by (auto simp: le_mod_geq)
  show ?thesis unfolding a e using assms by (auto simp: ring_walk_eq)
qed

lemma total_set_psize: "i < length q \<Longrightarrow> total (set_psize q i n) + psz q i = total q + n"
  unfolding set_psize_def
proof (induction q arbitrary: i)
  case (Cons x q)
  then show ?case by (cases i) (auto simp: total_def)
qed simp

text \<open>The buffer behind \<open>Reserve\<close> with two pieces pretended to be unread, so that only full pieces are free.\<close>

lemma cut_buffer:
  fixes c :: write_buffer
  assumes q: "length q = N" "\<forall>t<N. psz q t = dbs" "list_all (\<lambda>p. length (pbuf p) = dbs) q" "N * dbs < 2 ^ 31"
    and i: "i < N" "3 < N" "0 < p" "p < dbs"
    and c: "que c = set_psize q i p" "readpos c = mk_it ((i + N - 1) mod N) 0" "writepos c = mk_it ((i + 1) mod N) 0"
  shows "wf_buf c" "list_all (\<lambda>p. length (pbuf p) = dbs) (que c)" "total (que c) < 2 ^ 31"
    "\<And>t. t < N \<Longrightarrow> psz (que c) t = (if t = i then p else dbs)" "room c = (N - 2) * dbs"
    "free_uniform (snd (AlignWritePos c)) dbs"
proof -
  let ?j = "(i + N - 1) mod N" and ?k = "(i + 1) mod N"
  have jk: "?j < N" "?k < N" "?j \<noteq> i" "?k \<noteq> i" "(?j + 1) mod N = i" "?j \<noteq> ?k"
    using i by (auto simp: mod_if)
  show sz: "psz (que c) t = (if t = i then p else dbs)" if "t < N" for t
    using that q(1,2) i(1) by (simp add: c set_psize_def nth_list_update)
  show arr: "list_all (\<lambda>p. length (pbuf p) = dbs) (que c)"
    using q(1,3) i(1) by (auto simp: c set_psize_def list_all_length nth_list_update)
  have len: "length (que c) = N" using q(1) by (simp add: c set_psize_def)
  have W: "wf_que (que c)" using sz arr i len by (auto simp: wf_que_def list_all_length)
  show wf: "wf_buf c" using W jk sz i len by (simp add: wf_buf_def wf_it_def c(2,3))
  have tq: "total q = N * dbs" using total_uniform [of q dbs] q(1,2) by simp
  have "total (que c) + dbs = N * dbs + p"
    using total_set_psize [of i q p] q(1,2) i(1) tq by (simp add: c)
  then have tot: "total (que c) = (N - 1) * dbs + p" using i(2) by (simp add: diff_mult_distrib)
  then show "total (que c) < 2 ^ 31" using q(4) i(2,4) \<open>total (que c) + dbs = N * dbs + p\<close> by linarith
  have "it_add (que c) (readpos c) (dbs + p) = Some (writepos c)"
    unfolding it_add_def c(2,3)
    by (subst it_norm.simps, subst it_norm.simps, subst it_norm.simps)
      (use jk sz i len in \<open>simp add: c(2,3)\<close>)
  then have "lin (que c) (writepos c) = (lin (que c) (readpos c) + (dbs + p)) mod total (que c)"
    using it_add_eq [OF W] wf_bufD [OF wf] by simp
  moreover have "dbs + p < total (que c)"
  proof -
    have "3 * dbs \<le> (N - 1) * dbs" using i(2) by (intro mult_le_mono1) linarith
    then show ?thesis using tot i(4) by linarith
  qed
  ultimately have "length (content c) = dbs + p"
    unfolding length_content [OF wf] using lin_less [of "que c" "readpos c"] wf_bufD [OF wf]
    by (simp add: cdist_ahead)
  then show "room c = (N - 2) * dbs" using tot by (simp add: room_def diff_mult_distrib)
  show "free_uniform (snd (AlignWritePos c)) dbs"
    unfolding free_uniform_def
  proof
    fix t assume t: "t \<in> free_pieces (snd (AlignWritePos c))"
    have k2: "(?k + 1) mod N = (i + 2) mod N" by (simp add: mod_Suc_eq)
    have "(i + 2) mod N \<noteq> i" using packet_cut_ring(1) [of i N 0] i by simp
    moreover have "t = (i + 2) mod N \<or> t = ?j \<or> t \<in> set (ring_walk N (((i + 2) mod N + 1) mod N) ?j)"
      using t k2 by (auto simp: AlignWritePos_def Let_def free_pieces_def c(2,3) len split: if_splits)
    ultimately have "t < N" "t \<noteq> i" using jk ring_walk_apart [OF i(1,2)] i(2) by (auto dest: set_ring_walk)
    then show "psz (que (snd (AlignWritePos c))) t = dbs" using sz by (simp add: AlignWritePos_def Let_def)
  qed
qed

theorem packet_cut:
  assumes b: "idle dbs b" and cut: "\<not> it_pos (writepos b) + MAX_HEADER_SIZE \<le> dbs" and big: "MAX_HEADER_SIZE \<le> dbs"
    and body: "length body + 3 * dbs < length (que b) * dbs"
    and ts: "ts \<noteq> []" "concat ts \<noteq> []" "length (concat ts) < MAX_HEADER_SIZE"
    and ps: "ps = mk_it ((it_idx (writepos b) + 1) mod length (que b)) 0"
  shows "\<exists>b1 bs b2 b3 b4. begin_packet dbs b = (b1, Some (ps, bs))
    \<and> zero_copy_write (length body) b1 body = Some b2
    \<and> it_diff (que b2) (writepos b2) bs = int (length body)
    \<and> put_header ts ps b2 = Done b3
    \<and> gather (que b3) (snd (GetSendBuffer b3)) = concat ts @ body
    \<and> it_diff (que b3) (writepos b3) ps = int (length (concat ts @ body))
    \<and> MoveSendPtr b3 (length (concat ts @ body)) = Some b4 \<and> isEmpty b4"
proof -
  let ?w = "writepos b" and ?R = "Reset dbs b" and ?N = "length (que b)"
  let ?i = "it_idx ?w" and ?p = "it_pos ?w"
  note R = Reset_idle_full [OF b]
  have wf: "wf_buf ?R" "isEmpty ?R" "list_all (\<lambda>p. length (pbuf p) = dbs) (que ?R)"
    using R(1) by (auto simp: idle_def)
  have r: "readpos ?R = ?w" using wf(2) R(3) by (simp add: isEmpty_def)
  have "wf_it (que ?R) ?w" using wf_bufD [OF wf(1)] R(3) by simp
  then have i: "?i < ?N" "?p < dbs" using R(4,5) by (auto simp: wf_it_def)
  have p: "0 < ?p" using cut big by linarith
  have N: "3 < ?N" using body by (metis add_lessD1 add.commute mult_less_cancel2)
  have fit: "?N * dbs < 2 ^ 31" using b by (simp add: idle_def)
  then have "dbs < 2 ^ 31" using N by (metis le_less_trans mult_le_mono1 mult_1 less_imp_le One_nat_def Suc_leI gr0I not_less0)
  then have "(int dbs - int ?p) mod 2 ^ 32 = int (dbs - ?p)" using i(2) by (simp add: of_nat_diff)
  moreover have "dbs - ?p < MAX_HEADER_SIZE" using cut i(2) by linarith
  ultimately have small: "(int dbs - int ?p) mod 2 ^ 32 < int MAX_HEADER_SIZE" by simp
  define C where "C = ?R\<lparr>que := set_psize (que ?R) ?i ?p, writepos := ps\<rparr>"
  have res: "Reserve ?R MAX_HEADER_SIZE = (True, C)"
    using small R(3-5) r i(1) by (simp add: Reserve_def Let_def C_def ps)
  define P where "P = C\<lparr>readpos := mk_it ((?i + ?N - 1) mod ?N) 0\<rparr>"
  have "que P = set_psize (que ?R) ?i ?p" "readpos P = mk_it ((?i + ?N - 1) mod ?N) 0" "writepos P = mk_it ((?i + 1) mod ?N) 0"
    by (simp_all add: P_def C_def ps)
  note P = cut_buffer [OF R(5,4) wf(3) fit i(1) N p i(2) this]
  have lenP: "length (que P) = ?N" by (simp add: P_def C_def set_psize_def R(5))
  have psP: "writepos P = ps" by (simp add: P_def C_def)
  have k: "(?i + 1) mod ?N < ?N" "(?i + 1) mod ?N \<noteq> ?i" using i(1) N by (auto simp: mod_if)
  have "length body + dbs < room P" using body N P(5) by (simp add: diff_mult_distrib)
  then obtain b2 b3 where
    B: "zero_copy_write (length body) (WriteBuffer_BeginPacket (snd (AlignWritePos P))) body = Some b2"
      "it_diff (que b2) (writepos b2) (fst (AlignWritePos P)) = int (length body)" "put_header ts ps b2 = Done b3"
      "wf_buf (b3\<lparr>readpos := ps\<rparr>)" "content (b3\<lparr>readpos := ps\<rparr>) = concat ts @ body"
      "it_diff (que b3) (writepos b3) ps = int (length (concat ts @ body))" "writepos b3 = writepos b2"
      "length (que b3) = ?N" "\<forall>t<?N. t \<noteq> it_idx ps \<longrightarrow> psz (que b3) t = psz (que P) t"
    using packet_core [OF P(1-3) _ _ _ P(6) ts, of body] P(4) [OF k(1)] big k(2) psP lenP
    by (auto simp: ps)
  let ?b1 = "WriteBuffer_BeginPacket (snd (AlignWritePos P))"
  have b1: "WriteBuffer_BeginPacket (snd (AlignWritePos C)) = ?b1\<lparr>readpos := ?w, beginWrite := ?w\<rparr>"
    using r by (simp add: WriteBuffer_BeginPacket_def AlignWritePos_def Let_def P_def C_def)
  have beg: "begin_packet dbs b = (?b1\<lparr>readpos := ?w, beginWrite := ?w\<rparr>, Some (ps, fst (AlignWritePos P)))"
    by (simp add: begin_packet_def res split_beta Let_def b1 [symmetric]) (simp add: AlignWritePos_def Let_def P_def C_def)
  have "zero_copy_write (length body) (?b1\<lparr>readpos := ?w, beginWrite := ?w\<rparr>) body =
      map_option (\<lambda>b. b\<lparr>readpos := ?w, beginWrite := ?w\<rparr>) (zero_copy_write (length body) ?b1 body)
    \<and> (\<forall>c. zero_copy_write (length body) ?b1 body = Some c \<longrightarrow>
        (\<exists>t\<le>?N - 3. it_idx (writepos c) = (it_idx (writepos ?b1) + t) mod length (que ?b1)))"
  proof (rule zero_copy_write_apart)
    have f: "writepos ?b1 = mk_it ((?i + 2) mod ?N) 0" "que ?b1 = que P" "readpos ?b1 = mk_it ((?i + ?N - 1) mod ?N) 0"
      using lenP by (simp_all add: WriteBuffer_BeginPacket_def AlignWritePos_def Let_def psP ps mod_Suc_eq)
        (simp add: P_def)
    have "(?i + 2) mod ?N < ?N" using N by (intro mod_less_divisor) linarith
    then show "it_pos (writepos ?b1) = 0" "it_idx (writepos ?b1) < length (que ?b1)" using f lenP by simp_all
    show "length body \<le> (?N - 3) * dbs" using body N by (simp add: diff_mult_distrib)
    show "0 < dbs" using i(2) by simp
    show "(it_idx (writepos ?b1) + t) mod length (que ?b1) \<noteq> it_idx (readpos ?b1)
        \<and> (it_idx (writepos ?b1) + t) mod length (que ?b1) \<noteq> ?i" if "t < ?N - 3" for t
      using packet_cut_ring [OF i(1) N, of t] that f lenP by simp
    show "psz (que ?b1) ((it_idx (writepos ?b1) + t) mod length (que ?b1)) = dbs" if "t \<le> ?N - 3" for t
    proof -
      have "((?i + 2) mod ?N + t) mod ?N < ?N" using N by (intro mod_less_divisor) linarith
      from P(4) [OF this] show ?thesis using packet_cut_ring(1) [OF i(1) N that] f lenP by simp
    qed
  qed
  then obtain t where zc: "zero_copy_write (length body) (?b1\<lparr>readpos := ?w, beginWrite := ?w\<rparr>) body =
      Some (b2\<lparr>readpos := ?w, beginWrite := ?w\<rparr>)"
    and t: "t \<le> ?N - 3" "it_idx (writepos b2) = ((?i + 2) mod ?N + t) mod ?N"
    using B(1) lenP by (auto simp: WriteBuffer_BeginPacket_def AlignWritePos_def Let_def psP ps mod_Suc_eq)
  have "((?i + 2) mod ?N + t) mod ?N < ?N" using N by (intro mod_less_divisor) linarith
  then have e: "it_idx (writepos b3) < ?N" "it_idx (writepos b3) \<noteq> ?i" "it_idx (writepos b3) \<noteq> (?i + 1) mod ?N"
    using packet_cut_ring [OF i(1) N t(1)] t(2) B(7) i(1) N by simp_all
  let ?b3 = "b3\<lparr>readpos := ?w, beginWrite := ?w\<rparr>" and ?c3 = "b3\<lparr>readpos := ps\<rparr>"
  have put: "put_header ts ps (b2\<lparr>readpos := ?w, beginWrite := ?w\<rparr>) = Done ?b3"
    using B(3) by (auto simp: put_header_def bind_outcome_Done_iff)
  have pi: "psz (que b3) ?i = ?p" using B(9) P(4) [OF i(1)] i(1) k(2) by (simp add: ps)
  have w: "?w = mk_it ?i ?p" by simp
  have sent: "gather (que b3) (snd (GetSendBuffer ?b3)) = concat ts @ body"
  proof -
    have ne: "writepos b3 \<noteq> ?w" "writepos b3 \<noteq> ps" using e(2,3) by (auto simp: ps)
    have "gather (que b3) (snd (GetSendBuffer ?b3)) = gather (que b3) (iov_between (que b3) (mk_it ?i ?p) (writepos b3))"
      unfolding w [symmetric] using ne by (simp add: GetSendBuffer_def GetSendBuffer_to_def)
    also have "\<dots> = gather (que b3) (iov_between (que b3) ps (writepos b3))"
      using gather_from_end [OF pi] e i(1) B(8) by (simp add: ps)
    also have "\<dots> = gather (que ?c3) (snd (GetSendBuffer ?c3))"
      using ne by (simp add: GetSendBuffer_def GetSendBuffer_to_def)
    also have "\<dots> = concat ts @ body" using conjunct2 [OF send_gathers [OF B(4)]] B(5) by (simp only:)
    finally show ?thesis .
  qed
  obtain b4 where m: "MoveSendPtr ?c3 (length (concat ts @ body)) = Some b4" "wf_buf b4" "content b4 = []"
    using move_send_content [OF B(4), of "length (concat ts @ body)"] B(5) by auto
  then obtain rp where rp: "it_add (que b3) ps (length (concat ts @ body)) = Some rp" "b4 = ?c3\<lparr>readpos := rp\<rparr>"
    by (auto simp: MoveSendPtr_def)
  have "it_add (que b3) ?w (length (concat ts @ body)) = Some rp"
    using it_add_from_end [OF pi, of "length (concat ts @ body)"] rp(1) B(8) unfolding w [symmetric] by (simp add: ps)
  then have move: "MoveSendPtr ?b3 (length (concat ts @ body)) = Some (?b3\<lparr>readpos := rp\<rparr>)" by (simp add: MoveSendPtr_def)
  have "isEmpty (?b3\<lparr>readpos := rp\<rparr>)" using m(2,3) content_Nil_iff [OF m(2)] rp(2) by (simp add: isEmpty_def)
  with beg zc B(2) put sent B(6) move show ?thesis by (intro exI conjI) (assumption | simp)+
qed

text \<open>Both cases. \<open>header_place\<close> is where the header goes.\<close>

definition header_place :: "nat \<Rightarrow> write_buffer \<Rightarrow> iter" where
  "header_place dbs b =
     (if it_pos (writepos b) + MAX_HEADER_SIZE \<le> dbs then writepos b
      else mk_it ((it_idx (writepos b) + 1) mod length (que b)) 0)"

theorem packet_sent:
  assumes b: "idle dbs b" and big: "MAX_HEADER_SIZE \<le> dbs"
    and body: "length body + (if it_pos (writepos b) + MAX_HEADER_SIZE \<le> dbs then 1 else 3) * dbs < length (que b) * dbs"
    and ts: "ts \<noteq> []" "concat ts \<noteq> []" "length (concat ts) < MAX_HEADER_SIZE"
  shows "\<exists>b1 bs b2 b3 b4. begin_packet dbs b = (b1, Some (header_place dbs b, bs))
    \<and> zero_copy_write (length body) b1 body = Some b2
    \<and> it_diff (que b2) (writepos b2) bs = int (length body)
    \<and> put_header ts (header_place dbs b) b2 = Done b3
    \<and> gather (que b3) (snd (GetSendBuffer b3)) = concat ts @ body
    \<and> it_diff (que b3) (writepos b3) (header_place dbs b) = int (length (concat ts @ body))
    \<and> MoveSendPtr b3 (length (concat ts @ body)) = Some b4 \<and> isEmpty b4"
proof (cases "it_pos (writepos b) + MAX_HEADER_SIZE \<le> dbs")
  case True
  then have hp: "header_place dbs b = writepos b" by (simp add: header_place_def)
  have "length body + dbs < length (que b) * dbs" using body True by simp
  from packet_written [OF b True this ts] obtain b1 bs b2 b3 where
    W: "begin_packet dbs b = (b1, Some (writepos b, bs))" "zero_copy_write (length body) b1 body = Some b2"
      "it_diff (que b2) (writepos b2) bs = int (length body)" "put_header ts (writepos b) b2 = Done b3"
      "wf_buf b3" "content b3 = concat ts @ body"
      "it_diff (que b3) (writepos b3) (writepos b) = int (length (concat ts @ body))" by blast
  obtain b4 where m: "MoveSendPtr b3 (length (concat ts @ body)) = Some b4" "wf_buf b4" "content b4 = []"
    using move_send_content [OF W(5), of "length (concat ts @ body)"] W(6) by auto
  have "isEmpty b4" using content_Nil_iff [OF m(2)] m(3) by simp
  moreover have "gather (que b3) (snd (GetSendBuffer b3)) = concat ts @ body"
    using conjunct2 [OF send_gathers [OF W(5)]] W(6) by (simp only:)
  ultimately show ?thesis unfolding hp using W(1-4,7) m(1) by blast
next
  case False
  show ?thesis
    by (rule packet_cut [OF b False big _ ts]) (use body False in \<open>simp_all add: header_place_def\<close>)
qed

section \<open>Reading a body\<close>

text \<open>
  How a caller of \<open>ZeroCopyInputStream\<close> reads \<open>n\<close> bytes: whole chunks from \<open>Next\<close>, and the
  rest of the last one goes back with \<open>BackUp\<close>. It stops early at the end of the data.
\<close>

fun zero_copy_read :: "nat \<Rightarrow> 'a iobuf_scheme \<Rightarrow> nat \<Rightarrow> (char list \<times> 'a iobuf_scheme) option" where
  "zero_copy_read fuel b 0 = Some ([], b)"
| "zero_copy_read 0 b n = None"
| "zero_copy_read (Suc fuel) b n =
     (case ReadBuffer_Next b of
        None \<Rightarrow> Some ([], b)
      | Some (v, b1) \<Rightarrow>
          let d = gather (que b1) [v]; k = nat (iov_len v) in
          if n \<le> k then map_option (\<lambda>b2. (take n d, b2)) (ReadBuffer_BackUp b1 (k - n))
          else map_option (\<lambda>(e, b2). (d @ e, b2)) (zero_copy_read fuel b1 (n - k)))"

definition uniform :: "nat \<Rightarrow> piece list \<Rightarrow> bool" where
  "uniform s q \<longleftrightarrow> (\<forall>t<length q. psz q t = s)"

lemma wf_it_step_back:
  assumes "wf_que q" "uniform s q" "wf_it q it" "c \<le> s"
  shows "\<exists>r. it_sub q it c = Some r \<and> wf_it q r \<and> (lin q r + c) mod total q = lin q it"
proof (cases "c \<le> it_pos it")
  case True
  then have "it_sub q it c = Some (mk_it (it_idx it) (it_pos it - c))"
    by (simp add: it_sub_def it_norm_back_0 nat_diff_distrib')
  moreover have "wf_it q (mk_it (it_idx it) (it_pos it - c))" using assms(3) by (auto simp: wf_it_def)
  ultimately show ?thesis using True lin_less [OF assms(3)] by (simp add: lin_def)
next
  case False
  let ?i = "it_idx it" and ?j = "(it_idx it + length q - 1) mod length q"
  have i: "?i < length q" "it_pos it < s" "0 < s" using assms(2,3) by (auto simp: wf_it_def uniform_def)
  have j: "?j < length q" "(?j + 1) mod length q = ?i"
  proof -
    have "0 < length q" using i(1) by linarith
    then show "?j < length q" by simp
    show "(?j + 1) mod length q = ?i" using i(1) by (cases ?i) (simp_all add: mod_if)
  qed
  have s: "psz q ?i = s" "psz q ?j = s" using assms(2) i j by (auto simp: uniform_def)
  have neg: "int (it_pos it) - int c < 0" using False by simp
  have pos: "\<not> int (it_pos it) - int c + int (psz q ?i) < 0" using s(1) assms(4) by simp
  have nn: "nat (int (it_pos it) - int c + int (psz q ?i)) = it_pos it + s - c"
    using s(1) assms(4) by linarith
  have "it_sub q it c = Some (mk_it ?j (it_pos it + s - c))"
    unfolding it_sub_def
    by (subst it_norm_back.simps, subst it_norm_back.simps) (simp only: neg pos nn if_True if_False)
  moreover have "wf_it q (mk_it ?j (it_pos it + s - c))" using j s False assms(4) by (auto simp: wf_it_def)
  moreover have "(lin q (mk_it ?j (it_pos it + s - c)) + c) mod total q = lin q it"
    using off_wrap [OF j(1), of "it_pos it"] j(2) s(2) lin_less [OF assms(3)] False assms(4)
    by (simp add: lin_def ac_simps)
  ultimately show ?thesis by blast
qed

lemma mod_add_cancel: "a < T \<Longrightarrow> b < T \<Longrightarrow> c < T \<Longrightarrow> (a + c) mod T = (b + c) mod T \<Longrightarrow> a = (b :: nat)"
  by (auto simp: mod_if split: if_splits)

lemma Next_chunk_size:
  assumes "wf_buf b" "ReadBuffer_Next b = Some (v, b')"
  shows "nat (iov_len v) \<le> psz (que b) (it_idx (readpos b))"
  using assms wf_bufD [OF assms(1)]
  by (auto simp: ReadBuffer_Next_def wf_it_def Let_def split: if_splits)

lemma cdist_inj: "a < T \<Longrightarrow> b < T \<Longrightarrow> w < T \<Longrightarrow> cdist T a w = cdist T b w \<Longrightarrow> a = b"
  by (auto simp: cdist_def split: if_splits)

lemma Next_lin:
  assumes wf: "wf_buf b" and nx: "ReadBuffer_Next b = Some (v, b1)"
  shows "lin (que b) (readpos b1) = (lin (que b) (readpos b) + nat (iov_len v)) mod total (que b)"
proof -
  let ?k = "nat (iov_len v)" and ?q = "que b"
  note N = read_next_chunk(2) [OF wf nx]
  have d: "content b = gather (que b) [v] @ content b1" "length (gather (que b) [v]) = ?k" using N by auto
  have c: "content b1 = drop ?k (content b)" "?k \<le> length (content b)" by (simp_all add: d)
  obtain r where r: "it_add ?q (readpos b) ?k = Some r" "wf_buf (b\<lparr>readpos := r\<rparr>)"
    "content (b\<lparr>readpos := r\<rparr>) = drop ?k (content b)" using advance_read_drops [OF wf c(2)] by blast
  have W: "wf_it ?q (readpos b1)" "wf_it ?q (writepos b)" "wf_it ?q r" "wf_que ?q" "wf_it ?q (readpos b)"
    using wf_bufD [OF wf] wf_bufD [OF r(2)] wf_bufD [of b1] N by auto
  have "cdist (total ?q) (lin ?q (readpos b1)) (lin ?q (writepos b)) =
      cdist (total ?q) (lin ?q r) (lin ?q (writepos b))"
  proof -
    have n1: "wf_buf b1" "que b1 = ?q" "writepos b1 = writepos b" using N by blast+
    have "length (content b1) = length (content (b\<lparr>readpos := r\<rparr>))" by (simp only: c(1) r(3))
    then show ?thesis unfolding length_content [OF n1(1)] length_content [OF r(2)] by (simp add: n1)
  qed
  then have "lin ?q (readpos b1) = lin ?q r"
    using cdist_inj [OF lin_less [OF W(1)] lin_less [OF W(3)] lin_less [OF W(2)]] by simp
  moreover have "lin ?q r = (lin ?q (readpos b) + ?k) mod total ?q" by (rule it_add_eq [OF W(4,5) r(1)])
  ultimately show ?thesis by simp
qed

theorem zero_copy_read_takes:
  assumes "wf_buf b" "uniform s (que b)" "n \<le> fuel"
  shows "\<exists>b'. zero_copy_read fuel b n = Some (take n (content b), b') \<and> wf_buf b'
    \<and> content b' = drop n (content b) \<and> que b' = que b \<and> writepos b' = writepos b"
  using assms
proof (induction fuel b n rule: zero_copy_read.induct)
  case (3 fuel b m)
  let ?n = "Suc m" and ?q = "que b"
  show ?case
  proof (cases "ReadBuffer_Next b")
    case None
    then have "content b = []" using read_next_chunk(1) [OF 3(2)] by simp
    then show ?thesis using None 3(2) by simp
  next
    case (Some vb)
    obtain v b1 where vb: "vb = (v, b1)" by (cases vb)
    let ?d = "gather ?q [v]" and ?k = "nat (iov_len v)"
    note N = read_next_chunk(2) [OF 3(2) Some [unfolded vb]]
    have b1: "wf_buf b1" "que b1 = ?q" "writepos b1 = writepos b" "content b = ?d @ content b1"
      "length ?d = ?k" "0 < ?k" using N by auto
    show ?thesis
    proof (cases "?n \<le> ?k")
      case False
      have "\<exists>b'. zero_copy_read fuel b1 (?n - ?k) = Some (take (?n - ?k) (content b1), b') \<and> wf_buf b'
          \<and> content b' = drop (?n - ?k) (content b1) \<and> que b' = que b1 \<and> writepos b' = writepos b1"
        by (rule 3(1) [OF Some vb [symmetric] refl refl False])
          (use b1 3(3,4) in \<open>auto simp: uniform_def\<close>)
      then show ?thesis using Some vb b1 False by (auto simp: Let_def)
    next
      case True
      have W: "wf_que ?q" "wf_it ?q (readpos b)" "wf_it ?q (readpos b1)"
        using wf_bufD [OF 3(2)] wf_bufD [OF b1(1)] b1(2) by auto
      have "?k \<le> s" using Next_chunk_size [OF 3(2) Some [unfolded vb]] W(2) 3(3)
        by (simp add: uniform_def wf_it_def)
      then obtain r where r: "it_sub ?q (readpos b1) (?k - ?n) = Some r" "wf_it ?q r"
          "(lin ?q r + (?k - ?n)) mod total ?q = lin ?q (readpos b1)"
        using wf_it_step_back [OF W(1) 3(3) W(3), of "?k - ?n"] by (meson diff_le_self order_trans)
      have le: "?k \<le> length (content b)" using b1(4,5) by simp
      have kt: "?k < total ?q"
        using le length_content [OF 3(2)] cdist_less lin_less wf_bufD [OF 3(2)] by (metis order_le_less_trans)
      obtain r1 where r1: "it_add ?q (readpos b) ?k = Some r1" "content (b\<lparr>readpos := r1\<rparr>) = drop ?k (content b)"
        "wf_buf (b\<lparr>readpos := r1\<rparr>)" using advance_read_drops [OF 3(2) le] by blast
      obtain r2 where r2: "it_add ?q (readpos b) ?n = Some r2" "content (b\<lparr>readpos := r2\<rparr>) = drop ?n (content b)"
        "wf_buf (b\<lparr>readpos := r2\<rparr>)" using advance_read_drops [OF 3(2), of ?n] le True by auto
      have l1: "lin ?q (readpos b1) = (lin ?q (readpos b) + ?k) mod total ?q"
        by (rule Next_lin [OF 3(2) Some [unfolded vb]])
      have l2: "lin ?q r2 = (lin ?q (readpos b) + ?n) mod total ?q"
        by (rule it_add_eq [OF W(1,2) r2(1)])
      have "(lin ?q r2 + (?k - ?n)) mod total ?q = (lin ?q (readpos b) + ?n + (?k - ?n)) mod total ?q"
        by (simp add: l2 mod_add_left_eq)
      also have "lin ?q (readpos b) + ?n + (?k - ?n) = lin ?q (readpos b) + ?k" using True by simp
      finally have "(lin ?q r2 + (?k - ?n)) mod total ?q = lin ?q (readpos b1)" using l1 by simp
      then have "(lin ?q r2 + (?k - ?n)) mod total ?q = (lin ?q r + (?k - ?n)) mod total ?q" using r(3) by simp
      moreover have "wf_it ?q r2" using wf_bufD [OF r2(3)] by simp
      ultimately have "r2 = r"
        using mod_add_cancel [of "lin ?q r2" "total ?q" "lin ?q r" "?k - ?n"] lin_less r(2) kt lin_inj by auto
      moreover have "b1 = b\<lparr>readpos := readpos b1\<rparr>" 
        using Some vb by (auto simp: ReadBuffer_Next_def Let_def split: if_splits)
      then have "b1\<lparr>readpos := r\<rparr> = b\<lparr>readpos := r\<rparr>" by (metis iobuf.update_convs(2) iobuf.surjective)
      ultimately show ?thesis using Some vb b1 True r(1) r2(2,3) by (simp add: ReadBuffer_BackUp_def Let_def)
    qed
  qed
qed auto

end
