(* ===== verification/Queues.thy ===== *)
theory Queues
  imports Prelude
begin

text \<open>
  \<open>common/spinlist.h\<close> (\<open>SpinList\<close>, the doubly linked task list) and \<open>thread/workqueue.h\<close>
  (\<open>WorkQueue\<close>, the singly linked queue with one lock per end), on an explicit heap of nodes.
  \<open>new\<close> returns the address \<open>fresh\<close>, which no live node has. A dereference of an address
  that holds no node is \<open>Fault\<close>. The destructors free every node and are left out.

  What the pools rely on is the contract \<open>fifo\<close>: no operation faults, every task pushed is popped at
  most once, in the order of the pushes, and a pop finds nothing only when nothing is queued.
  \<open>SpinList\<close> holds its lock over each operation, so its operations are steps; \<open>WorkQueue\<close> is taken
  apart into the accesses the two locks leave free to interleave.
\<close>

section \<open>The contract\<close>

datatype 't qop = Push 't | Pop

text \<open>The answers to the pops of a sequence of operations, and the queue behind it.\<close>

fun serve :: "('t \<Rightarrow> 'q \<Rightarrow> 'q outcome) \<Rightarrow> ('q \<Rightarrow> ('t option \<times> 'q) outcome) \<Rightarrow> 't qop list \<Rightarrow> 'q \<Rightarrow>
    ('t option list \<times> 'q) outcome" where
  "serve push pop [] q = Done ([], q)"
| "serve push pop (Push t # ops) q = bind_outcome (push t q) (serve push pop ops)"
| "serve push pop (Pop # ops) q =
     bind_outcome (pop q) (\<lambda>(r, q). bind_outcome (serve push pop ops q) (\<lambda>(rs, q). Done (r # rs, q)))"

text \<open>The specification: the answers of a queue that holds \<open>xs\<close>, and what it holds afterwards.\<close>

fun fifo_spec :: "'t qop list \<Rightarrow> 't list \<Rightarrow> 't option list \<times> 't list" where
  "fifo_spec [] xs = ([], xs)"
| "fifo_spec (Push t # ops) xs = fifo_spec ops (xs @ [t])"
| "fifo_spec (Pop # ops) [] = (let (rs, ys) = fifo_spec ops [] in (None # rs, ys))"
| "fifo_spec (Pop # ops) (x # xs) = (let (rs, ys) = fifo_spec ops xs in (Some x # rs, ys))"

fun pushed :: "'t qop list \<Rightarrow> 't list" where
  "pushed [] = []"
| "pushed (Push t # ops) = t # pushed ops"
| "pushed (Pop # ops) = pushed ops"

definition delivered :: "'t option list \<Rightarrow> 't list" where
  "delivered rs = map the (filter (\<lambda>r. r \<noteq> None) rs)"

lemma delivered_simps [simp]:
  "delivered [] = []" "delivered (None # rs) = delivered rs" "delivered (Some x # rs) = x # delivered rs"
  by (simp_all add: delivered_def)

lemma fifo_spec_order: "xs @ pushed ops = delivered (fst (fifo_spec ops xs)) @ snd (fifo_spec ops xs)"
  by (induction ops xs rule: fifo_spec.induct) (simp_all add: case_prod_unfold Let_def)

locale fifo =
  fixes push :: "'t \<Rightarrow> 'q \<Rightarrow> 'q outcome"
    and pop :: "'q \<Rightarrow> ('t option \<times> 'q) outcome"
    and items :: "'q \<Rightarrow> 't list"
    and inv :: "'q \<Rightarrow> bool"
  assumes push_last: "inv q \<Longrightarrow> \<exists>q'. push t q = Done q' \<and> inv q' \<and> items q' = items q @ [t]"
    and pop_empty: "inv q \<Longrightarrow> items q = [] \<Longrightarrow> pop q = Done (None, q)"
    and pop_first: "inv q \<Longrightarrow> items q = x # xs \<Longrightarrow> \<exists>q'. pop q = Done (Some x, q') \<and> inv q' \<and> items q' = xs"
begin

lemma serve_spec:
  "inv q \<Longrightarrow> \<exists>q'. serve push pop ops q = Done (fst (fifo_spec ops (items q)), q') \<and> inv q'
    \<and> items q' = snd (fifo_spec ops (items q))"
proof (induction ops arbitrary: q)
  case (Cons op ops)
  show ?case
  proof (cases op)
    case (Push t)
    then show ?thesis using push_last [OF Cons.prems, of t] Cons.IH by fastforce
  next
    case Pop
    show ?thesis
    proof (cases "items q")
      case Nil
      then show ?thesis using Pop pop_empty [OF Cons.prems Nil] Cons.IH [OF Cons.prems]
        by (auto simp: case_prod_unfold Let_def)
    next
      case xs: (Cons x xs)
      obtain r where r: "pop q = Done (Some x, r)" "inv r" "items r = xs" using pop_first [OF Cons.prems xs] by blast
      then show ?thesis using Pop xs Cons.IH [OF r(2)] by (auto simp: case_prod_unfold Let_def)
    qed
  qed
qed simp

lemma drain:
  assumes "inv q"
  shows "\<exists>q'. serve push pop (replicate (length (items q)) Pop) q = Done (map Some (items q), q') \<and> items q' = []"
proof -
  have "fifo_spec (replicate (length xs) Pop) xs = (map Some xs, [])" for xs :: "'t list"
    by (induction xs) simp_all
  then show ?thesis using serve_spec [OF assms, of "replicate (length (items q)) Pop"] by auto
qed

end

section \<open>SpinList\<close>

record 't snode =
  sn_t :: 't
  sn_next :: "nat option"
  sn_pre :: "nat option"

record 't spinlist =
  sl_head :: "nat option"
  sl_tail :: "nat option"
  sl_cache_size :: int
  sl_cache :: "nat option"

type_synonym 't sheap = "nat \<rightharpoonup> 't snode"

definition new_SpinList :: "'t spinlist" where
  "new_SpinList = \<lparr>sl_head = None, sl_tail = None, sl_cache_size = 0, sl_cache = None\<rparr>"

text \<open>\<open>p->field = x\<close>.\<close>

definition heap_set :: "nat option \<Rightarrow> ('n \<Rightarrow> 'n) \<Rightarrow> (nat \<rightharpoonup> 'n) \<Rightarrow> (nat \<rightharpoonup> 'n) outcome" where
  "heap_set p f h =
     (case p of None \<Rightarrow> Fault
      | Some a \<Rightarrow> (case h a of None \<Rightarrow> Fault | Some n \<Rightarrow> Done (h(a \<mapsto> f n))))"

definition heap_get :: "nat option \<Rightarrow> (nat \<rightharpoonup> 'n) \<Rightarrow> 'n outcome" where
  "heap_get p h =
     (case p of None \<Rightarrow> Fault | Some a \<Rightarrow> (case h a of None \<Rightarrow> Fault | Some n \<Rightarrow> Done n))"

definition SpinList_node :: "nat \<Rightarrow> 't \<Rightarrow> 't sheap \<Rightarrow> 't spinlist \<Rightarrow> (nat \<times> 't sheap \<times> 't spinlist) outcome" where
  \<comment> \<open>a node from the cache or from \<open>new\<close>; \<open>cache->next\<close> is read after it was cleared\<close>
  "SpinList_node fresh t h l =
     (case sl_cache l of
        Some c \<Rightarrow>
          bind_outcome (heap_set (Some c) (sn_next_update (\<lambda>_. None)) h) (\<lambda>h.
          bind_outcome (heap_get (Some c) h) (\<lambda>n.
          bind_outcome (heap_set (Some c) (sn_t_update (\<lambda>_. t)) h) (\<lambda>h.
            Done (c, h, l\<lparr>sl_cache := sn_next n, sl_cache_size := sl_cache_size l - 1\<rparr>))))
      | None \<Rightarrow> Done (fresh, h(fresh \<mapsto> \<lparr>sn_t = t, sn_next = None, sn_pre = None\<rparr>), l))"

definition SpinList_push :: "nat \<Rightarrow> 't \<Rightarrow> 't sheap \<times> 't spinlist \<Rightarrow> ('t sheap \<times> 't spinlist) outcome" where
  "SpinList_push fresh t s =
     (case s of (h, l) \<Rightarrow>
       bind_outcome (SpinList_node fresh t h l) (\<lambda>(tmp, h, l).
         if sl_head l = None then Done (h, l\<lparr>sl_head := Some tmp, sl_tail := Some tmp\<rparr>)
         else
           bind_outcome (heap_set (Some tmp) (sn_next_update (\<lambda>_. sl_head l)) h) (\<lambda>h.
           bind_outcome (heap_set (sl_head l) (sn_pre_update (\<lambda>_. Some tmp)) h) (\<lambda>h.
             Done (h, l\<lparr>sl_head := Some tmp\<rparr>)))))"

definition SpinList_pop :: "'t sheap \<times> 't spinlist \<Rightarrow> ('t option \<times> 't sheap \<times> 't spinlist) outcome" where
  "SpinList_pop s =
     (case s of (h, l) \<Rightarrow>
       (case sl_tail l of
          None \<Rightarrow> Done (None, h, l)
        | Some a \<Rightarrow>
            bind_outcome (heap_get (Some a) h) (\<lambda>n.
            bind_outcome
              (case sn_pre n of
                 Some p \<Rightarrow> bind_outcome (heap_set (Some p) (sn_next_update (\<lambda>_. None)) h) (\<lambda>h. Done (h, l))
               | None \<Rightarrow> Done (h, l\<lparr>sl_head := None\<rparr>)) (\<lambda>(h, l).
              Done (Some (sn_t n), h(a := None), l\<lparr>sl_tail := sn_pre n\<rparr>)))))"

definition SpinList_empty :: "'t spinlist \<Rightarrow> bool" where
  "SpinList_empty l \<longleftrightarrow> sl_head l = None"

text \<open>The two lists after \<open>this->MoveTo(list)\<close> and \<open>this->Merge(list)\<close>.\<close>

definition SpinList_MoveTo :: "'t spinlist \<Rightarrow> 't spinlist \<Rightarrow> 't spinlist \<times> 't spinlist" where
  "SpinList_MoveTo this list =
     (this\<lparr>sl_head := None, sl_tail := None\<rparr>, list\<lparr>sl_head := sl_head this, sl_tail := sl_tail this\<rparr>)"

definition SpinList_Merge :: "'t sheap \<Rightarrow> 't spinlist \<Rightarrow> 't spinlist \<Rightarrow> ('t sheap \<times> 't spinlist \<times> 't spinlist) outcome" where
  "SpinList_Merge h this list =
     bind_outcome
       (if sl_head this = None
        then Done (h, this\<lparr>sl_head := sl_head list, sl_tail := sl_tail list\<rparr>)
        else
          bind_outcome (heap_set (sl_tail list) (sn_next_update (\<lambda>_. sl_head this)) h) (\<lambda>h.
          bind_outcome (heap_set (sl_head this) (sn_pre_update (\<lambda>_. sl_tail list)) h) (\<lambda>h.
            Done (h, this\<lparr>sl_head := sl_head list\<rparr>)))) (\<lambda>(h, this).
       Done (h, this, list\<lparr>sl_head := None, sl_tail := None\<rparr>))"

subsection \<open>The list a heap represents\<close>

definition first :: "nat list \<Rightarrow> nat option \<Rightarrow> nat option" where
  "first as n = (case as of [] \<Rightarrow> n | a # _ \<Rightarrow> Some a)"

definition final :: "nat list \<Rightarrow> nat option \<Rightarrow> nat option" where
  "final as p = (if as = [] then p else Some (last as))"

lemma first_final_simps [simp]:
  "first [] n = n" "first (a # as) n = Some a" "first (as @ bs) n = first as (first bs n)"
  "final [] p = p" "final (a # as) p = final as (Some a)" "final (as @ bs) p = final bs (final as p)"
  by (auto simp: first_def final_def split: list.splits)

fun dll :: "'t sheap \<Rightarrow> nat option \<Rightarrow> nat list \<Rightarrow> nat option \<Rightarrow> bool" where
  "dll h p [] n = True"
| "dll h p (a # as) n = ((\<exists>t. h a = Some \<lparr>sn_t = t, sn_next = first as n, sn_pre = p\<rparr>) \<and> dll h (Some a) as n)"

definition values_at :: "'t sheap \<Rightarrow> nat list \<Rightarrow> 't list" where
  "values_at h as = map (\<lambda>a. sn_t (the (h a))) as"

definition represents :: "'t sheap \<Rightarrow> 't spinlist \<Rightarrow> nat list \<Rightarrow> bool" where
  "represents h l as \<longleftrightarrow> distinct as \<and> sl_head l = first as None \<and> sl_tail l = final as None
     \<and> sl_cache l = None \<and> dll h None as None"

lemma dll_append [simp]: "dll h p (as @ bs) n = (dll h p as (first bs n) \<and> dll h (final as p) bs n)"
  by (induction as arbitrary: p) auto

lemma dll_cong: "(\<And>a. a \<in> set as \<Longrightarrow> h a = h' a) \<Longrightarrow> dll h p as n = dll h' p as n"
  by (induction as arbitrary: p) auto

lemma dll_upd [simp]: "a \<notin> set as \<Longrightarrow> dll (h(a := x)) p as n = dll h p as n"
  by (rule dll_cong) auto

lemma values_upd [simp]: "a \<notin> set as \<Longrightarrow> values_at (h(a := x)) as = values_at h as"
  by (auto simp: values_at_def)

lemma values_simps [simp]:
  "values_at h [] = []" "values_at h (a # as) = sn_t (the (h a)) # values_at h as"
  "values_at h (as @ bs) = values_at h as @ values_at h bs"
  by (auto simp: values_at_def)

lemma dll_dom: "dll h p as n \<Longrightarrow> a \<in> set as \<Longrightarrow> h a \<noteq> None"
  by (induction as arbitrary: p) auto

theorem push_represents:
  assumes "represents h l as" "h fresh = None"
  shows "\<exists>h' l'. SpinList_push fresh t (h, l) = Done (h', l') \<and> represents h' l' (fresh # as)
    \<and> values_at h' (fresh # as) = t # values_at h as
    \<and> (\<forall>x. x \<notin> set (fresh # as) \<longrightarrow> h' x = h x)"
proof (cases as)
  case Nil
  then show ?thesis using assms
    by (simp add: represents_def SpinList_push_def SpinList_node_def)
next
  case (Cons a bs)
  then obtain u where a: "h a = Some \<lparr>sn_t = u, sn_next = first bs None, sn_pre = None\<rparr>"
    "fresh \<noteq> a" "fresh \<notin> set bs" "a \<notin> set bs"
    using assms dll_dom [of h None as None fresh] by (auto simp: represents_def)
  then show ?thesis using assms Cons
    by (auto simp: represents_def SpinList_push_def SpinList_node_def heap_set_def fun_upd_twist)
qed

theorem pop_represents:
  assumes "represents h l as"
  shows "as = [] \<Longrightarrow> SpinList_pop (h, l) = Done (None, h, l)"
    and "as = bs @ [a] \<Longrightarrow> \<exists>h' l' t. SpinList_pop (h, l) = Done (Some t, h', l') \<and> represents h' l' bs
      \<and> values_at h as = values_at h' bs @ [t] \<and> h' a = None \<and> (\<forall>x. x \<notin> set as \<longrightarrow> h' x = h x)"
proof -
  show "as = [] \<Longrightarrow> SpinList_pop (h, l) = Done (None, h, l)"
    using assms by (simp add: represents_def SpinList_pop_def)
  assume as: "as = bs @ [a]"
  then obtain t where t: "h a = Some \<lparr>sn_t = t, sn_next = None, sn_pre = final bs None\<rparr>" "sl_tail l = Some a"
    using assms by (auto simp: represents_def)
  show "\<exists>h' l' t. SpinList_pop (h, l) = Done (Some t, h', l') \<and> represents h' l' bs
      \<and> values_at h as = values_at h' bs @ [t] \<and> h' a = None \<and> (\<forall>x. x \<notin> set as \<longrightarrow> h' x = h x)"
  proof (cases bs rule: rev_cases)
    case Nil
    then show ?thesis using assms as t by (auto simp: represents_def SpinList_pop_def heap_get_def)
  next
    case (snoc cs b)
    then obtain u where b: "h b = Some \<lparr>sn_t = u, sn_next = Some a, sn_pre = final cs None\<rparr>" "b \<noteq> a"
        "b \<notin> set cs" "a \<notin> set cs"
      using assms as by (auto simp: represents_def)
    then show ?thesis using assms as t snoc
      by (auto simp: represents_def SpinList_pop_def heap_get_def heap_set_def)
  qed
qed

subsection \<open>Moving and merging\<close>

theorem merge_represents:
  assumes "represents h this as" "represents h list bs" "set as \<inter> set bs = {}" "as = [] \<or> bs \<noteq> []"
  shows "\<exists>h' this' list'. SpinList_Merge h this list = Done (h', this', list')
    \<and> represents h' this' (bs @ as) \<and> represents h' list' []
    \<and> values_at h' (bs @ as) = values_at h bs @ values_at h as"
proof (cases as)
  case Nil
  then show ?thesis using assms by (simp add: represents_def SpinList_Merge_def)
next
  case (Cons a cs)
  then obtain ds d where bs: "bs = ds @ [d]" using assms(4) by (cases bs rule: rev_cases) auto
  have ne: "a \<noteq> d" "a \<notin> set ds" "d \<notin> set cs" "d \<notin> set ds" "a \<notin> set cs"
    using assms Cons bs by (auto simp: represents_def)
  obtain t u where "h a = Some \<lparr>sn_t = t, sn_next = first cs None, sn_pre = None\<rparr>"
    "h d = Some \<lparr>sn_t = u, sn_next = None, sn_pre = final ds None\<rparr>"
    using assms Cons bs by (auto simp: represents_def)
  moreover have "first ds (Some d) = Some d \<or> ds \<noteq> []" by (cases ds) auto
  ultimately show ?thesis
    using assms Cons bs ne
    by (auto simp: represents_def SpinList_Merge_def heap_set_def fun_upd_twist)
qed

text \<open>An empty argument for a list that holds tasks: the null \<open>tail\<close> is dereferenced.\<close>

lemma merge_empty_faults:
  assumes "represents h this (a # as)" "represents h list []"
  shows "SpinList_Merge h this list = Fault"
  using assms by (simp add: represents_def SpinList_Merge_def heap_set_def)

text \<open>\<open>MoveTo\<close> gives the tasks to its argument, whose own tasks are lost.\<close>

lemma move_represents:
  assumes "represents h this as" "represents h list bs" "SpinList_MoveTo this list = (this', list')"
  shows "represents h this' []" "represents h list' as"
  using assms by (auto simp: represents_def SpinList_MoveTo_def)

subsection \<open>SpinList is a FIFO queue\<close>

text \<open>The state with the allocator: addresses from \<open>sq_fresh\<close> on are unused.\<close>

record 't spin_queue =
  sq_heap :: "'t sheap"
  sq_list :: "'t spinlist"
  sq_fresh :: nat

fun follow :: "('n \<Rightarrow> nat option) \<Rightarrow> nat \<Rightarrow> (nat \<rightharpoonup> 'n) \<Rightarrow> nat option \<Rightarrow> nat list" where
  "follow nx 0 h p = []"
| "follow nx (Suc n) h p =
     (case p of None \<Rightarrow> []
      | Some a \<Rightarrow> (case h a of None \<Rightarrow> [] | Some x \<Rightarrow> a # follow nx n h (nx x)))"

definition sq_push :: "'t \<Rightarrow> 't spin_queue \<Rightarrow> 't spin_queue outcome" where
  "sq_push t q =
     bind_outcome (SpinList_push (sq_fresh q) t (sq_heap q, sq_list q)) (\<lambda>(h, l).
       Done \<lparr>sq_heap = h, sq_list = l, sq_fresh = Suc (sq_fresh q)\<rparr>)"

definition sq_pop :: "'t spin_queue \<Rightarrow> ('t option \<times> 't spin_queue) outcome" where
  "sq_pop q =
     bind_outcome (SpinList_pop (sq_heap q, sq_list q)) (\<lambda>(t, h, l).
       Done (t, q\<lparr>sq_heap := h, sq_list := l\<rparr>))"

definition sq_addrs :: "'t spin_queue \<Rightarrow> nat list" where
  "sq_addrs q = follow sn_next (Suc (sq_fresh q)) (sq_heap q) (sl_head (sq_list q))"

definition sq_items :: "'t spin_queue \<Rightarrow> 't list" where
  "sq_items q = rev (values_at (sq_heap q) (sq_addrs q))"

definition sq_inv :: "'t spin_queue \<Rightarrow> bool" where
  "sq_inv q \<longleftrightarrow> represents (sq_heap q) (sq_list q) (sq_addrs q) \<and> (\<forall>a\<ge>sq_fresh q. sq_heap q a = None)"

lemma follow_dll: "dll h p as None \<Longrightarrow> length as < n \<Longrightarrow> follow sn_next n h (first as None) = as"
proof (induction as arbitrary: p n)
  case (Cons a as)
  then obtain m where "n = Suc m" by (cases n) auto
  then show ?case using Cons by auto
qed (auto simp: gr0_conv_Suc)

lemma sq_addrs_represents:
  assumes "represents (sq_heap q) (sq_list q) as" "\<forall>a\<ge>sq_fresh q. sq_heap q a = None"
  shows "sq_addrs q = as"
proof -
  have r: "distinct as" "dll (sq_heap q) None as None" "sl_head (sq_list q) = first as None"
    using assms(1) by (auto simp: represents_def)
  have "set as \<subseteq> {..<sq_fresh q}"
    using dll_dom [OF r(2)] assms(2) by (metis lessThan_iff linorder_not_less subsetI)
  then have "length as \<le> sq_fresh q"
    using card_mono [of "{..<sq_fresh q}" "set as"] distinct_card [OF r(1)] by simp
  then show ?thesis unfolding sq_addrs_def r(3) by (intro follow_dll [OF r(2)]) simp
qed

lemma sq_invI:
  assumes "represents (sq_heap q) (sq_list q) as" "\<forall>a\<ge>sq_fresh q. sq_heap q a = None"
  shows "sq_inv q" "sq_items q = rev (values_at (sq_heap q) as)"
  using sq_addrs_represents [OF assms] assms by (auto simp: sq_inv_def sq_items_def)

lemma sq_push_step:
  assumes "sq_inv q"
  shows "\<exists>q'. sq_push t q = Done q' \<and> sq_inv q' \<and> sq_items q' = sq_items q @ [t]"
proof -
  note i = assms [unfolded sq_inv_def]
  obtain h' l' where p: "SpinList_push (sq_fresh q) t (sq_heap q, sq_list q) = Done (h', l')"
    "represents h' l' (sq_fresh q # sq_addrs q)"
    "values_at h' (sq_fresh q # sq_addrs q) = t # values_at (sq_heap q) (sq_addrs q)"
    "\<forall>x. x \<notin> set (sq_fresh q # sq_addrs q) \<longrightarrow> h' x = sq_heap q x"
    using push_represents [OF conjunct1 [OF i], of "sq_fresh q" t] spec [OF conjunct2 [OF i], of "sq_fresh q"]
    by auto
  let ?q = "\<lparr>sq_heap = h', sq_list = l', sq_fresh = Suc (sq_fresh q)\<rparr>"
  have r: "sq_push t q = Done ?q" by (simp add: sq_push_def p(1))
  have "\<forall>a\<ge>Suc (sq_fresh q). h' a = None"
  proof (intro allI impI)
    fix a assume a: "Suc (sq_fresh q) \<le> a"
    then have "sq_heap q a = None" using i by simp
    moreover from this have "a \<notin> set (sq_addrs q)"
      using i dll_dom [of "sq_heap q" None "sq_addrs q" None a] by (auto simp: represents_def)
    ultimately show "h' a = None" using p(4) a by simp
  qed
  then have "sq_inv ?q" "sq_items ?q = sq_items q @ [t]"
    using sq_invI [of ?q] p(2,3) by (auto simp: sq_items_def)
  then show ?thesis using r by blast
qed

lemma sq_pop_step:
  assumes "sq_inv q"
  shows "sq_items q = [] \<Longrightarrow> sq_pop q = Done (None, q)"
    and "sq_items q = x # xs \<Longrightarrow> \<exists>q'. sq_pop q = Done (Some x, q') \<and> sq_inv q' \<and> sq_items q' = xs"
proof -
  note i = assms [unfolded sq_inv_def]
  show "sq_items q = [] \<Longrightarrow> sq_pop q = Done (None, q)"
    using pop_represents(1) [OF conjunct1 [OF i]] by (simp add: sq_items_def values_at_def sq_pop_def)
  assume x: "sq_items q = x # xs"
  then have "sq_addrs q \<noteq> []" by (auto simp: sq_items_def)
  then obtain bs a where snoc: "sq_addrs q = bs @ [a]" by (cases "sq_addrs q" rule: rev_cases) auto
  obtain h' l' u where p: "SpinList_pop (sq_heap q, sq_list q) = Done (Some u, h', l')" "represents h' l' bs"
    "values_at (sq_heap q) (sq_addrs q) = values_at h' bs @ [u]" "h' a = None"
    "\<forall>x. x \<notin> set (sq_addrs q) \<longrightarrow> h' x = sq_heap q x"
    using pop_represents(2) [OF conjunct1 [OF i] snoc] by blast
  let ?r = "q\<lparr>sq_heap := h', sq_list := l'\<rparr>"
  have "\<forall>x\<ge>sq_fresh q. h' x = None"
    using p(5) i dll_dom [of "sq_heap q" None "sq_addrs q" None] by (metis represents_def)
  then have "sq_inv ?r" "sq_items ?r = rev (values_at h' bs)"
    using sq_invI [of ?r bs] p(2) by auto
  moreover have "x = u" "xs = rev (values_at h' bs)" using x p(3) by (simp_all add: sq_items_def)
  ultimately show "\<exists>q'. sq_pop q = Done (Some x, q') \<and> sq_inv q' \<and> sq_items q' = xs"
    using p(1) by (simp add: sq_pop_def)
qed

interpretation spin: fifo sq_push sq_pop sq_items sq_inv
  by unfold_locales (auto simp: sq_push_step sq_pop_step)

definition new_spin_queue :: "'t spin_queue" where
  "new_spin_queue = \<lparr>sq_heap = Map.empty, sq_list = new_SpinList, sq_fresh = 0\<rparr>"

lemma new_spin_queue [simp]: "sq_inv new_spin_queue" "sq_items new_spin_queue = []"
  using sq_invI [of new_spin_queue "[]"]
  by (auto simp: new_spin_queue_def represents_def new_SpinList_def)

section \<open>WorkQueue\<close>

text \<open>
  \<open>wn_t\<close> is \<open>None\<close> in a node that was only default constructed. \<open>wq_linking\<close> is the local \<open>n\<close>
  of the thread that holds \<open>pushlock\<close> between its two stores, \<open>wq_garbage\<close> the local \<open>node\<close>
  of the threads that left \<open>poplock\<close> and have not deleted it yet.
\<close>

record 't wnode =
  wn_next :: "nat option"
  wn_t :: "'t option"

record 't workqueue =
  wq_heap :: "nat \<rightharpoonup> 't wnode"
  wq_head :: nat
  wq_tail :: nat
  wq_linking :: "nat option"
  wq_garbage :: "nat list"
  wq_fresh :: nat

definition new_WorkQueue :: "'t workqueue" where
  "new_WorkQueue =
     \<lparr>wq_heap = [0 \<mapsto> \<lparr>wn_next = None, wn_t = None\<rparr>], wq_head = 0, wq_tail = 0,
      wq_linking = None, wq_garbage = [], wq_fresh = 1\<rparr>"

text \<open>\<open>push\<close>: \<open>new Node()\<close>, \<open>n->_t = t\<close> and, with the lock, \<open>tail->next = n\<close>; then \<open>tail = n\<close>.\<close>

definition wq_link :: "'t \<Rightarrow> 't workqueue \<Rightarrow> 't workqueue outcome" where
  "wq_link t q =
     (let n = wq_fresh q in
      bind_outcome (heap_set (Some (wq_tail q)) (wn_next_update (\<lambda>_. Some n))
          ((wq_heap q)(n \<mapsto> \<lparr>wn_next = None, wn_t = Some t\<rparr>))) (\<lambda>h.
        Done (q\<lparr>wq_heap := h, wq_linking := Some n, wq_fresh := Suc n\<rparr>)))"

definition wq_swing :: "nat \<Rightarrow> 't workqueue \<Rightarrow> 't workqueue" where
  "wq_swing n q = q\<lparr>wq_tail := n, wq_linking := None\<rparr>"

text \<open>\<open>pop\<close>: the part under \<open>poplock\<close>, then \<open>delete node\<close>.\<close>

definition wq_take :: "'t workqueue \<Rightarrow> ('t option option \<times> 't workqueue) outcome" where
  "wq_take q =
     bind_outcome (heap_get (Some (wq_head q)) (wq_heap q)) (\<lambda>node.
       case wn_next node of
         None \<Rightarrow> Done (None, q)
       | Some nh \<Rightarrow>
           bind_outcome (heap_get (Some nh) (wq_heap q)) (\<lambda>new_head.
             Done (Some (wn_t new_head), q\<lparr>wq_head := nh, wq_garbage := wq_head q # wq_garbage q\<rparr>)))"

definition wq_free :: "nat \<Rightarrow> 't workqueue \<Rightarrow> 't workqueue outcome" where
  "wq_free a q =
     (if wq_heap q a = None then Fault
      else Done (q\<lparr>wq_heap := (wq_heap q)(a := None), wq_garbage := remove1 a (wq_garbage q)\<rparr>))"

text \<open>The accesses of any number of pushing and popping threads, in any order the locks allow.\<close>

datatype 't wq_event = Link 't | Swing | Take "'t option option" | Free

inductive wq_step :: "'t workqueue \<Rightarrow> 't wq_event \<Rightarrow> 't workqueue outcome \<Rightarrow> bool" where
  link: "wq_linking q = None \<Longrightarrow> wq_step q (Link t) (wq_link t q)"
| swing: "wq_linking q = Some n \<Longrightarrow> wq_step q Swing (Done (wq_swing n q))"
| take: "wq_take q = Done (r, q') \<Longrightarrow> wq_step q (Take r) (Done q')"
| take_fault: "wq_take q = Fault \<Longrightarrow> wq_step q (Take None) Fault"
| free: "a \<in> set (wq_garbage q) \<Longrightarrow> wq_step q Free (wq_free a q)"

inductive_cases wq_stepE: "wq_step q e r"

inductive wq_run :: "'t workqueue \<Rightarrow> 't wq_event list \<Rightarrow> 't workqueue \<Rightarrow> bool" where
  none: "wq_run q [] q"
| some: "wq_run q es r \<Longrightarrow> wq_step r e (Done s) \<Longrightarrow> wq_run q (es @ [e]) s"

fun linked :: "'t wq_event list \<Rightarrow> 't option list" where
  "linked [] = []"
| "linked (Link t # es) = Some t # linked es"
| "linked (_ # es) = linked es"

fun taken :: "'t wq_event list \<Rightarrow> 't option list" where
  "taken [] = []"
| "taken (Take (Some t) # es) = t # taken es"
| "taken (_ # es) = taken es"

lemma linked_append [simp]: "linked (xs @ ys) = linked xs @ linked ys"
  by (induction xs rule: linked.induct) auto

lemma taken_append [simp]: "taken (xs @ ys) = taken xs @ taken ys"
  by (induction xs rule: taken.induct) auto

fun wchain :: "(nat \<rightharpoonup> 't wnode) \<Rightarrow> nat list \<Rightarrow> nat option \<Rightarrow> bool" where
  "wchain h [] n = True"
| "wchain h (a # as) n = ((\<exists>x. h a = Some x \<and> wn_next x = first as n) \<and> wchain h as n)"

lemma wchain_append [simp]: "wchain h (as @ bs) n = (wchain h as (first bs n) \<and> wchain h bs n)"
  by (induction as) auto

lemma wchain_upd [simp]: "a \<notin> set as \<Longrightarrow> wchain (h(a := x)) as n = wchain h as n"
  by (induction as) auto

definition wq_values :: "(nat \<rightharpoonup> 't wnode) \<Rightarrow> nat list \<Rightarrow> 't option list" where
  "wq_values h as = map (\<lambda>a. wn_t (the (h a))) as"

lemma wq_values_upd [simp]: "a \<notin> set as \<Longrightarrow> wq_values (h(a := x)) as = wq_values h as"
  by (auto simp: wq_values_def)

text \<open>The sentinel \<open>s\<close>, the addresses \<open>as\<close> of the queued nodes, and the nodes to delete.\<close>

definition wq_rep :: "'t workqueue \<Rightarrow> nat list \<Rightarrow> bool" where
  "wq_rep q as \<longleftrightarrow> wchain (wq_heap q) (wq_head q # as) None
     \<and> distinct (wq_garbage q @ wq_head q # as)
     \<and> (\<forall>a\<in>set (wq_garbage q). wq_heap q a \<noteq> None)
     \<and> (\<forall>a\<ge>wq_fresh q. wq_heap q a = None)
     \<and> (case wq_linking q of None \<Rightarrow> wq_tail q = last (wq_head q # as)
        | Some n \<Rightarrow> n = last (wq_head q # as))"

lemma wchain_dom: "wchain h as n \<Longrightarrow> a \<in> set as \<Longrightarrow> h a \<noteq> None"
  by (induction as) auto

lemma wq_rep_new: "wq_rep new_WorkQueue []"
  by (simp add: wq_rep_def new_WorkQueue_def)

lemma wq_link_rep:
  assumes r: "wq_rep q as" and l: "wq_linking q = None"
  shows "\<exists>q'. wq_link t q = Done q' \<and> wq_rep q' (as @ [wq_fresh q]) \<and>
    wq_values (wq_heap q') (as @ [wq_fresh q]) = wq_values (wq_heap q) as @ [Some t]"
proof -
  let ?n = "wq_fresh q" and ?t = "wq_tail q" and ?as = "wq_head q # as"
  have "?t = last ?as" using r l by (simp add: wq_rep_def)
  then obtain bs where bs: "?as = bs @ [?t]" using append_butlast_last_id [of ?as] by (metis list.distinct(1))
  have w: "wchain (wq_heap q) (bs @ [?t]) None" "distinct (wq_garbage q @ bs @ [?t])"
    using r bs by (auto simp: wq_rep_def)
  then obtain x where x: "wq_heap q ?t = Some x" "wn_next x = None" by auto
  have n: "wq_heap q ?n = None" using r by (simp add: wq_rep_def)
  have new: "?n \<notin> set ?as" "?n \<notin> set (wq_garbage q)"
    using r n wchain_dom [of "wq_heap q" ?as None ?n] by (auto simp: wq_rep_def)
  let ?h = "(wq_heap q)(?n \<mapsto> \<lparr>wn_next = None, wn_t = Some t\<rparr>, ?t \<mapsto> x\<lparr>wn_next := Some ?n\<rparr>)"
  have ne: "?t \<noteq> ?n" using n x by auto
  have link: "wq_link t q = Done (q\<lparr>wq_heap := ?h, wq_linking := Some ?n, wq_fresh := Suc ?n\<rparr>)"
    using x ne by (simp add: wq_link_def heap_set_def Let_def)
  have tb: "?t \<notin> set bs" using w(2) by auto
  have "wchain ?h ((bs @ [?t]) @ [?n]) None"
    using w(1) tb ne new bs by (cases bs) auto
  then have "wchain ?h (?as @ [?n]) None" by (simp only: bs)
  moreover have "(\<forall>a\<ge>Suc ?n. ?h a = None)" using r x(1) by (auto simp: wq_rep_def)
  ultimately have "wq_rep (q\<lparr>wq_heap := ?h, wq_linking := Some ?n, wq_fresh := Suc ?n\<rparr>) (as @ [?n])"
    using r new by (auto simp: wq_rep_def)
  moreover have "wq_values ?h (as @ [?n]) = wq_values (wq_heap q) as @ [Some t]"
    using new ne x(1) by (auto simp: wq_values_def)
  ultimately show ?thesis using link by auto
qed

lemma wq_take_rep:
  assumes "wq_rep q as"
  shows "as = [] \<Longrightarrow> wq_take q = Done (None, q)"
    and "as = a # bs \<Longrightarrow> \<exists>q'. wq_take q = Done (Some (wn_t (the (wq_heap q a))), q') \<and> wq_rep q' bs
      \<and> wq_heap q' = wq_heap q"
  using assms by (auto simp: wq_rep_def wq_take_def heap_get_def split: option.splits)

lemma wq_swing_rep: "wq_rep q as \<Longrightarrow> wq_linking q = Some n \<Longrightarrow> wq_rep (wq_swing n q) as"
  by (auto simp: wq_rep_def wq_swing_def)

lemma wq_free_rep:
  assumes "wq_rep q as" "a \<in> set (wq_garbage q)"
  shows "\<exists>q'. wq_free a q = Done q' \<and> wq_rep q' as \<and> wq_values (wq_heap q') as = wq_values (wq_heap q) as"
proof -
  have "a \<noteq> wq_head q" "a \<notin> set as" "wq_heap q a \<noteq> None" using assms by (auto simp: wq_rep_def)
  then show ?thesis using assms by (auto simp: wq_rep_def wq_free_def split: option.splits)
qed

lemma wq_step_rep:
  assumes "wq_rep q as" "wq_step q e r"
  shows "\<exists>q' bs. r = Done q' \<and> wq_rep q' bs \<and>
    wq_values (wq_heap q) as @ linked [e] = taken [e] @ wq_values (wq_heap q') bs"
  using assms(2)
proof (cases rule: wq_step.cases)
  case (link t)
  then show ?thesis using wq_link_rep [OF assms(1), of t] by fastforce
next
  case (swing n)
  then show ?thesis using wq_swing_rep [OF assms(1), of n] by (auto simp: wq_swing_def)
next
  case (take x q')
  show ?thesis
  proof (cases as)
    case Nil
    then show ?thesis using take assms wq_take_rep(1) [OF assms(1)] by auto
  next
    case (Cons a bs)
    then show ?thesis using take wq_take_rep(2) [OF assms(1) Cons] by (auto simp: wq_values_def)
  qed
next
  case take_fault
  then show ?thesis using wq_take_rep [OF assms(1)] by (cases as) auto
next
  case (free a)
  then show ?thesis using wq_free_rep [OF assms(1), of a] by (auto intro!: exI [of _ as])
qed

theorem wq_run_rep:
  assumes "wq_run q es r" "q = new_WorkQueue"
  shows "\<exists>as. wq_rep r as \<and> linked es = taken es @ wq_values (wq_heap r) as"
  using assms
proof induction
  case (none q)
  then show ?case using wq_rep_new by (auto simp: wq_values_def)
next
  case (some q es r e s)
  then obtain as where as: "wq_rep r as" "linked es = taken es @ wq_values (wq_heap r) as" by blast
  from wq_step_rep [OF as(1) some.hyps(2)] as(2) show ?case by auto
qed

subsection \<open>WorkQueue is a FIFO queue\<close>

text \<open>The two operations one at a time.\<close>

definition wq_push :: "'t \<Rightarrow> 't workqueue \<Rightarrow> 't workqueue outcome" where
  "wq_push t q = bind_outcome (wq_link t q) (\<lambda>q'. Done (wq_swing (wq_fresh q) q'))"

definition wq_pop :: "'t workqueue \<Rightarrow> ('t option \<times> 't workqueue) outcome" where
  \<comment> \<open>a node that holds no task would give an indeterminate one: a fault here\<close>
  "wq_pop q =
     bind_outcome (wq_take q) (\<lambda>(r, q').
       case r of
         None \<Rightarrow> Done (None, q')
       | Some None \<Rightarrow> Fault
       | Some (Some t) \<Rightarrow> bind_outcome (wq_free (wq_head q) q') (\<lambda>q''. Done (Some t, q'')))"

definition wq_addrs :: "'t workqueue \<Rightarrow> nat list" where
  "wq_addrs q = tl (follow wn_next (Suc (wq_fresh q)) (wq_heap q) (Some (wq_head q)))"

definition wq_items :: "'t workqueue \<Rightarrow> 't list" where
  "wq_items q = map the (wq_values (wq_heap q) (wq_addrs q))"

definition wq_inv :: "'t workqueue \<Rightarrow> bool" where
  "wq_inv q \<longleftrightarrow> wq_rep q (wq_addrs q) \<and> wq_linking q = None
     \<and> None \<notin> set (wq_values (wq_heap q) (wq_addrs q))"

lemma follow_wchain: "wchain h as None \<Longrightarrow> length as < n \<Longrightarrow> follow wn_next n h (first as None) = as"
proof (induction as arbitrary: n)
  case (Cons a as)
  then obtain m where "n = Suc m" by (cases n) auto
  then show ?case using Cons by auto
qed (auto simp: gr0_conv_Suc)

lemma wq_addrs_rep:
  assumes "wq_rep q as"
  shows "wq_addrs q = as"
proof -
  let ?as = "wq_head q # as"
  have r: "distinct ?as" "wchain (wq_heap q) ?as None" using assms by (auto simp: wq_rep_def)
  have "set ?as \<subseteq> {..<wq_fresh q}"
    using wchain_dom [OF r(2)] assms by (metis lessThan_iff linorder_not_less subsetI wq_rep_def)
  then have "length ?as \<le> wq_fresh q"
    using card_mono [of "{..<wq_fresh q}" "set ?as"] distinct_card [OF r(1)] by simp
  then show ?thesis using follow_wchain [OF r(2), of "Suc (wq_fresh q)"] by (simp add: wq_addrs_def)
qed

lemma wq_invI:
  assumes "wq_rep q as" "wq_linking q = None" "None \<notin> set (wq_values (wq_heap q) as)"
  shows "wq_inv q" "wq_items q = map the (wq_values (wq_heap q) as)"
  using assms wq_addrs_rep [OF assms(1)] by (simp_all add: wq_inv_def wq_items_def)

lemma wq_push_step:
  assumes "wq_inv q"
  shows "\<exists>r. wq_push t q = Done r \<and> wq_inv r \<and> wq_items r = wq_items q @ [t]"
proof -
  note i = assms [unfolded wq_inv_def]
  obtain q' where q': "wq_link t q = Done q'" "wq_rep q' (wq_addrs q @ [wq_fresh q])"
    "wq_values (wq_heap q') (wq_addrs q @ [wq_fresh q]) = wq_values (wq_heap q) (wq_addrs q) @ [Some t]"
    using wq_link_rep [OF conjunct1 [OF i], of t] i by auto
  have l: "wq_linking q' = Some (wq_fresh q)"
    using q'(1) by (auto simp: wq_link_def Let_def bind_outcome_Done_iff)
  have "wq_push t q = Done (wq_swing (wq_fresh q) q')" by (simp add: wq_push_def q'(1))
  moreover note s = wq_swing_rep [OF q'(2) l]
  moreover have "wq_inv (wq_swing (wq_fresh q) q')" "wq_items (wq_swing (wq_fresh q) q') = wq_items q @ [t]"
    using wq_invI [OF s] i q'(3) by (auto simp: wq_swing_def wq_items_def)
  ultimately show ?thesis by blast
qed

lemma wq_pop_step:
  assumes "wq_inv q"
  shows "wq_items q = [] \<Longrightarrow> wq_pop q = Done (None, q)"
    and "wq_items q = x # xs \<Longrightarrow> \<exists>r. wq_pop q = Done (Some x, r) \<and> wq_inv r \<and> wq_items r = xs"
proof -
  note i = assms [unfolded wq_inv_def]
  show "wq_items q = [] \<Longrightarrow> wq_pop q = Done (None, q)"
    using wq_take_rep(1) [OF conjunct1 [OF i]] by (simp add: wq_items_def wq_values_def wq_pop_def)
  assume x: "wq_items q = x # xs"
  then obtain a bs where Cons: "wq_addrs q = a # bs" by (cases "wq_addrs q") (auto simp: wq_items_def wq_values_def)
  obtain q1 where q1: "wq_take q = Done (Some (wn_t (the (wq_heap q a))), q1)" "wq_rep q1 bs"
    "wq_heap q1 = wq_heap q" using wq_take_rep(2) [OF conjunct1 [OF i] Cons] by blast
  obtain u where u: "wn_t (the (wq_heap q a)) = Some u"
    using i Cons by (cases "wn_t (the (wq_heap q a))") (auto simp: wq_values_def)
  have g: "wq_head q \<in> set (wq_garbage q1)" "wq_linking q1 = wq_linking q"
    using q1(1) by (auto simp: wq_take_def bind_outcome_Done_iff split: option.splits)
  obtain r where r: "wq_free (wq_head q) q1 = Done r" "wq_rep r bs"
    "wq_values (wq_heap r) bs = wq_values (wq_heap q1) bs" using wq_free_rep [OF q1(2) g(1)] by blast
  have "wq_linking r = None" using r(1) g(2) i by (auto simp: wq_free_def split: if_splits)
  note n = wq_invI [OF r(2) this]
  have "wq_pop q = Done (Some u, r)" by (simp add: wq_pop_def q1(1) u r(1))
  then show "\<exists>r. wq_pop q = Done (Some x, r) \<and> wq_inv r \<and> wq_items r = xs"
    using n i Cons u r(3) q1(3) x by (auto simp: wq_items_def wq_values_def)
qed

interpretation work: fifo wq_push wq_pop wq_items wq_inv
  by unfold_locales (auto simp: wq_push_step wq_pop_step)

lemma new_WorkQueue_inv [simp]: "wq_inv new_WorkQueue" "wq_items new_WorkQueue = []"
  using wq_invI [OF wq_rep_new] by (auto simp: new_WorkQueue_def wq_values_def)

end
