(* ===== verification/Hash.thy ===== *)
theory Hash
  imports Prelude
begin

unbundle bit_operations_syntax

text \<open>
  \<open>common/murmurhash.h\<close> and the number conversions of \<open>common/covert.h\<close> (with the digit
  tables of \<open>common/covert.cpp\<close>).
\<close>

section \<open>murmurhash\<close>

text \<open>\<open>*data++\<close> through a \<open>const uint64_t*\<close>: eight bytes, the first one lowest.\<close>

definition byte :: "char \<Rightarrow> 64 word" where
  "byte c = word_of_nat (of_char c)"

fun le_word :: "string \<Rightarrow> 64 word" where
  "le_word [] = 0"
| "le_word (c # cs) = byte c OR push_bit 8 (le_word cs)"

definition mm_m :: "64 word" where
  "mm_m = 0xc6a4a7935bd1e995"

definition mm_block :: "64 word \<Rightarrow> 64 word \<Rightarrow> 64 word" where
  "mm_block h k =
     (let k = k * mm_m; k = k XOR drop_bit 47 k; k = k * mm_m in (h XOR k) * mm_m)"

fun mm_blocks :: "64 word \<Rightarrow> string \<Rightarrow> 64 word \<times> string" where
  "mm_blocks h s =
     (if length s < 8 then (h, s) else mm_blocks (mm_block h (le_word (take 8 s))) (drop 8 s))"

declare mm_blocks.simps [simp del]

definition mm_tail :: "64 word \<Rightarrow> string \<Rightarrow> 64 word" where
  "mm_tail h t =
     (let x = (\<lambda>i h. if i < length t then h XOR push_bit (8 * i) (byte (t ! i)) else h);
          h = x 6 h; h = x 5 h; h = x 4 h; h = x 3 h; h = x 2 h; h = x 1 h in
      if t = [] then h else x 0 h * mm_m)"

definition murmurhash :: "string \<Rightarrow> 64 word" where
  "murmurhash key =
     (let (h, t) = mm_blocks 0x5bd1e995 key; h = mm_tail h t;
          h = h XOR drop_bit 47 h; h = h * mm_m in h XOR drop_bit 47 h)"

text \<open>The loop over the blocks ends with fewer than eight bytes, a suffix of the key.\<close>

lemma mm_blocks_rest: "mm_blocks h s = (h', t) \<Longrightarrow> length t = length s mod 8 \<and> (\<exists>u. s = u @ t)"
proof (induction h s rule: mm_blocks.induct)
  case (1 h s)
  show ?case
  proof (cases "length s < 8")
    case False
    then have m: "mm_blocks (mm_block h (le_word (take 8 s))) (drop 8 s) = (h', t)"
      using 1(2) by (subst (asm) mm_blocks.simps) simp
    from 1(1) [OF False m] obtain u where "length t = length (drop 8 s) mod 8" "drop 8 s = u @ t"
      by blast
    moreover have "s = take 8 s @ drop 8 s" by simp
    ultimately show ?thesis using False by (metis append_assoc length_drop linorder_not_less le_mod_geq)
  qed (use 1(2) in \<open>simp add: mm_blocks.simps\<close>)
qed

section \<open>convert\<close>

definition digits :: string where
  "digits = ''9876543210123456789''"

definition digitsHex :: string where
  "digitsHex = ''0123456789ABCDEF''"

text \<open>C++ division truncates towards zero, the remainder has the sign of the dividend.\<close>

definition c_div :: "int \<Rightarrow> int \<Rightarrow> int" where
  "c_div a b = sgn a * sgn b * (\<bar>a\<bar> div \<bar>b\<bar>)"

definition c_rem :: "int \<Rightarrow> int \<Rightarrow> int" where
  "c_rem a b = a - c_div a b * b"

lemma c_div_10: "c_div i 10 = (if i < 0 then - ((- i) div 10) else i div 10)"
  by (auto simp: c_div_def sgn_if)

text \<open>The \<open>do\<close> loop: the digits come out last one first.\<close>

function convert_loop :: "int \<Rightarrow> string" where
  "convert_loop i =
     (let c = digits ! nat (9 + c_rem i 10); i' = c_div i 10
      in c # (if i' \<noteq> 0 then convert_loop i' else []))"
  by pat_completeness auto
termination
  by (relation "measure (\<lambda>i. nat \<bar>i\<bar>)") (auto simp: c_div_10 split: if_splits)

declare convert_loop.simps [simp del]

definition convert :: "int \<Rightarrow> string" where
  "convert value = rev (convert_loop value @ (if value < 0 then ''-'' else []))"

lemma digits_nth: "- 9 \<le> d \<Longrightarrow> d \<le> 9 \<Longrightarrow> digits ! nat (9 + d) = digit_char (nat \<bar>d\<bar>)"
proof -
  have all: "\<forall>k<19. digits ! k = digit_char (nat \<bar>int k - 9\<bar>)" by code_simp
  assume "- 9 \<le> d" "d \<le> 9"
  then show ?thesis using all [rule_format, of "nat (9 + d)"] by simp
qed

lemma c_rem_10: "nat \<bar>c_rem i 10\<bar> = nat \<bar>i\<bar> mod 10" "- 9 \<le> c_rem i 10" "c_rem i 10 \<le> 9"
proof -
  have "c_rem i 10 = (if i < 0 then - ((- i) mod 10) else i mod 10)"
    using minus_div_mult_eq_mod [of "- i" 10] minus_div_mult_eq_mod [of i 10]
    by (simp add: c_rem_def c_div_10)
  then show "nat \<bar>c_rem i 10\<bar> = nat \<bar>i\<bar> mod 10" "- 9 \<le> c_rem i 10" "c_rem i 10 \<le> 9"
    by (auto simp: nat_mod_distrib)
qed

lemma convert_loop_dec: "rev (convert_loop i) = dec_str (nat \<bar>i\<bar>)"
proof (induction i rule: convert_loop.induct)
  case (1 i)
  have d: "digits ! nat (9 + c_rem i 10) = digit_char (nat \<bar>i\<bar> mod 10)"
    using digits_nth [OF c_rem_10(2,3)] c_rem_10(1) by simp
  have n: "nat \<bar>c_div i 10\<bar> = nat \<bar>i\<bar> div 10" by (auto simp: c_div_10 nat_div_distrib)
  show ?case
  proof (cases "c_div i 10 = 0")
    case True
    then have "nat \<bar>i\<bar> < 10" using n by (simp add: div_eq_0_iff)
    then show ?thesis using True d by (subst convert_loop.simps, subst dec_str.simps) simp
  next
    case False
    then have "\<not> nat \<bar>i\<bar> < 10" using n by auto
    then show ?thesis
      using 1 [OF refl refl False] False d n by (subst convert_loop.simps, subst dec_str.simps) simp
  qed
qed

theorem convert_correct: "convert i = (if i < 0 then ''-'' else []) @ dec_str (nat \<bar>i\<bar>)"
  using convert_loop_dec [of i] by (simp add: convert_def)

fun convertHex_loop :: "nat \<Rightarrow> string" where
  "convertHex_loop i = digitsHex ! (i mod 16) # (if i div 16 \<noteq> 0 then convertHex_loop (i div 16) else [])"

declare convertHex_loop.simps [simp del]

definition convertHex :: "64 word \<Rightarrow> string" where
  \<comment> \<open>\<open>i & 0xF\<close> and \<open>i >> 4\<close> of the unsigned value\<close>
  "convertHex p = rev (convertHex_loop (unat p))"

text \<open>The value of a text of upper-case hexadecimal digits, by the codes of the characters.\<close>

definition hex_digit :: "char \<Rightarrow> nat" where
  "hex_digit c = (if c \<le> CHR ''9'' then of_char c - 48 else of_char c - 55)"

definition hex_val :: "string \<Rightarrow> nat" where
  "hex_val s = foldl (\<lambda>a c. 16 * a + hex_digit c) 0 s"

lemma digitsHex_nth:
  assumes "k < 16"
  shows "hex_digit (digitsHex ! k) = k" "digitsHex ! k \<in> set ''0123456789ABCDEF''"
    "digitsHex ! k = CHR ''0'' \<longleftrightarrow> k = 0"
proof -
  have "\<forall>k<16. hex_digit (digitsHex ! k) = k \<and> digitsHex ! k \<in> set ''0123456789ABCDEF'' \<and>
      (digitsHex ! k = CHR ''0'' \<longleftrightarrow> k = 0)" by code_simp
  then show "hex_digit (digitsHex ! k) = k" "digitsHex ! k \<in> set ''0123456789ABCDEF''"
    "digitsHex ! k = CHR ''0'' \<longleftrightarrow> k = 0" using assms by blast+
qed

lemma convertHex_loop_val: "hex_val (rev (convertHex_loop n)) = n"
proof (induction n rule: convertHex_loop.induct)
  case (1 n)
  have d: "hex_digit (digitsHex ! (n mod 16)) = n mod 16" by (rule digitsHex_nth) simp
  show ?case
    using 1 d by (subst convertHex_loop.simps) (auto simp: hex_val_def)
qed

lemma convertHex_loop_set:
  assumes "\<And>k. k < 16 \<Longrightarrow> digitsHex ! k \<in> S"
  shows "set (convertHex_loop n) \<subseteq> S"
proof (induction n rule: convertHex_loop.induct)
  case (1 n)
  have "digitsHex ! (n mod 16) \<in> S" by (rule assms) simp
  then show ?case using 1 by (subst convertHex_loop.simps) auto
qed

lemma convertHex_loop_digits: "set (convertHex_loop n) \<subseteq> set ''0123456789ABCDEF''"
  by (rule convertHex_loop_set [OF digitsHex_nth(2)])

lemma convertHex_loop_top: "last (convertHex_loop n) = CHR ''0'' \<longleftrightarrow> n = 0" "convertHex_loop n \<noteq> []"
proof (induction n rule: convertHex_loop.induct)
  case (1 n)
  show "convertHex_loop n \<noteq> []" by (subst convertHex_loop.simps) simp
  show "last (convertHex_loop n) = CHR ''0'' \<longleftrightarrow> n = 0"
  proof (cases "n div 16 = 0")
    case True
    then have "convertHex_loop n = [digitsHex ! (n mod 16)]"
      by (subst convertHex_loop.simps) simp
    moreover have "n < 16" using True by (simp add: div_eq_0_iff)
    ultimately show ?thesis using digitsHex_nth(3) [of n] by simp
  next
    case False
    then show ?thesis using 1 by (subst convertHex_loop.simps) auto
  qed
qed

text \<open>The digits are those of the value, with no leading zero.\<close>

theorem convertHex_correct:
  "hex_val (convertHex p) = unat p" "set (convertHex p) \<subseteq> set ''0123456789ABCDEF''"
  "hd (convertHex p) = CHR ''0'' \<longleftrightarrow> p = 0" "convertHex p \<noteq> []"
  using convertHex_loop_val [of "unat p"] convertHex_loop_digits [of "unat p"] convertHex_loop_top [of "unat p"]
  by (simp_all add: convertHex_def hd_rev unat_eq_0)

end
