(* ===== verification/Service_Pool.thy ===== *)
theory Service_Pool
  imports Hash
begin

text \<open>
  \<open>rpc/rpc_service_pool.h\<close> and the service lookup of \<open>rpc/rpc_server_impl.cpp\<close>. A board is
  never freed while the pool lives, so pointers to boards are indices into the list of the
  boards in the order they were made. \<open>SCHECK\<close> only logs: an index out of range behind it is
  \<open>Fault\<close>. The descriptors of the protobuf library are given by their names.
\<close>

section \<open>MethodBoard\<close>

definition STAT_SLOT_COUNT :: nat where
  "STAT_SLOT_COUNT = 602"

text \<open>The counters are \<open>int64\<close>: words that wrap, compared as signed numbers.\<close>

record stat_slot =
  succeed_count :: "64 word"
  succeed_process_time :: "64 word"
  succeed_max_process_time :: "64 word"
  failed_count :: "64 word"
  failed_process_time :: "64 word"
  failed_max_process_time :: "64 word"

record method_board =
  mb_slots :: "stat_slot list"
  mb_index :: nat

definition zero_slot :: stat_slot where
  "zero_slot = \<lparr>succeed_count = 0, succeed_process_time = 0, succeed_max_process_time = 0,
     failed_count = 0, failed_process_time = 0, failed_max_process_time = 0\<rparr>"

definition new_MethodBoard :: method_board where
  "new_MethodBoard = \<lparr>mb_slots = replicate STAT_SLOT_COUNT zero_slot, mb_index = 0\<rparr>"

definition slot_report :: "bool \<Rightarrow> 64 word \<Rightarrow> stat_slot \<Rightarrow> stat_slot" where
  "slot_report succeed t s =
     (if succeed then
        s\<lparr>succeed_count := succeed_count s + 1, succeed_process_time := succeed_process_time s + t,
          succeed_max_process_time :=
            (if sint (succeed_max_process_time s) < sint t then t else succeed_max_process_time s)\<rparr>
      else
        s\<lparr>failed_count := failed_count s + 1, failed_process_time := failed_process_time s + t,
          failed_max_process_time :=
            (if sint (failed_max_process_time s) < sint t then t else failed_max_process_time s)\<rparr>)"

definition ReportProcessEnd :: "bool \<Rightarrow> 64 word \<Rightarrow> method_board \<Rightarrow> method_board" where
  "ReportProcessEnd succeed t b =
     b\<lparr>mb_slots := (mb_slots b)[mb_index b := slot_report succeed t (mb_slots b ! mb_index b)]\<rparr>"

definition NextSlot :: "method_board \<Rightarrow> method_board" where
  "NextSlot b =
     (let i = (if mb_index b + 1 = STAT_SLOT_COUNT then 0 else mb_index b + 1)
      in \<lparr>mb_slots = (mb_slots b)[i := zero_slot], mb_index = i\<rparr>)"

definition slot_add :: "stat_slot \<Rightarrow> stat_slot \<Rightarrow> stat_slot" where
  "slot_add out s =
     \<lparr>succeed_count = succeed_count out + succeed_count s,
      succeed_process_time = succeed_process_time out + succeed_process_time s,
      succeed_max_process_time =
        (if sint (succeed_max_process_time out) < sint (succeed_max_process_time s) then succeed_max_process_time s
         else succeed_max_process_time out),
      failed_count = failed_count out + failed_count s,
      failed_process_time = failed_process_time out + failed_process_time s,
      failed_max_process_time =
        (if sint (failed_max_process_time out) < sint (failed_max_process_time s) then failed_max_process_time s
         else failed_max_process_time out)\<rparr>"

fun stats_loop :: "stat_slot list \<Rightarrow> nat \<Rightarrow> nat \<Rightarrow> stat_slot \<Rightarrow> stat_slot" where
  "stats_loop slots 0 index out = out"
| "stats_loop slots (Suc n) index out =
     stats_loop slots n (if index = 0 then STAT_SLOT_COUNT - 1 else index - 1)
       (slot_add out (slots ! index))"

text \<open>A non-positive count leaves the loop at once.\<close>

definition LatestStats :: "int \<Rightarrow> method_board \<Rightarrow> stat_slot" where
  "LatestStats n b =
     stats_loop (mb_slots b) (nat n)
       (if mb_index b = 0 then STAT_SLOT_COUNT - 1 else mb_index b - 1) zero_slot"

subsection \<open>The statistics of the last periods\<close>

text \<open>
  The abstract board: the calls reported in every period, the current one first. The ring of
  602 slots is a window on it.
\<close>

type_synonym period = "(bool \<times> 64 word) list"

text \<open>What a list of calls amounts to: how many, their times added up, and the longest one.\<close>

definition longest :: "64 word list \<Rightarrow> 64 word" where
  "longest ts = word_of_int (Max (insert 0 (sint ` set ts)))"

definition times_of :: "bool \<Rightarrow> period \<Rightarrow> 64 word list" where
  "times_of ok cs = map snd (filter (\<lambda>c. fst c = ok) cs)"

definition stats_of :: "period \<Rightarrow> stat_slot" where
  "stats_of cs =
     \<lparr>succeed_count = word_of_nat (length (times_of True cs)),
      succeed_process_time = sum_list (times_of True cs),
      succeed_max_process_time = longest (times_of True cs),
      failed_count = word_of_nat (length (times_of False cs)),
      failed_process_time = sum_list (times_of False cs),
      failed_max_process_time = longest (times_of False cs)\<rparr>"

lemma sint_longest: "sint (longest ts) = Max (insert 0 (sint ` set ts))"
proof -
  have "Max (insert 0 (sint ` set ts)) \<in> insert 0 (sint ` set ts)" by (rule Max_in) auto
  moreover have "(0 :: int) = sint (0 :: 64 word)" by simp
  ultimately obtain w :: "64 word" where "Max (insert 0 (sint ` set ts)) = sint w" by (metis imageE insertE)
  then show ?thesis by (simp add: longest_def)
qed

lemma word_longest: "sint w = Max (insert 0 (sint ` set ts)) \<Longrightarrow> longest ts = w"
  using sint_longest [of ts] by (metis signed_word_eqI)

lemma longest_Nil [simp]: "longest [] = 0"
  by (simp add: longest_def)

lemma longest_append:
  "longest (ts @ us) = (if sint (longest ts) < sint (longest us) then longest us else longest ts)"
proof (rule word_longest)
  have "Max (insert 0 (sint ` set (ts @ us))) = Max (insert 0 (sint ` set ts) \<union> insert 0 (sint ` set us))"
    by (rule arg_cong [of _ _ Max]) auto
  also have "\<dots> = max (sint (longest ts)) (sint (longest us))"
    unfolding sint_longest by (rule Max_Un) auto
  finally show "sint (if sint (longest ts) < sint (longest us) then longest us else longest ts) =
      Max (insert 0 (sint ` set (ts @ us)))" by (simp add: max_def)
qed

lemma longest_single: "longest [t] = (if 0 < sint t then t else 0)"
  by (rule word_longest) (auto simp: max_def)

lemma longest_nonneg: "0 \<le> sint (longest ts)"
  unfolding sint_longest by simp

lemma longest_snoc: "longest (ts @ [t]) = (if sint (longest ts) < sint t then t else longest ts)"
  using longest_nonneg [of ts] by (auto simp: longest_append longest_single)

lemma times_of_simps [simp]:
  "times_of ok [] = []" "times_of ok (cs @ ds) = times_of ok cs @ times_of ok ds"
  "times_of ok [(ok', t)] = (if ok' = ok then [t] else [])"
  by (simp_all add: times_of_def)

lemma stats_of_Nil: "stats_of [] = zero_slot"
  by (simp add: stats_of_def zero_slot_def)

lemma slot_report_stats: "slot_report ok t (stats_of cs) = stats_of (cs @ [(ok, t)])"
  by (simp add: slot_report_def stats_of_def longest_snoc)

lemma slot_add_stats: "slot_add (stats_of cs) (stats_of ds) = stats_of (cs @ ds)"
  by (simp add: slot_add_def stats_of_def longest_append)

lemma foldl_slot_add: "foldl slot_add (stats_of cs) (map (\<lambda>k. stats_of (f k)) ks) = stats_of (cs @ concat (map f ks))"
  by (induction ks arbitrary: cs) (simp_all add: slot_add_stats)

datatype board_event = Report bool "64 word" | Tick

fun board_run :: "board_event list \<Rightarrow> method_board \<Rightarrow> method_board" where
  "board_run [] b = b"
| "board_run (Report ok t # es) b = board_run es (ReportProcessEnd ok t b)"
| "board_run (Tick # es) b = board_run es (NextSlot b)"

fun periods :: "board_event list \<Rightarrow> period list \<Rightarrow> period list" where
  "periods [] ps = ps"
| "periods (Report ok t # es) ps = periods es ((hd ps @ [(ok, t)]) # tl ps)"
| "periods (Tick # es) ps = periods es ([] # ps)"

definition period_calls :: "period list \<Rightarrow> nat \<Rightarrow> period" where
  "period_calls ps k = (if k < length ps then ps ! k else [])"

definition slot_back :: "method_board \<Rightarrow> nat \<Rightarrow> stat_slot" where
  "slot_back b k = mb_slots b ! ((mb_index b + STAT_SLOT_COUNT - k) mod STAT_SLOT_COUNT)"

definition board_ok :: "method_board \<Rightarrow> period list \<Rightarrow> bool" where
  "board_ok b ps \<longleftrightarrow> length (mb_slots b) = STAT_SLOT_COUNT \<and> mb_index b < STAT_SLOT_COUNT \<and> ps \<noteq> []
     \<and> (\<forall>k<STAT_SLOT_COUNT. slot_back b k = stats_of (period_calls ps k))"

lemma board_ok_new: "board_ok new_MethodBoard [[]]"
  by (auto simp: board_ok_def new_MethodBoard_def slot_back_def period_calls_def stats_of_Nil
      STAT_SLOT_COUNT_def)

lemma back_index_inj:
  assumes "i < STAT_SLOT_COUNT" "k < STAT_SLOT_COUNT" "j < STAT_SLOT_COUNT"
  shows "(i + STAT_SLOT_COUNT - k) mod STAT_SLOT_COUNT = (i + STAT_SLOT_COUNT - j) mod STAT_SLOT_COUNT \<longleftrightarrow> k = j"
  using assms by (auto simp: mod_if)

lemma board_ok_report:
  assumes "board_ok b ps"
  shows "board_ok (ReportProcessEnd ok t b) ((hd ps @ [(ok, t)]) # tl ps)"
proof -
  note b = assms [unfolded board_ok_def]
  have "slot_back (ReportProcessEnd ok t b) k = stats_of (period_calls ((hd ps @ [(ok, t)]) # tl ps) k)"
    if "k < STAT_SLOT_COUNT" for k
  proof (cases k)
    case 0
    have "slot_back b 0 = stats_of (period_calls ps 0)" using b by (simp add: STAT_SLOT_COUNT_def)
    then have "mb_slots b ! mb_index b = stats_of (hd ps)"
      using b by (simp add: slot_back_def period_calls_def hd_conv_nth)
    then show ?thesis
      using b 0 by (simp add: slot_back_def ReportProcessEnd_def period_calls_def slot_report_stats)
  next
    case (Suc j)
    have "(mb_index b + STAT_SLOT_COUNT - k) mod STAT_SLOT_COUNT \<noteq> mb_index b"
      using back_index_inj [of "mb_index b" k 0] b that Suc by (simp add: STAT_SLOT_COUNT_def)
    then have "slot_back (ReportProcessEnd ok t b) k = slot_back b k"
      by (simp add: slot_back_def ReportProcessEnd_def)
    then show ?thesis using b that Suc by (cases ps) (simp_all add: period_calls_def)
  qed
  then show ?thesis using b by (simp add: board_ok_def ReportProcessEnd_def)
qed

lemma board_ok_tick:
  assumes "board_ok b ps"
  shows "board_ok (NextSlot b) ([] # ps)"
proof -
  note b = assms [unfolded board_ok_def]
  define i where "i = (if mb_index b + 1 = STAT_SLOT_COUNT then 0 else mb_index b + 1)"
  have n: "NextSlot b = \<lparr>mb_slots = (mb_slots b)[i := zero_slot], mb_index = i\<rparr>"
    by (simp add: NextSlot_def i_def Let_def)
  have i: "i < STAT_SLOT_COUNT" using b by (auto simp: i_def)
  have "slot_back (NextSlot b) k = stats_of (period_calls ([] # ps) k)" if "k < STAT_SLOT_COUNT" for k
  proof (cases k)
    case 0
    then show ?thesis using b i by (simp add: slot_back_def n period_calls_def stats_of_Nil)
  next
    case (Suc j)
    have "(i + STAT_SLOT_COUNT - k) mod STAT_SLOT_COUNT \<noteq> i"
      using back_index_inj [of i k 0] i that Suc by simp
    moreover have "(i + STAT_SLOT_COUNT - k) mod STAT_SLOT_COUNT = (mb_index b + STAT_SLOT_COUNT - j) mod STAT_SLOT_COUNT"
      using b that Suc by (auto simp: i_def mod_if)
    ultimately have "slot_back (NextSlot b) k = slot_back b j" by (simp add: slot_back_def n)
    then show ?thesis using b that Suc by (simp add: period_calls_def)
  qed
  then show ?thesis using b i by (simp add: board_ok_def n)
qed

lemma board_run_ok: "board_ok b ps \<Longrightarrow> board_ok (board_run es b) (periods es ps)"
  by (induction es b arbitrary: ps rule: board_run.induct) (auto simp: board_ok_report board_ok_tick)

lemma stats_loop_back:
  assumes "board_ok b ps" "m + n \<le> Suc STAT_SLOT_COUNT" "0 < m"
  shows "stats_loop (mb_slots b) n ((mb_index b + STAT_SLOT_COUNT - m) mod STAT_SLOT_COUNT) out =
    foldl slot_add out (map (slot_back b) [m..<m + n])"
  using assms(2,3)
proof (induction n arbitrary: m out)
  case (Suc n)
  let ?i = "(mb_index b + STAT_SLOT_COUNT - m) mod STAT_SLOT_COUNT"
  have up: "[m..<m + Suc n] = m # [Suc m..<Suc m + n]" using upt_rec [of m "m + Suc n"] by simp
  show ?case
  proof (cases n)
    case 0
    then show ?thesis by (simp add: slot_back_def)
  next
    case (Suc k)
    have step: "(if ?i = 0 then STAT_SLOT_COUNT - 1 else ?i - 1) =
        (mb_index b + STAT_SLOT_COUNT - Suc m) mod STAT_SLOT_COUNT"
      using Suc Suc.prems assms(1) by (auto simp: mod_if board_ok_def)
    show ?thesis using Suc.IH [of "Suc m"] Suc.prems up by (simp add: step slot_back_def)
  qed
qed simp

text \<open>
  The calls of the last \<open>n\<close> periods before the current one, the latest first. \<open>SCHECK\<close> lets 602
  periods pass, but the ring has only 601 behind the current one: the last slot read is then the
  current one itself.
\<close>

definition calls_before :: "period list \<Rightarrow> nat \<Rightarrow> period" where
  "calls_before ps n = concat (map (\<lambda>k. period_calls ps (k mod STAT_SLOT_COUNT)) [1..<Suc n])"

theorem latest_stats:
  assumes "n \<le> STAT_SLOT_COUNT"
  shows "LatestStats (int n) (board_run es new_MethodBoard) = stats_of (calls_before (periods es [[]]) n)"
proof -
  let ?b = "board_run es new_MethodBoard" and ?ps = "periods es [[]]"
  have ok: "board_ok ?b ?ps" by (rule board_run_ok [OF board_ok_new])
  have start: "(if mb_index ?b = 0 then STAT_SLOT_COUNT - 1 else mb_index ?b - 1) =
      (mb_index ?b + STAT_SLOT_COUNT - 1) mod STAT_SLOT_COUNT"
    using ok by (auto simp: board_ok_def mod_if)
  have "LatestStats (int n) ?b = foldl slot_add zero_slot (map (slot_back ?b) [1..<1 + n])"
    unfolding LatestStats_def start nat_int by (rule stats_loop_back [OF ok]) (use assms in auto)
  also have "map (slot_back ?b) [1..<1 + n] =
      map (\<lambda>k. stats_of (period_calls ?ps (k mod STAT_SLOT_COUNT))) [1..<Suc n]"
  proof (rule map_cong)
    fix k assume "k \<in> set [1..<Suc n]"
    then have "k \<le> STAT_SLOT_COUNT" using assms by auto
    moreover have "slot_back ?b STAT_SLOT_COUNT = slot_back ?b 0"
      using ok by (simp add: slot_back_def board_ok_def)
    moreover have "0 < STAT_SLOT_COUNT" by (simp add: STAT_SLOT_COUNT_def)
    ultimately show "slot_back ?b k = stats_of (period_calls ?ps (k mod STAT_SLOT_COUNT))"
      using ok by (cases "k = STAT_SLOT_COUNT") (auto simp: board_ok_def)
  qed simp
  finally show ?thesis using foldl_slot_add [of "[]" "\<lambda>k. period_calls ?ps (k mod STAT_SLOT_COUNT)" "[1..<Suc n]"]
    by (simp add: stats_of_Nil calls_before_def)
qed

section \<open>ServiceBoard\<close>

record method_desc =
  md_name :: string
  md_full_name :: string
  md_input :: string    \<comment> \<open>\<open>input_type()->full_name()\<close>\<close>
  md_output :: string

record service =
  sv_full_name :: string
  sv_methods :: "method_desc list"

record service_board =
  sb_next :: "nat option"
  sb_svc :: service
  sb_own :: bool
  sb_boards :: "method_board list"

definition new_ServiceBoard :: "nat option \<Rightarrow> service \<Rightarrow> bool \<Rightarrow> service_board" where
  "new_ServiceBoard nxt svc own =
     \<lparr>sb_next = nxt, sb_svc = svc, sb_own = own,
      sb_boards = replicate (length (sv_methods svc)) new_MethodBoard\<rparr>"

definition sb_ReportProcessEnd :: "int \<Rightarrow> bool \<Rightarrow> 64 word \<Rightarrow> service_board \<Rightarrow> service_board outcome" where
  "sb_ReportProcessEnd m ok t b =
     (if 0 \<le> m \<and> m < int (length (sb_boards b))
      then Done (b\<lparr>sb_boards := (sb_boards b)[nat m := ReportProcessEnd ok t (sb_boards b ! nat m)]\<rparr>)
      else Fault)"

definition sb_LatestStats :: "int \<Rightarrow> int \<Rightarrow> service_board \<Rightarrow> stat_slot outcome" where
  "sb_LatestStats m n b =
     (if 0 \<le> m \<and> m < int (length (sb_boards b)) then Done (LatestStats n (sb_boards b ! nat m)) else Fault)"

definition sb_NextSlot :: "service_board \<Rightarrow> service_board" where
  "sb_NextSlot b = b\<lparr>sb_boards := map NextSlot (sb_boards b)\<rparr>"

text \<open>\<open>GetRealPeriod\<close>: the real period and the number of slots; the \<open>int\<close> \<open>sc\<close> keeps the low
  32 bits of the 64-bit value.\<close>

definition GetRealPeriod :: "int \<Rightarrow> int \<times> int" where
  "GetRealPeriod expect =
     (let sc = (if 1 < expect then signed_take_bit 31 ((expect - 1) div 1 + 1) else 1);
          sc = min sc (int STAT_SLOT_COUNT - 2)
      in (sc * 1, sc))"

section \<open>ServicePool\<close>

definition SERVICE_CACHE_SLOT_COUNT :: nat where
  "SERVICE_CACHE_SLOT_COUNT = 1019"

record service_pool =
  sp_boards :: "service_board list"    \<comment> \<open>the boards on the heap\<close>
  sp_map :: "(string, nat) smap"
  sp_head :: "nat option"
  sp_count :: int
  sp_cache :: "nat option list"

definition new_ServicePool :: service_pool where
  "new_ServicePool = \<lparr>sp_boards = [], sp_map = [], sp_head = None, sp_count = 0,
     sp_cache = replicate SERVICE_CACHE_SLOT_COUNT None\<rparr>"

definition CacheIndex :: "string \<Rightarrow> nat" where
  "CacheIndex name = unat (murmurhash name mod word_of_nat SERVICE_CACHE_SLOT_COUNT)"

definition board_name :: "service_pool \<Rightarrow> nat \<Rightarrow> string" where
  "board_name p i = sv_full_name (sb_svc (sp_boards p ! i))"

definition pool_RegisterService :: "service \<Rightarrow> bool \<Rightarrow> service_pool \<Rightarrow> bool \<times> service_pool" where
  "pool_RegisterService svc own p =
     (if map_of (sp_map p) (sv_full_name svc) \<noteq> None then (False, p)
      else
        let i = length (sp_boards p); c = CacheIndex (sv_full_name svc) in
        (True, \<lparr>sp_boards = sp_boards p @ [new_ServiceBoard (sp_head p) svc own],
           sp_map = smap_set (sv_full_name svc) i (sp_map p),
           sp_head = Some i,
           sp_count = sp_count p + 1,
           sp_cache = (if sp_cache p ! c = None then (sp_cache p)[c := Some i] else sp_cache p)\<rparr>))"

definition FindService :: "string \<Rightarrow> service_pool \<Rightarrow> nat option" where
  "FindService name p =
     (case sp_cache p ! CacheIndex name of
        Some i \<Rightarrow> if board_name p i = name then Some i else map_of (sp_map p) name
      | None \<Rightarrow> map_of (sp_map p) name)"

text \<open>The loops along the list of boards stop at a null pointer; \<open>None\<close> is a cyclic list.\<close>

partial_function (option) list_loop ::
  "service_board list \<Rightarrow> nat option \<Rightarrow> (string, nat) smap \<Rightarrow> (string, nat) smap option" where
  "list_loop bs sp m =
     (case sp of None \<Rightarrow> Some m
      | Some i \<Rightarrow> list_loop bs (sb_next (bs ! i)) (smap_set (sv_full_name (sb_svc (bs ! i))) i m))"

definition ListService :: "service_pool \<Rightarrow> nat list option" where
  "ListService p = map_option (map snd) (list_loop (sp_boards p) (sp_head p) [])"

definition ListService_services :: "service_pool \<Rightarrow> service list option" where
  "ListService_services p = map_option (map (\<lambda>i. sb_svc (sp_boards p ! i))) (ListService p)"

definition ServiceCount :: "service_pool \<Rightarrow> int" where
  "ServiceCount p = sp_count p"

partial_function (option) next_loop :: "nat option \<Rightarrow> service_board list \<Rightarrow> service_board list option" where
  "next_loop sp bs =
     (case sp of None \<Rightarrow> Some bs
      | Some i \<Rightarrow> next_loop (sb_next (bs[i := sb_NextSlot (bs ! i)] ! i)) (bs[i := sb_NextSlot (bs ! i)]))"

definition pool_NextSlot :: "service_pool \<Rightarrow> service_pool option" where
  "pool_NextSlot p = map_option (\<lambda>bs. p\<lparr>sp_boards := bs\<rparr>) (next_loop (sp_head p) (sp_boards p))"

text \<open>Every board is in the map under its name, the list runs through the boards from the last
  to the first, and the cache holds only boards of the pool in the slot of their names.\<close>

definition pool_ok :: "service_pool \<Rightarrow> bool" where
  "pool_ok p \<longleftrightarrow> smap_ok (sp_map p) \<and> length (sp_cache p) = SERVICE_CACHE_SLOT_COUNT
     \<and> sp_count p = int (length (sp_boards p))
     \<and> (\<forall>n i. map_of (sp_map p) n = Some i \<longleftrightarrow> i < length (sp_boards p) \<and> board_name p i = n)
     \<and> sp_head p = (if sp_boards p = [] then None else Some (length (sp_boards p) - 1))
     \<and> (\<forall>i<length (sp_boards p). sb_next (sp_boards p ! i) = (if i = 0 then None else Some (i - 1)))
     \<and> (\<forall>c<length (sp_cache p). \<forall>i. sp_cache p ! c = Some i \<longrightarrow>
          i < length (sp_boards p) \<and> CacheIndex (board_name p i) = c)"

lemma CacheIndex_less: "CacheIndex n < SERVICE_CACHE_SLOT_COUNT"
  by (simp add: CacheIndex_def SERVICE_CACHE_SLOT_COUNT_def unat_mod)

lemma pool_ok_new: "pool_ok new_ServicePool"
  by (auto simp: pool_ok_def new_ServicePool_def)

lemma pool_ok_register:
  assumes "pool_ok p" "pool_RegisterService svc own p = (ok, p')"
  shows "pool_ok p'"
proof (cases "map_of (sp_map p) (sv_full_name svc)")
  case (Some i)
  then show ?thesis using assms by (simp add: pool_RegisterService_def)
next
  case None
  note ok = assms(1) [unfolded pool_ok_def]
  let ?n = "sv_full_name svc" and ?i = "length (sp_boards p)"
  have p': "p' = \<lparr>sp_boards = sp_boards p @ [new_ServiceBoard (sp_head p) svc own],
      sp_map = smap_set ?n ?i (sp_map p), sp_head = Some ?i, sp_count = sp_count p + 1,
      sp_cache = (if sp_cache p ! CacheIndex ?n = None then (sp_cache p)[CacheIndex ?n := Some ?i] else sp_cache p)\<rparr>"
    using assms(2) None by (simp add: pool_RegisterService_def Let_def)
  have name: "board_name p' i = (if i = ?i then ?n else board_name p i)" if "i \<le> ?i" for i
    using that by (simp add: board_name_def p' nth_append new_ServiceBoard_def)
  have fresh: "board_name p i \<noteq> ?n" if "i < ?i" for i using ok None that by (metis option.distinct(1))
  have m: "map_of (sp_map p') n = Some i \<longleftrightarrow> i < length (sp_boards p') \<and> board_name p' i = n" for n i
  proof -
    have "map_of (sp_map p') = (map_of (sp_map p))(?n \<mapsto> ?i)" using ok by (simp add: p')
    then show ?thesis using ok name [of i] fresh [of i] by (auto simp: p' less_Suc_eq)
  qed
  have c: "i < length (sp_boards p') \<and> CacheIndex (board_name p' i) = c"
    if "c < length (sp_cache p')" "sp_cache p' ! c = Some i" for c i
  proof (cases "i = ?i")
    case True
    moreover have "sp_cache p ! c \<noteq> Some ?i" using ok that(1) by (auto simp: p' split: if_splits)
    ultimately have "c = CacheIndex ?n"
      using that by (cases "c = CacheIndex ?n") (auto simp: p' split: if_splits)
    then show ?thesis using True name [of i] by (simp add: p')
  next
    case False
    then have "c < length (sp_cache p)" "sp_cache p ! c = Some i"
      using that by (cases "c = CacheIndex ?n"; auto simp: p' split: if_splits)+
    then have "i < ?i \<and> CacheIndex (board_name p i) = c" using ok by blast
    then show ?thesis using name [of i] by (simp add: p')
  qed
  have s: "smap_ok (sp_map p')" using ok by (simp add: p')
  have n: "\<forall>i<length (sp_boards p'). sb_next (sp_boards p' ! i) = (if i = 0 then None else Some (i - 1))"
    using ok by (auto simp: p' nth_append new_ServiceBoard_def less_Suc_eq)
  have "length (sp_cache p') = SERVICE_CACHE_SLOT_COUNT" "sp_count p' = int (length (sp_boards p'))"
    "sp_head p' = (if sp_boards p' = [] then None else Some (length (sp_boards p') - 1))"
    using ok by (simp_all add: p')
  then show ?thesis unfolding pool_ok_def using s m n c by blast
qed

theorem FindService_map:
  assumes "pool_ok p"
  shows "FindService n p = map_of (sp_map p) n"
proof (cases "sp_cache p ! CacheIndex n")
  case (Some i)
  have "i < length (sp_boards p)" using assms Some CacheIndex_less [of n] by (auto simp: pool_ok_def)
  then have "map_of (sp_map p) (board_name p i) = Some i" using assms by (auto simp: pool_ok_def)
  then show ?thesis using Some by (auto simp: FindService_def)
qed (simp add: FindService_def)

theorem register_find:
  assumes "pool_ok p" "pool_RegisterService svc own p = (ok, p')"
  shows "ok \<longleftrightarrow> FindService (sv_full_name svc) p = None"
    and "FindService n p' = (if ok \<and> n = sv_full_name svc then Some (length (sp_boards p)) else FindService n p)"
proof -
  have ok': "pool_ok p'" by (rule pool_ok_register [OF assms])
  show "ok \<longleftrightarrow> FindService (sv_full_name svc) p = None"
    using assms(2) by (auto simp: FindService_map [OF assms(1)] pool_RegisterService_def Let_def split: if_splits)
  show "FindService n p' = (if ok \<and> n = sv_full_name svc then Some (length (sp_boards p)) else FindService n p)"
    using assms by (auto simp: FindService_map [OF assms(1)] FindService_map [OF ok'] pool_RegisterService_def
        Let_def pool_ok_def split: if_splits)
qed

definition down_from :: "service_board list \<Rightarrow> nat \<Rightarrow> bool" where
  "down_from bs k \<longleftrightarrow> k \<le> length bs \<and> (\<forall>i<k. sb_next (bs ! i) = (if i = 0 then None else Some (i - 1)))"

definition top :: "nat \<Rightarrow> nat option" where
  "top k = (if k = 0 then None else Some (k - 1))"

lemma list_loop_down:
  assumes "down_from bs k"
  shows "list_loop bs (top k) m =
    Some (fold (\<lambda>i. smap_set (sv_full_name (sb_svc (bs ! i))) i) (rev [0..<k]) m)"
  using assms
proof (induction k arbitrary: m)
  case 0
  then show ?case by (simp add: top_def list_loop.simps)
next
  case (Suc k)
  have "list_loop bs (top (Suc k)) m = list_loop bs (top k) (smap_set (sv_full_name (sb_svc (bs ! k))) k m)"
    using Suc.prems by (subst list_loop.simps) (simp add: top_def down_from_def)
  then show ?case using Suc.IH Suc.prems by (simp add: down_from_def)
qed

lemma fold_smap_set:
  assumes "smap_ok m" "inj_on f (set is)"
  shows "smap_ok (fold (\<lambda>i. smap_set (f i) i) is m)"
    and "map_of (fold (\<lambda>i. smap_set (f i) i) is m) n = Some j \<longleftrightarrow>
      (j \<in> set is \<and> f j = n) \<or> (n \<notin> f ` set is \<and> map_of m n = Some j)"
  using assms
proof (induction "is" arbitrary: m)
  case (Cons i "is")
  { case 1 then show ?case using Cons.IH(1) by simp }
  { case 2 then show ?case using Cons.IH(2) [of "smap_set (f i) i m"] by (auto simp: inj_on_def) }
qed auto

lemma smap_keys: "smap_ok m \<Longrightarrow> distinct (map fst m) \<and> sorted (map fst m)"
  using strict_sorted_iff by (auto simp: smap_ok_def)

lemma smap_of_keys: "smap_ok m \<Longrightarrow> map (\<lambda>k. (k, the (map_of m k))) (map fst m) = m"
  by (auto simp: comp_def intro!: map_idI dest!: smap_keys)

lemma smap_ext:
  assumes "smap_ok m" "smap_ok m'" "map_of m = map_of m'"
  shows "m = m'"
proof -
  have "set (map fst m) = set (map fst m')"
    using arg_cong [OF assms(3), of dom] by (simp add: dom_map_of_conv_image_fst)
  then have "map fst m = map fst m'"
    using smap_keys [OF assms(1)] smap_keys [OF assms(2)] sorted_distinct_set_unique by blast
  then show ?thesis using smap_of_keys [OF assms(1)] smap_of_keys [OF assms(2)] assms(3) by simp
qed

lemma pool_down: "pool_ok p \<Longrightarrow> down_from (sp_boards p) (length (sp_boards p))"
  "pool_ok p \<Longrightarrow> sp_head p = top (length (sp_boards p))"
  by (auto simp: pool_ok_def down_from_def top_def)

lemma option_eqI: "(\<And>j. a = Some j \<longleftrightarrow> b = Some j) \<Longrightarrow> a = b"
  by (metis option.exhaust)

theorem ListService_map:
  assumes "pool_ok p"
  shows "ListService p = Some (map snd (sp_map p))"
proof -
  let ?f = "board_name p" and ?n = "length (sp_boards p)"
  note ok = assms [unfolded pool_ok_def]
  have inj: "inj_on ?f (set (rev [0..<?n]))"
  proof (rule inj_onI)
    fix i j assume "i \<in> set (rev [0..<?n])" "j \<in> set (rev [0..<?n])" "?f i = ?f j"
    then have "map_of (sp_map p) (?f i) = Some i" "map_of (sp_map p) (?f i) = Some j" using ok by auto
    then show "i = j" by simp
  qed
  let ?m = "fold (\<lambda>i. smap_set (?f i) i) (rev [0..<?n]) []"
  have "map_of ?m n = Some j \<longleftrightarrow> map_of (sp_map p) n = Some j" for n j
  proof -
    have "map_of (sp_map p) n = Some j \<longleftrightarrow> j < ?n \<and> ?f j = n" using ok by blast
    then show ?thesis unfolding fold_smap_set(2) [OF smap_ok_Nil inj] by simp
  qed
  then have "map_of ?m = map_of (sp_map p)" by (intro ext option_eqI)
  moreover have "smap_ok ?m" by (rule fold_smap_set(1) [OF smap_ok_Nil inj])
  ultimately have "?m = sp_map p" using smap_ext ok by blast
  then show ?thesis
    using list_loop_down [OF pool_down(1) [OF assms], of "[]"] pool_down(2) [OF assms]
    by (simp add: ListService_def board_name_def)
qed

lemma next_loop_down:
  assumes "down_from bs k"
  shows "next_loop (top k) bs = Some (map sb_NextSlot (take k bs) @ drop k bs)"
  using assms
proof (induction k arbitrary: bs)
  case 0
  then show ?case by (simp add: top_def next_loop.simps)
next
  case (Suc k)
  let ?bs = "bs[k := sb_NextSlot (bs ! k)]"
  have k: "k < length bs" using Suc.prems by (simp add: down_from_def)
  then have "next_loop (top (Suc k)) bs = next_loop (top k) ?bs"
    using Suc.prems by (subst next_loop.simps) (simp add: top_def down_from_def sb_NextSlot_def)
  also have "\<dots> = Some (map sb_NextSlot (take k ?bs) @ drop k ?bs)"
    by (rule Suc.IH) (use Suc.prems in \<open>auto simp: down_from_def\<close>)
  finally show ?case using k by (simp add: take_Suc_conv_app_nth upd_conv_take_nth_drop)
qed

theorem pool_NextSlot_all:
  assumes "pool_ok p"
  shows "pool_NextSlot p = Some (p\<lparr>sp_boards := map sb_NextSlot (sp_boards p)\<rparr>)"
  using next_loop_down [OF pool_down(1) [OF assms]] pool_down(2) [OF assms]
  by (simp add: pool_NextSlot_def)

section \<open>The lookup of the server\<close>

text \<open>\<open>rfind('.')\<close>, \<open>substr(0, pos)\<close> and \<open>substr(pos + 1)\<close>.\<close>

definition rfind :: "char \<Rightarrow> string \<Rightarrow> nat option" where
  "rfind c s = (if c \<in> set s then Some (length s - 1 - length (takeWhile (\<lambda>x. x \<noteq> c) (rev s))) else None)"

definition ParseMethodFullName :: "string \<Rightarrow> (string \<times> string) option" where
  "ParseMethodFullName s =
     (case rfind CHR ''.'' s of None \<Rightarrow> None | Some pos \<Rightarrow> Some (take pos s, drop (pos + 1) s))"

text \<open>\<open>find_method\<close> is \<open>ServiceDescriptor::FindMethodByName\<close>. The result is the service, when
  one was stored, with the method.\<close>

definition handlerGetServiceAndMethod ::
  "(service \<Rightarrow> string \<Rightarrow> method_desc option) \<Rightarrow> string \<Rightarrow> service_pool \<Rightarrow>
   bool \<times> service option \<times> method_desc option" where
  "handlerGetServiceAndMethod find_method full_name p =
     (case ParseMethodFullName full_name of
        None \<Rightarrow> (False, None, None)
      | Some (s, m) \<Rightarrow>
          (case FindService s p of
             None \<Rightarrow> (False, None, None)
           | Some i \<Rightarrow>
               let svc = sb_svc (sp_boards p ! i); md = find_method svc m
               in (md \<noteq> None, Some svc, md)))"

definition method_line :: "method_desc \<Rightarrow> string" where
  "method_line m = md_output m @ '' '' @ md_full_name m @ ''('' @ md_input m @ '')'' @ [LF]"

definition listAllRegisterService :: "service_pool \<Rightarrow> string list" where
  "listAllRegisterService p =
     concat (map (\<lambda>(_, i). map method_line (rev (sv_methods (sb_svc (sp_boards p ! i))))) (sp_map p))"

lemma rfind_last:
  assumes "c \<notin> set t"
  shows "rfind c (s @ c # t) = Some (length s)"
proof -
  have "takeWhile (\<lambda>x. x \<noteq> c) (rev t @ c # rev s) = rev t"
    using assms by (subst takeWhile_append2) auto
  then show ?thesis by (simp add: rfind_def)
qed

theorem ParseMethodFullName_split:
  "ParseMethodFullName full = Some (s, m) \<longleftrightarrow> full = s @ ''.'' @ m \<and> CHR ''.'' \<notin> set m"
proof
  assume "full = s @ ''.'' @ m \<and> CHR ''.'' \<notin> set m"
  then show "ParseMethodFullName full = Some (s, m)"
    using rfind_last [of "CHR ''.''" m s] by (simp add: ParseMethodFullName_def)
next
  assume p: "ParseMethodFullName full = Some (s, m)"
  then have "CHR ''.'' \<in> set full" by (auto simp: ParseMethodFullName_def rfind_def split: if_splits)
  then obtain s' m' where f: "full = s' @ CHR ''.'' # m'" "CHR ''.'' \<notin> set m'"
    using split_list_last by metis
  then show "full = s @ ''.'' @ m \<and> CHR ''.'' \<notin> set m"
    using p rfind_last [OF f(2), of s'] by (auto simp: ParseMethodFullName_def)
qed

text \<open>A registered service answers for each of its methods.\<close>

theorem lookup_registered:
  assumes "pool_ok p" "pool_RegisterService svc own p = (True, p')"
    and "CHR ''.'' \<notin> set m" "find_method svc m = Some md"
  shows "handlerGetServiceAndMethod find_method (sv_full_name svc @ ''.'' @ m) p' = (True, Some svc, Some md)"
proof -
  have "FindService (sv_full_name svc) p' = Some (length (sp_boards p))"
    using register_find(2) [OF assms(1,2)] by simp
  moreover have "sb_svc (sp_boards p' ! length (sp_boards p)) = svc"
    using assms(2) by (auto simp: pool_RegisterService_def Let_def new_ServiceBoard_def split: if_splits)
  moreover have "ParseMethodFullName (sv_full_name svc @ ''.'' @ m) = Some (sv_full_name svc, m)"
    using assms(3) by (simp add: ParseMethodFullName_split del: append_Cons)
  ultimately show ?thesis using assms(4) by (simp add: handlerGetServiceAndMethod_def Let_def)
qed

end
