(* ===== verification/Io_Event.thy ===== *)
theory Io_Event
  imports Prelude "HOL-Library.Multiset"
begin

text \<open>
  \<open>IOEvent\<close> (\<open>mio/mio_event.cpp\<close>, \<open>mio/mio_event.h\<close>): the interest set of an event, its reference
  count, the word \<open>_events\<close> through which the poller hands readiness to the work group, and the
  texts for the log. The calls of \<open>OnEventAsync\<close> and of \<open>OnEventWrapper\<close> run in different threads;
  each atomic access to the shared words is one step of an inductive step relation.
\<close>

unbundle bit_operations_syntax

section \<open>Flags\<close>

abbreviation (input) EPOLLIN :: "32 word" where "EPOLLIN \<equiv> 0x1"
abbreviation (input) EPOLLPRI :: "32 word" where "EPOLLPRI \<equiv> 0x2"
abbreviation (input) EPOLLOUT :: "32 word" where "EPOLLOUT \<equiv> 0x4"
abbreviation (input) EPOLLERR :: "32 word" where "EPOLLERR \<equiv> 0x8"
abbreviation (input) EPOLLHUP :: "32 word" where "EPOLLHUP \<equiv> 0x10"
abbreviation (input) EPOLLRDNORM :: "32 word" where "EPOLLRDNORM \<equiv> 0x40"
abbreviation (input) EPOLLRDBAND :: "32 word" where "EPOLLRDBAND \<equiv> 0x80"
abbreviation (input) EPOLLWRNORM :: "32 word" where "EPOLLWRNORM \<equiv> 0x100"
abbreviation (input) EPOLLWRBAND :: "32 word" where "EPOLLWRBAND \<equiv> 0x200"
abbreviation (input) EPOLLMSG :: "32 word" where "EPOLLMSG \<equiv> 0x400"
abbreviation (input) EPOLLRDHUP :: "32 word" where "EPOLLRDHUP \<equiv> 0x2000"
abbreviation (input) EPOLLONESHOT :: "32 word" where "EPOLLONESHOT \<equiv> 0x40000000"
abbreviation (input) EPOLLET :: "32 word" where "EPOLLET \<equiv> 0x80000000"

definition EVENT_PENDING :: "32 word" where "EVENT_PENDING = 0x1"
definition EVENT_PROCESSING :: "32 word" where "EVENT_PROCESSING = 0x2"
definition EVENT_READ :: "32 word" where "EVENT_READ = 0x10"
definition EVENT_WRITE :: "32 word" where "EVENT_WRITE = 0x20"
definition EVENT_CLOSE :: "32 word" where "EVENT_CLOSE = 0x40"
definition READ_TIME_OUT :: "32 word" where "READ_TIME_OUT = 0x80"
definition WRITE_TIME_OUT :: "32 word" where "WRITE_TIME_OUT = 0x100"
definition EVENT_ERR :: "32 word" where "EVENT_ERR = 0x200"

lemmas event_flags = EVENT_PENDING_def EVENT_PROCESSING_def EVENT_READ_def EVENT_WRITE_def
  EVENT_CLOSE_def READ_TIME_OUT_def WRITE_TIME_OUT_def EVENT_ERR_def

section \<open>The event\<close>

record io_event =
  io_ev :: "32 word"
  io_fd :: "32 word"
  io_events :: "32 word"
  io_group :: bool
  io_refs :: int

definition new_IOEvent :: "bool \<Rightarrow> io_event" where
  "new_IOEvent grp = \<lparr>io_ev = EPOLLET, io_fd = 0, io_events = 0, io_group = grp, io_refs = 0\<rparr>"

definition RequireRef :: "io_event \<Rightarrow> io_event" where
  "RequireRef e = e\<lparr>io_refs := io_refs e + 1\<rparr>"

text \<open>The flag says that the count has reached zero: the object deletes itself.\<close>

definition ReleaseRef :: "io_event \<Rightarrow> bool \<times> io_event" where
  "ReleaseRef e = (io_refs e - 1 = 0, e\<lparr>io_refs := io_refs e - 1\<rparr>)"

definition SetEvent :: "bool \<Rightarrow> bool \<Rightarrow> 32 word \<Rightarrow> io_event \<Rightarrow> bool \<times> io_event" where
  "SetEvent readable writeable trigger e =
     (let w = trigger;
          w = (if readable then w OR (EPOLLIN OR EPOLLPRI) else w AND NOT (EPOLLIN OR EPOLLPRI));
          w = (if writeable then w OR EPOLLOUT else w AND NOT EPOLLOUT)
      in (io_ev e \<noteq> w, e\<lparr>io_ev := w\<rparr>))"

section \<open>Handing events to the work group\<close>

text \<open>
  \<open>OnEventAsync\<close> up to and including its atomic or: what it does next. \<open>Run_now\<close> is the case
  without a work group (the handler runs in the caller), \<open>Leave_it\<close> the early return because
  somebody else will see the bits, \<open>Post_it\<close> the way to \<open>RequireRef\<close> and \<open>Post\<close>.
\<close>

datatype async_next = Run_now | Leave_it | Post_it

definition OnEventAsync :: "32 word \<Rightarrow> io_event \<Rightarrow> async_next \<times> io_event" where
  "OnEventAsync m e =
     (if \<not> io_group e then (Run_now, e)
      else let pre = io_events e; e = e\<lparr>io_events := pre OR (m OR EVENT_PENDING)\<rparr> in
        if pre AND EVENT_PENDING \<noteq> 0 then (Leave_it, e)
        else if pre AND EVENT_PROCESSING \<noteq> 0 then (Leave_it, e)
        else (Post_it, e))"

text \<open>The two atomic accesses of \<open>OnEventWrapper\<close>: the swap at the top of its loop with the
  assertion on the old value, and the compare-and-swap that ends the loop.\<close>

definition OnEventWrapper_swap :: "io_event \<Rightarrow> (32 word \<times> io_event) outcome" where
  "OnEventWrapper_swap e =
     (let pre = io_events e in
      if pre AND EVENT_PENDING \<noteq> 0 then Done (pre, e\<lparr>io_events := EVENT_PROCESSING\<rparr>) else Fault)"

definition OnEventWrapper_compare :: "io_event \<Rightarrow> bool \<times> io_event" where
  "OnEventWrapper_compare e =
     (if io_events e = EVENT_PROCESSING then (True, e\<lparr>io_events := 0\<rparr>) else (False, e))"

text \<open>
  Where a wrapper task stands: between the or and \<open>RequireRef\<close>, between \<open>RequireRef\<close> and \<open>Post\<close>
  (both still in the thread that called \<open>OnEventAsync\<close>), in the queue of the group, before the
  swap, in \<open>OnEvent\<close>, before the compare-and-swap, and before its \<open>ReleaseRef\<close>.
\<close>

datatype phase = To_require | To_post | Queued | To_swap | Handling "32 word" | To_compare | To_release

text \<open>\<open>owners\<close> counts the references that others hold (the poller that has the event registered
  and is the one that calls \<open>OnEventAsync\<close>, the connection objects, the timers).\<close>

record io_system =
  sys_ev :: io_event
  sys_tasks :: "phase multiset"
  sys_owners :: nat
  sys_dead :: bool

datatype io_label = Raise "32 word" | Own | Disown | Handed "32 word" | Internal

definition mask_ok :: "32 word \<Rightarrow> bool" where
  "mask_ok m \<longleftrightarrow> m AND (EVENT_PENDING OR EVENT_PROCESSING) = 0"

inductive io_step :: "io_system \<Rightarrow> io_label \<Rightarrow> io_system outcome \<Rightarrow> bool" where
  raise_post: "0 < sys_owners s \<Longrightarrow> mask_ok m \<Longrightarrow> OnEventAsync m (sys_ev s) = (Post_it, e) \<Longrightarrow>
    io_step s (Raise m) (Done (s\<lparr>sys_ev := e, sys_tasks := add_mset To_require (sys_tasks s)\<rparr>))"
| raise_leave: "0 < sys_owners s \<Longrightarrow> mask_ok m \<Longrightarrow> OnEventAsync m (sys_ev s) = (Leave_it, e) \<Longrightarrow>
    io_step s (Raise m) (Done (s\<lparr>sys_ev := e\<rparr>))"
| own: "0 < sys_owners s \<Longrightarrow>
    io_step s Own (Done (s\<lparr>sys_ev := RequireRef (sys_ev s), sys_owners := Suc (sys_owners s)\<rparr>))"
| disown: "0 < sys_owners s \<Longrightarrow> 1 < sys_owners s \<or> To_require \<notin># sys_tasks s \<Longrightarrow>
    ReleaseRef (sys_ev s) = (d, e) \<Longrightarrow>
    io_step s Disown (Done (s\<lparr>sys_ev := e, sys_owners := sys_owners s - 1, sys_dead := d\<rparr>))"
| require: "sys_tasks s = add_mset To_require T \<Longrightarrow>
    io_step s Internal (Done (s\<lparr>sys_ev := RequireRef (sys_ev s), sys_tasks := add_mset To_post T\<rparr>))"
| post: "sys_tasks s = add_mset To_post T \<Longrightarrow>
    io_step s Internal (Done (s\<lparr>sys_tasks := add_mset Queued T\<rparr>))"
| start: "sys_tasks s = add_mset Queued T \<Longrightarrow>
    io_step s Internal (Done (s\<lparr>sys_tasks := add_mset To_swap T\<rparr>))"
| swap: "sys_tasks s = add_mset To_swap T \<Longrightarrow> OnEventWrapper_swap (sys_ev s) = Done (m, e) \<Longrightarrow>
    io_step s (Handed m) (Done (s\<lparr>sys_ev := e, sys_tasks := add_mset (Handling m) T\<rparr>))"
| swap_fault: "sys_tasks s = add_mset To_swap T \<Longrightarrow> OnEventWrapper_swap (sys_ev s) = Fault \<Longrightarrow>
    io_step s Internal Fault"
| handled: "sys_tasks s = add_mset (Handling m) T \<Longrightarrow>
    io_step s Internal (Done (s\<lparr>sys_tasks := add_mset To_compare T\<rparr>))"
| compare: "sys_tasks s = add_mset To_compare T \<Longrightarrow> OnEventWrapper_compare (sys_ev s) = (ok, e) \<Longrightarrow>
    io_step s Internal (Done (s\<lparr>sys_ev := e, sys_tasks := add_mset (if ok then To_release else To_swap) T\<rparr>))"
| release: "sys_tasks s = add_mset To_release T \<Longrightarrow> ReleaseRef (sys_ev s) = (d, e) \<Longrightarrow>
    io_step s Internal (Done (s\<lparr>sys_ev := e, sys_tasks := T, sys_dead := d\<rparr>))"

inductive io_run :: "io_system \<Rightarrow> io_label list \<Rightarrow> io_system \<Rightarrow> bool" where
  none: "io_run s [] s"
| some: "io_run s ls r \<Longrightarrow> io_step r l (Done t) \<Longrightarrow> io_run s (ls @ [l]) t"

text \<open>A registered event: its owner has taken the first reference.\<close>

definition new_system :: "io_event \<Rightarrow> io_system" where
  "new_system e = \<lparr>sys_ev = RequireRef e, sys_tasks = {#}, sys_owners = 1, sys_dead = False\<rparr>"

section \<open>Bits\<close>

lemma bit_pending [simp]: "bit EVENT_PENDING n \<longleftrightarrow> n = 0"
  by (simp add: EVENT_PENDING_def bit_1_iff)

lemma bit_processing [simp]: "bit EVENT_PROCESSING n \<longleftrightarrow> n = 1"
proof -
  have "bit EVENT_PROCESSING n = bit (push_bit 1 (1 :: 32 word)) n" by (simp add: EVENT_PROCESSING_def)
  also have "\<dots> \<longleftrightarrow> n = 1" by (simp only: bit_push_bit_iff bit_1_iff) auto
  finally show ?thesis .
qed

lemma and_eq_0_iff: "(v :: 32 word) AND w = 0 \<longleftrightarrow> (\<forall>n. \<not> (bit v n \<and> bit w n))"
proof -
  have "bit v n \<Longrightarrow> n < 32" for n using bit_imp_le_length [of v n] by simp
  then show ?thesis by (auto simp: bit_eq_iff bit_and_iff)
qed

lemma and_pending_iff: "w AND EVENT_PENDING \<noteq> 0 \<longleftrightarrow> bit w 0"
  by (simp only: and_eq_0_iff bit_pending) auto

lemma and_processing_iff: "w AND EVENT_PROCESSING \<noteq> 0 \<longleftrightarrow> bit w 1"
  by (simp only: and_eq_0_iff bit_processing) auto

lemma mask_ok_iff: "mask_ok m \<longleftrightarrow> \<not> bit m 0 \<and> \<not> bit m 1"
  by (simp only: mask_ok_def and_eq_0_iff bit_or_iff bit_pending bit_processing) metis

lemma event_masks_ok: "m \<in> {EVENT_READ, EVENT_WRITE, EVENT_CLOSE, READ_TIME_OUT, WRITE_TIME_OUT, EVENT_ERR}
  \<Longrightarrow> mask_ok m"
  by (auto simp: mask_ok_def event_flags)

section \<open>The protocol\<close>

text \<open>At most one task is between \<open>OnEventAsync\<close> and the successful compare-and-swap; \<open>PENDING\<close> is
  set while it has not yet swapped, and set again by whoever raises an event while it works.\<close>

definition phase_ok :: "32 word \<Rightarrow> phase \<Rightarrow> bool" where
  "phase_ok w p \<longleftrightarrow> (case p of
     To_release \<Rightarrow> False
   | Handling _ \<Rightarrow> bit w 1 \<and> (w \<noteq> EVENT_PROCESSING \<longrightarrow> bit w 0)
   | To_compare \<Rightarrow> bit w 1 \<and> (w \<noteq> EVENT_PROCESSING \<longrightarrow> bit w 0)
   | _ \<Rightarrow> bit w 0)"

definition counted :: "phase multiset \<Rightarrow> nat" where
  "counted T = size (filter_mset (\<lambda>p. p \<noteq> To_require) T)"

definition active :: "phase multiset \<Rightarrow> phase multiset" where
  "active T = filter_mset (\<lambda>p. p \<noteq> To_release) T"

definition io_inv :: "io_system \<Rightarrow> bool" where
  "io_inv s \<longleftrightarrow> io_group (sys_ev s)
     \<and> (active (sys_tasks s) = {#} \<and> io_events (sys_ev s) = 0 \<or>
        (\<exists>p. active (sys_tasks s) = {#p#} \<and> phase_ok (io_events (sys_ev s)) p))
     \<and> io_refs (sys_ev s) = int (sys_owners s + counted (sys_tasks s))
     \<and> (To_require \<in># sys_tasks s \<longrightarrow> 0 < sys_owners s)
     \<and> (sys_dead s \<longleftrightarrow> sys_owners s = 0 \<and> sys_tasks s = {#})"

lemma active_simps [simp]:
  "active {#} = {#}" "active (add_mset p T) = (if p = To_release then active T else add_mset p (active T))"
  by (simp_all add: active_def)

lemma counted_simps [simp]:
  "counted {#} = 0" "counted (add_mset p T) = (if p = To_require then counted T else Suc (counted T))"
  by (simp_all add: counted_def)

lemma counted_0: "counted T = 0 \<Longrightarrow> To_require \<notin># T \<Longrightarrow> T = {#}"
  by (cases T) (auto split: if_splits)

lemma active_require: "active T = {#} \<Longrightarrow> To_require \<notin># T"
  by (metis active_simps(2) add_mset_not_empty mset_add phase.distinct(11))


lemma OnEventAsync_group:
  "io_group e \<Longrightarrow> OnEventAsync m e =
     (if bit (io_events e) 0 \<or> bit (io_events e) 1 then Leave_it else Post_it,
      e\<lparr>io_events := io_events e OR (m OR EVENT_PENDING)\<rparr>)"
  by (simp add: OnEventAsync_def and_pending_iff [simplified] and_processing_iff [simplified] Let_def)

lemma phase_ok_raise: "phase_ok w p \<Longrightarrow> phase_ok (w OR (m OR EVENT_PENDING)) p"
  by (cases p) (auto simp: phase_ok_def bit_or_iff)

lemma phase_ok_pending: "phase_ok w p \<Longrightarrow> bit w 0 \<or> bit w 1"
  by (cases p) (auto simp: phase_ok_def)

lemma io_inv_new: "io_group e \<Longrightarrow> io_events e = 0 \<Longrightarrow> io_refs e = 0 \<Longrightarrow> io_inv (new_system e)"
  by (simp add: io_inv_def new_system_def RequireRef_def)

lemma io_step_inv:
  assumes "io_step s l r" "io_inv s"
  shows "\<exists>t. r = Done t \<and> io_inv t"
  using assms
proof (cases rule: io_step.cases)
  case (raise_post m e)
  then have e: "e = (sys_ev s)\<lparr>io_events := io_events (sys_ev s) OR (m OR EVENT_PENDING)\<rparr>"
    and n: "\<not> bit (io_events (sys_ev s)) 0" "\<not> bit (io_events (sys_ev s)) 1"
    using assms(2) by (auto simp: io_inv_def OnEventAsync_group split: if_splits)
  then have "active (sys_tasks s) = {#}" using assms(2) phase_ok_pending unfolding io_inv_def by blast
  then show ?thesis using raise_post assms(2) e by (auto simp: io_inv_def phase_ok_def bit_or_iff)
next
  case (raise_leave m e)
  then have e: "e = (sys_ev s)\<lparr>io_events := io_events (sys_ev s) OR (m OR EVENT_PENDING)\<rparr>"
    and n: "bit (io_events (sys_ev s)) 0 \<or> bit (io_events (sys_ev s)) 1"
    using assms(2) by (auto simp: io_inv_def OnEventAsync_group split: if_splits)
  then obtain p where "active (sys_tasks s) = {#p#}" "phase_ok (io_events (sys_ev s)) p"
    using assms(2) unfolding io_inv_def by force
  then show ?thesis using raise_leave assms(2) e phase_ok_raise by (auto simp: io_inv_def)
next
  case own
  then show ?thesis using assms(2) by (auto simp: io_inv_def RequireRef_def)
next
  case (disown d e)
  then show ?thesis using assms(2) counted_0 by (auto simp: io_inv_def ReleaseRef_def)
next
  case (require T)
  then show ?thesis using assms(2) by (auto simp: io_inv_def RequireRef_def phase_ok_def)
next
  case (post T)
  then show ?thesis using assms(2) by (auto simp: io_inv_def phase_ok_def)
next
  case (start T)
  then show ?thesis using assms(2) by (auto simp: io_inv_def phase_ok_def)
next
  case (swap T m e)
  then show ?thesis using assms(2)
    by (auto simp: io_inv_def phase_ok_def OnEventWrapper_swap_def Let_def split: if_splits)
next
  case (swap_fault T)
  then show ?thesis using assms(2) and_pending_iff [of "io_events (sys_ev s)"]
    by (auto simp: io_inv_def phase_ok_def OnEventWrapper_swap_def Let_def split: if_splits)
next
  case (handled m T)
  then show ?thesis using assms(2) by (auto simp: io_inv_def phase_ok_def)
next
  case (compare T ok e)
  then show ?thesis using assms(2)
    by (auto simp: io_inv_def phase_ok_def OnEventWrapper_compare_def split: if_splits)
next
  case (release T d e)
  then show ?thesis using assms(2) counted_0 by (auto simp: io_inv_def ReleaseRef_def)
qed


lemma io_run_inv: "io_run s ls t \<Longrightarrow> io_inv s \<Longrightarrow> io_inv t"
  by (induction rule: io_run.induct) (use io_step_inv in blast)+

lemma active_none: "io_inv s \<Longrightarrow> sys_tasks s = {#} \<Longrightarrow> io_events (sys_ev s) = 0"
  by (auto simp: io_inv_def)

subsection \<open>No event is lost\<close>

text \<open>The bits that have been raised and not been handed to \<open>OnEvent\<close> since.\<close>

fun undelivered :: "io_label list \<Rightarrow> 32 word" where
  "undelivered [] = 0"
| "undelivered (Raise m # ls) = undelivered ls OR m"
| "undelivered (Handed m # ls) = undelivered ls AND NOT m"
| "undelivered (_ # ls) = undelivered ls"

definition outstanding :: "io_label list \<Rightarrow> 32 word" where
  "outstanding ls = undelivered (rev ls)"

lemma outstanding_simps [simp]:
  "outstanding [] = 0"
  "outstanding (ls @ [Raise m]) = outstanding ls OR m"
  "outstanding (ls @ [Handed m]) = outstanding ls AND NOT m"
  "outstanding (ls @ [Own]) = outstanding ls" "outstanding (ls @ [Disown]) = outstanding ls"
  "outstanding (ls @ [Internal]) = outstanding ls"
  by (simp_all add: outstanding_def)

lemma outstanding_set:
  assumes "io_run s ls t" "io_inv s"
  shows "bit (outstanding ls) n \<Longrightarrow> 1 < n \<and> bit (io_events (sys_ev t)) n"
  using assms
proof (induction rule: io_run.induct)
  case (some s ls r l t)
  have r: "io_inv r" using some.hyps(1) some.prems(2) io_run_inv by blast
  have m: "bit m n \<Longrightarrow> mask_ok m \<Longrightarrow> 1 < n" for m
    by (metis less_one linorder_neqE_nat mask_ok_iff)
  have IH: "bit (outstanding ls) n \<longrightarrow> 1 < n \<and> bit (io_events (sys_ev r)) n"
    using some.IH some.prems(2) by blast
  from some.hyps(2) show ?case
  proof (cases rule: io_step.cases)
    case (raise_post m e)
    then show ?thesis using r IH some.prems(1) m [of m]
      by (auto simp: io_inv_def OnEventAsync_group bit_or_iff split: if_splits)
  next
    case (raise_leave m e)
    then show ?thesis using r IH some.prems(1) m [of m]
      by (auto simp: io_inv_def OnEventAsync_group bit_or_iff split: if_splits)
  next
    case (swap T m e)
    then have "m = io_events (sys_ev r)" by (simp add: OnEventWrapper_swap_def Let_def split: if_splits)
    then show ?thesis using swap IH some.prems(1) by (auto simp: bit_and_iff bit_not_iff)
  next
    case (compare T ok e)
    then show ?thesis using IH some.prems(1)
      by (auto simp: OnEventWrapper_compare_def split: if_splits)
  qed (use IH some.prems(1) in \<open>auto simp: RequireRef_def ReleaseRef_def\<close>)
qed simp

lemma outstanding_idle:
  assumes "io_run s ls t" "io_inv s" "sys_tasks t = {#}"
  shows "outstanding ls = 0"
proof (rule bit_eqI)
  fix n
  have "io_events (sys_ev t) = 0" using assms io_run_inv active_none by blast
  then show "bit (outstanding ls) n = bit 0 n" using outstanding_set [OF assms(1,2), of n] by auto
qed

subsection \<open>The tasks come to an end\<close>

fun phase_work :: "phase \<Rightarrow> nat" where
  "phase_work To_require = 7" | "phase_work To_post = 6" | "phase_work Queued = 5"
| "phase_work To_swap = 4" | "phase_work (Handling _) = 3" | "phase_work To_compare = 2"
| "phase_work To_release = 1"

text \<open>The steps left if nothing more is raised; a wrapper whose word was touched loops once more.\<close>

definition looping :: "phase multiset \<Rightarrow> nat" where
  "looping T = size (filter_mset (\<lambda>p. p = To_compare \<or> (\<exists>m. p = Handling m)) T)"

lemma looping_simps [simp]:
  "looping {#} = 0"
  "looping (add_mset p T) = (if p = To_compare \<or> (\<exists>m. p = Handling m) then Suc (looping T) else looping T)"
  by (simp_all add: looping_def)

lemma looping_active: "active T = {#} \<Longrightarrow> looping T = 0"
  by (induction T) (auto split: if_splits)

definition work_left :: "io_system \<Rightarrow> nat" where
  "work_left s = sum_mset (image_mset phase_work (sys_tasks s))
     + (if io_events (sys_ev s) = EVENT_PROCESSING then 0 else 3 * looping (sys_tasks s))"

definition task_label :: "io_label \<Rightarrow> bool" where
  "task_label l \<longleftrightarrow> (case l of Internal \<Rightarrow> True | Handed _ \<Rightarrow> True | _ \<Rightarrow> False)"

lemma task_step_decreases:
  assumes "io_step s l (Done t)" "task_label l" "io_inv s"
  shows "work_left t < work_left s"
  using assms(1)
proof (cases rule: io_step.cases)
  case (swap T m e)
  have "e = (sys_ev s)\<lparr>io_events := EVENT_PROCESSING\<rparr>"
    using swap by (auto simp: OnEventWrapper_swap_def Let_def split: if_splits)
  then show ?thesis using swap by (simp add: work_left_def)
next
  case (compare T ok e)
  then have "active T = {#}" using assms(3) by (auto simp: io_inv_def)
  then show ?thesis using compare looping_active
    by (auto simp: work_left_def OnEventWrapper_compare_def split: if_splits)
qed (use assms in \<open>auto simp: work_left_def task_label_def RequireRef_def ReleaseRef_def\<close>)

lemma task_step_enabled:
  assumes "sys_tasks s \<noteq> {#}"
  shows "\<exists>l r. io_step s l r \<and> task_label l"
proof -
  obtain p T where T: "sys_tasks s = add_mset p T" using assms by (meson multiset_cases)
  have lab: "task_label Internal" "task_label (Handed m)" for m by (simp_all add: task_label_def)
  show ?thesis
  proof (cases p)
    case To_swap
    show ?thesis
    proof (cases "OnEventWrapper_swap (sys_ev s)")
      case Fault
      then show ?thesis using io_step.swap_fault T To_swap lab by blast
    next
      case (Done x)
      then show ?thesis using io_step.swap [of s T "fst x" "snd x"] T To_swap lab by auto
    qed
  next
    case To_compare
    then show ?thesis
      using io_step.compare [of s T "fst (OnEventWrapper_compare (sys_ev s))" "snd (OnEventWrapper_compare (sys_ev s))"]
        T lab by auto
  next
    case To_release
    then show ?thesis
      using io_step.release [of s T "fst (ReleaseRef (sys_ev s))" "snd (ReleaseRef (sys_ev s))"] T lab by auto
  qed (use T lab in \<open>blast intro: io_step.intros\<close>)+
qed

lemma io_run_append: "io_run r ls t \<Longrightarrow> io_run s ks r \<Longrightarrow> io_run s (ks @ ls) t"
proof (induction rule: io_run.induct)
  case (some r ls u l t)
  then show ?case using io_run.some [of s "ks @ ls" u l t] by simp
qed simp

lemma tasks_drain:
  assumes "io_inv s"
  shows "\<exists>ls t. io_run s ls t \<and> list_all task_label ls \<and> sys_tasks t = {#}"
  using assms
proof (induction "work_left s" arbitrary: s rule: less_induct)
  case less
  show ?case
  proof (cases "sys_tasks s = {#}")
    case True
    then show ?thesis using io_run.none by fastforce
  next
    case False
    obtain l r where l: "io_step s l r" "task_label l" using task_step_enabled [OF False] by blast
    obtain t where t: "r = Done t" "io_inv t" using io_step_inv [OF l(1) less.prems] by blast
    have lt: "work_left t < work_left s" using l t less.prems task_step_decreases by blast
    obtain ls u where u: "io_run t ls u" "list_all task_label ls" "sys_tasks u = {#}"
      using less.hyps [OF lt t(2)] by blast
    have "io_run s [l] t" using io_run.some [OF io_run.none, of s l t] l t by simp
    then have "io_run s ([l] @ ls) u" using io_run_append u(1) by blast
    then show ?thesis using u l(2) by fastforce
  qed
qed


section \<open>Texts\<close>

text \<open>\<open>strncpy(buf, name, sizeof(name)); buf += sizeof(name) - 1\<close>: the name and its zero byte are
  written, the position moves behind the name. A write behind the array is undefined.\<close>

definition put_name :: "string \<Rightarrow> char list \<times> nat \<Rightarrow> (char list \<times> nat) outcome" where
  "put_name name bp =
     (let (b, p) = bp in
      if p + length name < length b
      then Done (take p b @ name @ [NUL] @ drop (p + length name + 1) b, p + length name) else Fault)"

fun put_names :: "32 word \<Rightarrow> (32 word \<times> string) list \<Rightarrow> char list \<times> nat \<Rightarrow> (char list \<times> nat) outcome" where
  "put_names w [] bp = Done bp"
| "put_names w ((f, name) # fs) bp =
     (if f AND w \<noteq> 0 then bind_outcome (put_name name bp) (put_names w fs) else put_names w fs bp)"

definition epoll_names :: "(32 word \<times> string) list" where
  "epoll_names = [(EPOLLET, ''_ET''), (EPOLLIN, ''_IN''), (EPOLLPRI, ''_PRI''), (EPOLLOUT, ''_OUT''),
     (EPOLLRDNORM, ''_RDNORM''), (EPOLLRDBAND, ''_RDBAND''), (EPOLLWRNORM, ''_WRNORM''),
     (EPOLLWRBAND, ''_WRBAND''), (EPOLLMSG, ''_MSG''), (EPOLLERR, ''_ERR''), (EPOLLHUP, ''_HUP''),
     (EPOLLRDHUP, ''_RDHUP''), (EPOLLONESHOT, ''_ONESHOT'')]"

definition status_names :: "(32 word \<times> string) list" where
  "status_names = [(EVENT_PENDING, ''PEND|''), (EVENT_PROCESSING, ''PROC|''), (EVENT_READ, ''RD|''),
     (EVENT_WRITE, ''WR|''), (EVENT_CLOSE, ''CLOSE|''), (READ_TIME_OUT, ''RDOUT|''),
     (WRITE_TIME_OUT, ''WROUT|''), (EVENT_ERR, ''ERR|'')]"

definition EventToStr :: "32 word \<Rightarrow> string outcome" where
  "EventToStr revents =
     bind_outcome (put_names revents epoll_names (replicate 64 NUL, 0)) (\<lambda>(b, _). Done (c_str b))"

definition StatusToStr :: "32 word \<Rightarrow> string outcome" where
  "StatusToStr status =
     bind_outcome (put_names status status_names (replicate 256 NUL, 0)) (\<lambda>(b, _). Done (c_str b))"

text \<open>\<open>snprintf\<close> with \<open>%d\<close> of the descriptor into 64 bytes.\<close>

definition int_str :: "int \<Rightarrow> string" where
  "int_str i = (if i < 0 then ''-'' else []) @ dec_str (nat \<bar>i\<bar>)"

definition GetEventName :: "io_event \<Rightarrow> string outcome" where
  "GetEventName e = bind_outcome (EventToStr (io_ev e)) (\<lambda>t. Done (take 63 (int_str (sint (io_fd e)) @ t)))"

definition GetStatusName :: "io_event \<Rightarrow> string outcome" where
  "GetStatusName e =
     bind_outcome (StatusToStr (io_events e)) (\<lambda>t. Done (take 63 (int_str (sint (io_fd e)) @ ''_'' @ t)))"

definition flag_text :: "32 word \<Rightarrow> (32 word \<times> string) list \<Rightarrow> string" where
  "flag_text w fs = concat (map snd (filter (\<lambda>(f, _). f AND w \<noteq> 0) fs))"

lemma flag_text_simps [simp]:
  "flag_text w [] = []"
  "flag_text w ((f, name) # fs) = (if f AND w \<noteq> 0 then name @ flag_text w fs else flag_text w fs)"
  by (simp_all add: flag_text_def)

lemma c_str_upto: "p < length b \<Longrightarrow> b ! p = NUL \<Longrightarrow> NUL \<notin> set (take p b) \<Longrightarrow> c_str b = take p b"
  unfolding c_str_def by (rule takeWhile_eq_take_P_nth [symmetric, THEN sym])
    (metis in_set_conv_nth length_take min.absorb4 nth_take)+

lemma put_name_text:
  assumes "p + length n < length b" "NUL \<notin> set (take p b)" "NUL \<notin> set n"
  shows "\<exists>b'. put_name n (b, p) = Done (b', p + length n) \<and> length b' = length b \<and> b' ! (p + length n) = NUL
    \<and> take (p + length n) b' = take p b @ n \<and> NUL \<notin> set (take (p + length n) b')"
  using assms by (auto simp: put_name_def nth_append)

lemma put_names_text:
  assumes "p < length b" "b ! p = NUL" "NUL \<notin> set (take p b)" "\<forall>(f, n) \<in> set fs. NUL \<notin> set n"
  shows "if p + length (flag_text w fs) < length b
    then \<exists>b'. put_names w fs (b, p) = Done (b', p + length (flag_text w fs)) \<and> c_str b' = take p b @ flag_text w fs
    else put_names w fs (b, p) = Fault"
  using assms
proof (induction fs arbitrary: b p)
  case Nil
  then show ?case using c_str_upto [of p b] by simp
next
  case (Cons x fs)
  obtain f n where x: "x = (f, n)" by (cases x)
  have n: "NUL \<notin> set n" using Cons.prems(4) x by simp
  show ?case
  proof (cases "f AND w \<noteq> 0")
    case False
    then show ?thesis using Cons x by simp
  next
    case True
    show ?thesis
    proof (cases "p + length n < length b")
      case False
      then show ?thesis using True x by (simp add: put_name_def)
    next
      case fits: True
      obtain b' where b': "put_name n (b, p) = Done (b', p + length n)" "length b' = length b"
        "b' ! (p + length n) = NUL" "take (p + length n) b' = take p b @ n" "NUL \<notin> set (take (p + length n) b')"
        using put_name_text [OF fits Cons.prems(3) n] by blast
      have "if p + length n + length (flag_text w fs) < length b'
        then \<exists>b''. put_names w fs (b', p + length n) = Done (b'', p + length n + length (flag_text w fs))
          \<and> c_str b'' = take (p + length n) b' @ flag_text w fs
        else put_names w fs (b', p + length n) = Fault"
        by (rule Cons.IH) (use fits b' Cons.prems(4) in auto)
      then show ?thesis using True x b' by (simp add: add.assoc split: if_splits)
    qed
  qed
qed

lemma EventToStr_text:
  "EventToStr w = (if length (flag_text w epoll_names) < 64 then Done (flag_text w epoll_names) else Fault)"
proof -
  have "\<forall>(f, n) \<in> set epoll_names. NUL \<notin> set n" by (simp add: epoll_names_def)
  from put_names_text [OF _ _ _ this, of 0 "replicate 64 NUL" w] show ?thesis
    by (auto simp: EventToStr_def split: if_splits)
qed

lemma flag_text_le: "length (flag_text w fs) \<le> length (concat (map snd fs))"
  by (induction fs) auto

lemma StatusToStr_text: "StatusToStr w = Done (flag_text w status_names)"
proof -
  have "\<forall>(f, n) \<in> set status_names. NUL \<notin> set n" by (simp add: status_names_def)
  moreover have "length (flag_text w status_names) < 256"
    by (rule le_less_trans [OF flag_text_le]) (simp add: status_names_def)
  ultimately show ?thesis using put_names_text [of 0 "replicate 256 NUL" status_names w]
    by (auto simp: StatusToStr_def)
qed

text \<open>The texts of all epoll flags together are 68 bytes long, the array has 64.\<close>

lemma all_flags_overflow: "EventToStr (NOT 0) = Fault"
  by (simp add: EventToStr_text) (simp add: epoll_names_def)

end
