(* ===== verification/Socket_Stream.thy ===== *)
theory Socket_Stream
  imports Buffer Error_Code Io_Event
begin

text \<open>
  \<open>SocketStream\<close> (\<open>mio/mio_socket_stream.cpp\<close>): the reaction of a connection to the events of the
  poller, with the loops around \<open>readv\<close> and \<open>writev\<close>.

  The virtual methods and the closures of a stream are the fields of a record of functions on the
  whole object (\<open>None\<close> is the null pointer); subclasses and the connection objects that own a stream
  extend the record of its state. The kernel's part is in the state: what the coming \<open>readv\<close> calls
  deliver (an empty string is the end of the stream or an error, no further entry is \<open>EAGAIN\<close>), how
  many bytes the coming \<open>writev\<close> calls take (\<open>0\<close> is an error), and the bytes written so far. Tasks
  posted to the poller are collected in the order of the calls.
\<close>

section \<open>State\<close>

datatype poll_task =
  Add_event bool bool | Mod_event bool bool | Del_event
| Set_read_timeout nat | Set_write_timeout nat | Del_read_timeout | Del_write_timeout

record sstream =
  ss_readbuf :: read_buffer
  ss_writebuf :: write_buffer
  ss_isConnected :: bool
  ss_isClosed :: bool
  ss_close_when_empty :: bool
  ss_local :: string
  ss_peer :: string
  ss_refs :: int
  ss_posted :: "poll_task list"
  ss_in :: "string list"
  ss_out :: "nat list"
  ss_sent :: string

record 's hooks =
  hk_connected :: "('s \<Rightarrow> 's outcome) option"
  hk_readable :: "('s \<Rightarrow> 's outcome) option"
  hk_writeable :: "('s \<Rightarrow> 's outcome) option"
  hk_close :: "('s \<Rightarrow> 's outcome) option"
  hk_readTimeOut :: "('s \<Rightarrow> 's outcome) option"
  hk_writeTimeOut :: "('s \<Rightarrow> 's outcome) option"
  hk_messageError :: "(ErrorCode \<Rightarrow> 's \<Rightarrow> 's outcome) option"
  hk_messageRecived :: "(int \<Rightarrow> 's \<Rightarrow> 's outcome) option"
  hk_messageSended :: "(int \<Rightarrow> 's \<Rightarrow> 's outcome) option"
  hk_getnames :: "'s \<Rightarrow> string \<times> string"

text \<open>A closure that is run if it is set, and one that is run without a test.\<close>

definition run_if :: "('s \<Rightarrow> 's outcome) option \<Rightarrow> 's \<Rightarrow> 's outcome" where
  "run_if h s = (case h of None \<Rightarrow> Done s | Some f \<Rightarrow> f s)"

definition run_error :: "'s hooks \<Rightarrow> ErrorCode \<Rightarrow> 's \<Rightarrow> 's outcome" where
  "run_error hk c s = (case hk_messageError hk of None \<Rightarrow> Fault | Some f \<Rightarrow> f c s)"

text \<open>A loop that would not end counts as a fault as well.\<close>

definition ended :: "'a option \<Rightarrow> 'a outcome" where
  "ended m = (case m of None \<Rightarrow> Fault | Some x \<Rightarrow> Done x)"

lemma run_if_simps [simp]: "run_if None s = Done s" "run_if (Some f) s = f s"
  by (simp_all add: run_if_def)

lemma ended_simps [simp]: "ended None = Fault" "ended (Some x) = Done x"
  by (simp_all add: ended_def)

definition post_task :: "poll_task \<Rightarrow> 'a sstream_scheme \<Rightarrow> 'a sstream_scheme" where
  "post_task t s = s\<lparr>ss_posted := ss_posted s @ [t]\<rparr>"

text \<open>\<open>AddEventASync\<close> takes a reference for the poller; the other calls of this kind only post.\<close>

definition AddEventASync :: "bool \<Rightarrow> bool \<Rightarrow> 'a sstream_scheme \<Rightarrow> 'a sstream_scheme" where
  "AddEventASync r w s = post_task (Add_event r w) (s\<lparr>ss_refs := ss_refs s + 1\<rparr>)"

abbreviation ModEventAsync :: "bool \<Rightarrow> bool \<Rightarrow> 'a sstream_scheme \<Rightarrow> 'a sstream_scheme" where
  "ModEventAsync r w \<equiv> post_task (Mod_event r w)"

text \<open>\<open>ReleaseRef\<close> where the caller goes on to use the object: the last reference must not go.\<close>

definition ss_ReleaseRef :: "'a sstream_scheme \<Rightarrow> 'a sstream_scheme outcome" where
  "ss_ReleaseRef s = (if ss_refs s - 1 = 0 then Fault else Done (s\<lparr>ss_refs := ss_refs s - 1\<rparr>))"

definition new_sstream :: "nat \<Rightarrow> nat \<Rightarrow> sstream" where
  "new_sstream n dbs = \<lparr>ss_readbuf = new_read_buffer n dbs, ss_writebuf = new_write_buffer n dbs,
     ss_isConnected = False, ss_isClosed = False, ss_close_when_empty = False, ss_local = [], ss_peer = [],
     ss_refs = 0, ss_posted = [], ss_in = [], ss_out = [], ss_sent = []\<rparr>"

section \<open>Operations\<close>

definition SocketStream_OnClose ::
  "'a sstream_scheme hooks \<Rightarrow> 'a sstream_scheme \<Rightarrow> 'a sstream_scheme outcome" where
  "SocketStream_OnClose hk s =
     (if \<not> ss_isClosed s
      then bind_outcome (run_if (hk_close hk) (s\<lparr>ss_isClosed := True, ss_isConnected := False\<rparr>))
             (\<lambda>s. Done (post_task Del_event s))
      else Done s)"

definition SocketStream_OnConnect ::
  "'a sstream_scheme hooks \<Rightarrow> 'a sstream_scheme \<Rightarrow> (int \<times> 'a sstream_scheme) outcome" where
  "SocketStream_OnConnect hk s =
     (let (l, p) = hk_getnames hk s; s = s\<lparr>ss_local := l, ss_peer := p\<rparr> in
      if length l = 0 \<or> length p = 0 then Done (- 1, s)
      else bind_outcome (run_if (hk_connected hk) s) (\<lambda>s. Done (0, s)))"

text \<open>
  The loop of \<open>OnReadable\<close>: the flag tells that it was left with \<open>return -1\<close>, the number is
  \<open>read_size\<close>. The segments go to an array of \<open>MAX_BUFFER_PIECES\<close> entries on the stack.
\<close>

fun read_loop :: "'a sstream_scheme hooks \<Rightarrow> string list \<Rightarrow> int \<Rightarrow> 'a sstream_scheme \<Rightarrow>
    (bool \<times> int \<times> 'a sstream_scheme) outcome" where
  "read_loop hk rs n s =
     (let b = ss_readbuf s; (ok, vs) = GetReciveBuffer b in
      if \<not> ok then bind_outcome (run_error hk SERVER_READBUFFER_FULL (s\<lparr>ss_in := rs\<rparr>)) (\<lambda>s. Done (True, n, s))
      else if length (que b) < length vs then Fault
      else case rs of
        [] \<Rightarrow> Done (False, n, s\<lparr>ss_in := []\<rparr>)
      | d # rs' \<Rightarrow>
          if d = [] then Done (True, n, s\<lparr>ss_in := rs'\<rparr>)
          else bind_outcome (ended (MoveRecivePtr (b\<lparr>que := scatter (que b) vs d\<rparr>) (length d)))
                 (\<lambda>b. read_loop hk rs' (n + int (length d)) (s\<lparr>ss_readbuf := b\<rparr>)))"

definition OnReadable :: "'a sstream_scheme hooks \<Rightarrow>
    (int \<Rightarrow> 'a sstream_scheme \<Rightarrow> (int \<times> 'a sstream_scheme) outcome) \<Rightarrow>
    'a sstream_scheme \<Rightarrow> (int \<times> 'a sstream_scheme) outcome" where
  "OnReadable hk OnRecived s =
     bind_outcome (run_if (hk_readable hk) s) (\<lambda>s.
     bind_outcome (read_loop hk (ss_in s) 0 s) (\<lambda>(failed, n, s).
       if failed then Done (- 1, s)
       else if n > 0 then bind_outcome (OnRecived n s) (\<lambda>(_, s). Done (0, s))
       else Done (0, s)))"

text \<open>The loop of \<open>OnWriteable\<close>; the flag tells again that it was left with \<open>return -1\<close>.\<close>

fun write_loop :: "nat list \<Rightarrow> int \<Rightarrow> 'a sstream_scheme \<Rightarrow> (bool \<times> int \<times> 'a sstream_scheme) outcome" where
  "write_loop ks n s =
     (let b = ss_writebuf s; (ok, vs) = GetSendBuffer b in
      if \<not> ok then Done (False, n, s\<lparr>ss_out := ks\<rparr>)
      else if length (que b) < length vs then Fault
      else case ks of
        [] \<Rightarrow> Done (False, n, s\<lparr>ss_out := []\<rparr>)
      | k # ks' \<Rightarrow>
          if k = 0 then Done (True, n, s\<lparr>ss_out := ks'\<rparr>)
          else let d = take k (gather (que b) vs) in
            bind_outcome (ended (MoveSendPtr b (length d)))
              (\<lambda>b. write_loop ks' (n + int (length d)) (s\<lparr>ss_writebuf := b, ss_sent := ss_sent s @ d\<rparr>)))"

definition OnWriteable :: "'a sstream_scheme hooks \<Rightarrow>
    (int \<Rightarrow> 'a sstream_scheme \<Rightarrow> (int \<times> 'a sstream_scheme) outcome) \<Rightarrow>
    'a sstream_scheme \<Rightarrow> (int \<times> 'a sstream_scheme) outcome" where
  "OnWriteable hk OnSended s =
     (let s = (if isEmpty (ss_writebuf s) then ModEventAsync True False s else s) in
      bind_outcome (run_if (hk_writeable hk) s) (\<lambda>s.
      if isEmpty (ss_writebuf s) then Done (0, s)
      else bind_outcome (write_loop (ss_out s) 0 s) (\<lambda>(failed, n, s).
        if failed then Done (- 1, s)
        else bind_outcome (if n > 0 then OnSended n s else Done (0, s)) (\<lambda>(_, s).
          Done (0, if isEmpty (ss_writebuf s) then ModEventAsync True False s else s)))))"

text \<open>\<open>OnEvent\<close> with the virtual methods it calls.\<close>

record 's methods =
  vt_OnConnect :: "'s \<Rightarrow> (int \<times> 's) outcome"
  vt_OnRecived :: "int \<Rightarrow> 's \<Rightarrow> (int \<times> 's) outcome"
  vt_OnSended :: "int \<Rightarrow> 's \<Rightarrow> (int \<times> 's) outcome"
  vt_OnClose :: "'s \<Rightarrow> 's outcome"

definition close_when_sent ::
  "'a sstream_scheme methods \<Rightarrow> 'a sstream_scheme \<Rightarrow> 'a sstream_scheme outcome" where
  "close_when_sent vt s =
     (if isEmpty (ss_writebuf s) then vt_OnClose vt s
      else Done (ModEventAsync True True (s\<lparr>ss_close_when_empty := True\<rparr>)))"

definition time_out :: "('a sstream_scheme \<Rightarrow> 'a sstream_scheme outcome) option \<Rightarrow> bool \<Rightarrow>
    'a sstream_scheme \<Rightarrow> 'a sstream_scheme outcome" where
  "time_out h due s = (if due then bind_outcome (run_if h s) ss_ReleaseRef else Done s)"

definition OnEvent :: "'a sstream_scheme hooks \<Rightarrow> 'a sstream_scheme methods \<Rightarrow> 32 word \<Rightarrow>
    'a sstream_scheme \<Rightarrow> 'a sstream_scheme outcome" where
  "OnEvent hk vt m s =
     (if ss_isClosed s then Done s
      else if m AND EVENT_CLOSE \<noteq> 0 then close_when_sent vt s
      else if m AND EVENT_ERR \<noteq> 0 then vt_OnClose vt s
      else bind_outcome
        (if \<not> ss_isConnected s \<and> m AND (EVENT_READ OR EVENT_WRITE) \<noteq> 0
         then bind_outcome (vt_OnConnect vt s) (\<lambda>(ret, s).
           if ret < 0 then Done (False, s) else Done (True, s\<lparr>ss_isConnected := True\<rparr>))
         else Done (True, s))
        (\<lambda>(go, s). if \<not> go then vt_OnClose vt s
          else bind_outcome
            (if m AND EVENT_READ \<noteq> 0
             then bind_outcome (OnReadable hk (vt_OnRecived vt) s) (\<lambda>(r, s). Done (r \<noteq> 0, s)) else Done (False, s))
            (\<lambda>(bad_read, s). bind_outcome
              (if m AND EVENT_WRITE \<noteq> 0
               then bind_outcome (OnWriteable hk (vt_OnSended vt) s) (\<lambda>(r, s). Done (r \<noteq> 0, s)) else Done (False, s))
              (\<lambda>(bad_write, s). bind_outcome
                (time_out (hk_readTimeOut hk) (m AND READ_TIME_OUT \<noteq> 0) s)
                (\<lambda>s. bind_outcome
                  (time_out (hk_writeTimeOut hk) (m AND WRITE_TIME_OUT \<noteq> 0) s)
                  (\<lambda>s. if bad_read \<or> bad_write \<or> ss_close_when_empty s then close_when_sent vt s else Done s))))))"


section \<open>Reading and writing\<close>

declare read_loop.simps [simp del] write_loop.simps [simp del]

lemma not_full_at_border: "it_pos (readpos b) = 0 \<Longrightarrow> \<not> isFull b"
  by (simp add: isFull_def)

lemma recv_segments:
  assumes "wf_buf b" "\<not> isFull b"
  shows "GetReciveBuffer b = (True, iov_between (que b) (writepos b) (readpos b))"
    and "length (que b) < length (iov_between (que b) (writepos b) (readpos b)) \<longleftrightarrow>
      it_idx (readpos b) = it_idx (writepos b) \<and> 0 < it_pos (readpos b) \<and> it_pos (readpos b) \<le> it_pos (writepos b)"
proof -
  have i: "it_idx (writepos b) < length (que b)" "it_idx (readpos b) < length (que b)"
    using wf_bufD [OF assms(1)] by (auto simp: wf_it_def)
  show "GetReciveBuffer b = (True, iov_between (que b) (writepos b) (readpos b))"
    using assms(2) by (simp add: GetReciveBuffer_def)
  show "length (que b) < length (iov_between (que b) (writepos b) (readpos b)) \<longleftrightarrow>
      it_idx (readpos b) = it_idx (writepos b) \<and> 0 < it_pos (readpos b) \<and> it_pos (readpos b) \<le> it_pos (writepos b)"
    using iov_between_count [OF i] by (metis Suc_eq_plus1 Suc_leI le_antisym lessI)
qed

lemma read_loop_Cons:
  assumes "wf_buf (ss_readbuf s)" "it_pos (readpos (ss_readbuf s)) = 0" "d \<noteq> []" "length d < room (ss_readbuf s)"
  obtains b where "\<And>n rs. read_loop hk (d # rs) n s = read_loop hk rs (n + int (length d)) (s\<lparr>ss_readbuf := b\<rparr>)"
    and "wf_buf b" "content b = content (ss_readbuf s) @ d" "readpos b = readpos (ss_readbuf s)"
    and "same_layout (que (ss_readbuf s)) (que b)" "room b = room (ss_readbuf s) - length d"
proof -
  let ?b = "ss_readbuf s" and ?vs = "iov_between (que (ss_readbuf s)) (writepos (ss_readbuf s)) (readpos (ss_readbuf s))"
  note R = recv_segments [OF assms(1) not_full_at_border [OF assms(2)]]
  obtain b1 where b1: "MoveRecivePtr (?b\<lparr>que := scatter (que ?b) ?vs d\<rparr>) (length d) = Some b1"
    "wf_buf b1" "content b1 = content ?b @ d" "readpos b1 = readpos ?b" "same_layout (que ?b) (que b1)"
    using recv_appends_frame [OF assms(1) R(1) assms(4)] by blast
  have "read_loop hk (d # rs) n s = read_loop hk rs (n + int (length d)) (s\<lparr>ss_readbuf := b1\<rparr>)" for n rs
    using R assms(2,3) b1(1) by (subst read_loop.simps) simp
  moreover have "room b1 = room ?b - length d" using b1(3,5) by (simp add: room_def same_layout_simps)
  ultimately show thesis using that b1 by blast
qed

text \<open>While the first unread byte is the first of its piece (as on a new connection) the loop
  reads everything and stays inside of the array of segments.\<close>

lemma read_loop_reads:
  assumes "wf_buf (ss_readbuf s)" "it_pos (readpos (ss_readbuf s)) = 0"
    and "[] \<notin> set rs" "length (concat rs) < room (ss_readbuf s)"
  shows "\<exists>b. read_loop hk rs n s =
      Done (False, n + int (length (concat rs)), s\<lparr>ss_readbuf := b, ss_in := []\<rparr>)
    \<and> wf_buf b \<and> content b = content (ss_readbuf s) @ concat rs
    \<and> readpos b = readpos (ss_readbuf s) \<and> same_layout (que (ss_readbuf s)) (que b)"
  using assms
proof (induction rs arbitrary: n s)
  case Nil
  note R = recv_segments [OF Nil.prems(1) not_full_at_border [OF Nil.prems(2)]]
  have "read_loop hk [] n s = Done (False, n, s\<lparr>ss_in := []\<rparr>)"
    using R Nil.prems(2) by (subst read_loop.simps) simp
  then show ?case using Nil.prems by (intro exI [of _ "ss_readbuf s"]) simp
next
  case (Cons d rs)
  have d: "d \<noteq> []" "length d < room (ss_readbuf s)" using Cons.prems(3,4) by auto
  obtain b1 where step: "\<And>n rs. read_loop hk (d # rs) n s = read_loop hk rs (n + int (length d)) (s\<lparr>ss_readbuf := b1\<rparr>)"
    and b1: "wf_buf b1" "content b1 = content (ss_readbuf s) @ d" "readpos b1 = readpos (ss_readbuf s)"
      "same_layout (que (ss_readbuf s)) (que b1)" "room b1 = room (ss_readbuf s) - length d"
    by (rule read_loop_Cons [OF Cons.prems(1,2) d, where hk = hk]) (rule that)
  have "length (concat rs) < room (ss_readbuf (s\<lparr>ss_readbuf := b1\<rparr>))" using Cons.prems(4) b1(5) by simp
  from Cons.IH [OF _ _ _ this, of "n + int (length d)"] obtain b where
    b: "read_loop hk rs (n + int (length d)) (s\<lparr>ss_readbuf := b1\<rparr>) =
        Done (False, n + int (length d) + int (length (concat rs)), s\<lparr>ss_readbuf := b, ss_in := []\<rparr>)"
      "wf_buf b" "content b = content b1 @ concat rs" "readpos b = readpos b1" "same_layout (que b1) (que b)"
    using b1 Cons.prems(2,3) by auto
  then show ?case using step b1 same_layout_trans [OF b1(4) b(5)] by (intro exI [of _ b]) (simp add: add.assoc)
qed

text \<open>\<open>OnReadable\<close> of a connection whose reading position is at a piece border.\<close>

theorem OnReadable_reads:
  assumes "wf_buf (ss_readbuf s)" "it_pos (readpos (ss_readbuf s)) = 0" "hk_readable hk = None"
    and "[] \<notin> set (ss_in s)" "length (concat (ss_in s)) < room (ss_readbuf s)"
  shows "\<exists>b. OnReadable hk R s =
      (if ss_in s = [] then Done (0, s\<lparr>ss_readbuf := b, ss_in := []\<rparr>)
       else bind_outcome (R (int (length (concat (ss_in s)))) (s\<lparr>ss_readbuf := b, ss_in := []\<rparr>)) (\<lambda>(_, s). Done (0, s)))
    \<and> wf_buf b \<and> content b = content (ss_readbuf s) @ concat (ss_in s)
    \<and> readpos b = readpos (ss_readbuf s) \<and> same_layout (que (ss_readbuf s)) (que b)"
proof -
  obtain b where b: "read_loop hk (ss_in s) 0 s =
      Done (False, 0 + int (length (concat (ss_in s))), s\<lparr>ss_readbuf := b, ss_in := []\<rparr>)"
    "wf_buf b" "content b = content (ss_readbuf s) @ concat (ss_in s)"
    "readpos b = readpos (ss_readbuf s)" "same_layout (que (ss_readbuf s)) (que b)"
    using read_loop_reads [OF assms(1,2,4,5), of hk 0] by blast
  have "ss_in s = [] \<longleftrightarrow> concat (ss_in s) = []" using assms(4) by (cases "ss_in s") auto
  then show ?thesis using b assms(3) by (intro exI [of _ b]) (auto simp: OnReadable_def)
qed

text \<open>As soon as a message has been taken up to a position inside a piece, the next event writes
  one segment behind the array.\<close>

theorem OnReadable_overflow:
  assumes "wf_buf (ss_readbuf s)" "isEmpty (ss_readbuf s)" "0 < it_pos (readpos (ss_readbuf s))"
    and "hk_readable hk = None"
  shows "OnReadable hk R s = Fault"
proof -
  have e: "readpos (ss_readbuf s) = writepos (ss_readbuf s)" using assms(2) by (simp add: isEmpty_def)
  then have "\<not> isFull (ss_readbuf s)" by (simp add: isFull_def)
  note R = recv_segments [OF assms(1) this]
  have "read_loop hk (ss_in s) 0 s = Fault"
    using R assms(3) e by (subst read_loop.simps) simp
  then show ?thesis using assms(4) by (simp add: OnReadable_def)
qed

text \<open>What arrives together with the end of the stream is never handed on.\<close>

theorem OnReadable_at_end:
  assumes "wf_buf (ss_readbuf s)" "it_pos (readpos (ss_readbuf s)) = 0" "hk_readable hk = None"
    and "ss_in s = ds @ [] # es" "[] \<notin> set ds" "length (concat ds) < room (ss_readbuf s)"
  shows "\<exists>b. OnReadable hk R s = Done (- 1, s\<lparr>ss_readbuf := b, ss_in := es\<rparr>)
    \<and> content b = content (ss_readbuf s) @ concat ds"
proof -
  have "\<exists>b. read_loop hk (ds @ [] # es) n s =
      Done (True, n + int (length (concat ds)), s\<lparr>ss_readbuf := b, ss_in := es\<rparr>)
    \<and> content b = content (ss_readbuf s) @ concat ds" for n
    using assms(1,2,5,6)
  proof (induction ds arbitrary: n s)
    case Nil
    note R = recv_segments [OF Nil.prems(1) not_full_at_border [OF Nil.prems(2)]]
    have "read_loop hk ([] @ [] # es) n s = Done (True, n, s\<lparr>ss_in := es\<rparr>)"
      using R Nil.prems(2) by (subst read_loop.simps) simp
    then show ?case by (intro exI [of _ "ss_readbuf s"]) simp
  next
    case (Cons d ds)
    have d: "d \<noteq> []" "length d < room (ss_readbuf s)" using Cons.prems(3,4) by auto
    obtain b1 where step: "\<And>n rs. read_loop hk (d # rs) n s = read_loop hk rs (n + int (length d)) (s\<lparr>ss_readbuf := b1\<rparr>)"
      and b1: "wf_buf b1" "content b1 = content (ss_readbuf s) @ d" "readpos b1 = readpos (ss_readbuf s)"
        "same_layout (que (ss_readbuf s)) (que b1)" "room b1 = room (ss_readbuf s) - length d"
      by (rule read_loop_Cons [OF Cons.prems(1,2) d, where hk = hk]) (rule that)
    have "length (concat ds) < room (ss_readbuf (s\<lparr>ss_readbuf := b1\<rparr>))" using Cons.prems(4) b1(5) by simp
    from Cons.IH [OF _ _ _ this, of "n + int (length d)"] show ?case
      using step b1 Cons.prems(2,3) by (auto simp: add.assoc)
  qed
  from this [of 0] show ?thesis using assms(3,4) by (auto simp: OnReadable_def)
qed


text \<open>Sending: an array overflow needs unread bytes all around the ring.\<close>

lemma send_segments:
  assumes "wf_buf b" "\<forall>t<length (que b). psz (que b) t \<le> m" "length (content b) + m \<le> total (que b)"
  shows "length (snd (GetSendBuffer b)) \<le> length (que b)"
proof -
  let ?r = "readpos b" and ?w = "writepos b" and ?q = "que b"
  have W: "wf_it ?q ?r" "wf_it ?q ?w" using wf_bufD [OF assms(1)] by auto
  then have i: "it_idx ?r < length ?q" "it_idx ?w < length ?q" by (auto simp: wf_it_def)
  show ?thesis
  proof (cases "?r = ?w")
    case True
    then show ?thesis by (simp add: GetSendBuffer_def GetSendBuffer_to_def)
  next
    case False
    have "length (iov_between ?q ?r ?w) \<noteq> length ?q + 1"
    proof
      assume "length (iov_between ?q ?r ?w) = length ?q + 1"
      then have w: "it_idx ?w = it_idx ?r" "0 < it_pos ?w" "it_pos ?w \<le> it_pos ?r"
        using iov_between_count(2) [OF i] by blast+
      have lt: "it_pos ?w < it_pos ?r" using w(1,3) False by (cases "it_pos ?w = it_pos ?r") (auto simp: iter.equality)
      then have lin: "lin ?q ?w < lin ?q ?r" using w(1) by (simp add: lin_def)
      have "psz ?q (it_idx ?r) \<le> m" using assms(2) i by simp
      then have "lin ?q ?r < lin ?q ?w + m" using W(1) w(1,2) by (simp add: wf_it_def lin_def)
      moreover have "length (content b) = total ?q - lin ?q ?r + lin ?q ?w"
        using length_content [OF assms(1)] lin by (simp add: cdist_def)
      ultimately show False using assms(3) lin_less [OF W(1)] by linarith
    qed
    then show ?thesis using iov_between_count(1) [OF i] False
      by (simp add: GetSendBuffer_def GetSendBuffer_to_def)
  qed
qed

definition sendable :: "'a iobuf_scheme \<Rightarrow> bool" where
  "sendable b \<longleftrightarrow> wf_buf b \<and> (\<exists>m. (\<forall>t<length (que b). psz (que b) t \<le> m) \<and> length (content b) + m \<le> total (que b))"

lemma write_loop_sends:
  assumes "sendable (ss_writebuf s)"
  shows "\<exists>failed ks' b d. write_loop ks n s =
      Done (failed, n + int (length d), s\<lparr>ss_writebuf := b, ss_sent := ss_sent s @ d, ss_out := ks'\<rparr>)
    \<and> sendable b \<and> content (ss_writebuf s) = d @ content b \<and> que b = que (ss_writebuf s)
    \<and> (failed \<longrightarrow> 0 \<in> set ks) \<and> (0 \<notin> set ks \<and> length (content (ss_writebuf s)) \<le> sum_list ks \<longrightarrow> content b = [])"
  using assms
proof (induction ks arbitrary: n s)
  case Nil
  let ?b = "ss_writebuf s"
  have wf: "wf_buf ?b" "length (snd (GetSendBuffer ?b)) \<le> length (que ?b)"
    using Nil send_segments by (auto simp: sendable_def)
  have "write_loop [] n s = Done (False, n, s\<lparr>ss_out := []\<rparr>)"
    using wf(2) by (subst write_loop.simps) (auto simp: case_prod_unfold Let_def)
  then show ?case using Nil
    by (intro exI [of _ False] exI [of _ "[]"] exI [of _ ?b]) simp
next
  case (Cons k ks)
  let ?b = "ss_writebuf s" and ?vs = "snd (GetSendBuffer (ss_writebuf s))"
  have wf: "wf_buf ?b" "length ?vs \<le> length (que ?b)" using Cons.prems send_segments by (auto simp: sendable_def)
  have G: "gather (que ?b) ?vs = content ?b" "fst (GetSendBuffer ?b) \<longleftrightarrow> content ?b \<noteq> []"
    using send_gathers [OF wf(1)] by auto
  show ?case
  proof (cases "content ?b = [] \<or> k = 0")
    case True
    then have "write_loop (k # ks) n s = Done (k = 0 \<and> content ?b \<noteq> [], n, s\<lparr>ss_out := if content ?b = [] then k # ks else ks\<rparr>)"
      using wf(2) G by (subst write_loop.simps) (auto simp: case_prod_unfold Let_def)
    then show ?thesis using Cons.prems True
      by (intro exI [of _ "k = 0 \<and> content ?b \<noteq> []"] exI [of _ "[]"] exI [of _ ?b]
          exI [of _ "if content ?b = [] then k # ks else ks"]) auto
  next
    case False
    let ?d = "take k (content ?b)"
    obtain b1 where b1: "MoveSendPtr ?b (length ?d) = Some b1" "wf_buf b1" "content b1 = drop (length ?d) (content ?b)"
      using move_send_content [OF wf(1), of "length ?d"] by auto
    have q: "que b1 = que ?b" using b1(1) by (auto simp: MoveSendPtr_def)
    have "content ?b = ?d @ drop (length ?d) (content ?b)" by (cases "k \<le> length (content ?b)") (simp_all add: min_def)
    then have split: "content ?b = ?d @ content b1" by (simp only: b1(3))
    then have "length (content b1) \<le> length (content ?b)" by (metis length_append le_add2)
    then have s1: "sendable b1" using Cons.prems b1(2) q unfolding sendable_def by (metis add_le_mono1 order_trans)
    have step: "write_loop (k # ks) n s =
        write_loop ks (n + int (length ?d)) (s\<lparr>ss_writebuf := b1, ss_sent := ss_sent s @ ?d\<rparr>)"
      using wf(2) G False b1(1) by (subst write_loop.simps) (auto simp: case_prod_unfold Let_def)
    have "sendable (ss_writebuf (s\<lparr>ss_writebuf := b1, ss_sent := ss_sent s @ ?d\<rparr>))" using s1 by simp
    then have "\<exists>failed ks' b d. write_loop ks (n + int (length ?d)) (s\<lparr>ss_writebuf := b1, ss_sent := ss_sent s @ ?d\<rparr>) =
        Done (failed, n + int (length ?d) + int (length d),
          s\<lparr>ss_writebuf := b, ss_sent := (ss_sent s @ ?d) @ d, ss_out := ks'\<rparr>)
      \<and> sendable b \<and> content b1 = d @ content b \<and> que b = que b1 \<and> (failed \<longrightarrow> 0 \<in> set ks)
      \<and> (0 \<notin> set ks \<and> length (content b1) \<le> sum_list ks \<longrightarrow> content b = [])"
      using Cons.IH [of "s\<lparr>ss_writebuf := b1, ss_sent := ss_sent s @ ?d\<rparr>" "n + int (length ?d)"] by simp
    then obtain failed ks' b d where
      r: "write_loop ks (n + int (length ?d)) (s\<lparr>ss_writebuf := b1, ss_sent := ss_sent s @ ?d\<rparr>) =
        Done (failed, n + int (length ?d) + int (length d),
          s\<lparr>ss_writebuf := b, ss_sent := (ss_sent s @ ?d) @ d, ss_out := ks'\<rparr>)"
      "sendable b" "content b1 = d @ content b" "que b = que b1" "failed \<longrightarrow> 0 \<in> set ks"
      "0 \<notin> set ks \<and> length (content b1) \<le> sum_list ks \<longrightarrow> content b = []"
      by blast
    have "length (content b1) = length (content ?b) - k" using b1(3) by simp
    then show ?thesis using step r split q
      by (intro exI [of _ failed] exI [of _ ks'] exI [of _ b] exI [of _ "?d @ d"]) auto
  qed
qed


theorem OnWriteable_sends:
  assumes "sendable (ss_writebuf s)" "content (ss_writebuf s) \<noteq> []" "hk_writeable hk = None"
    and "0 \<notin> set (ss_out s)" "length (content (ss_writebuf s)) \<le> sum_list (ss_out s)"
  shows "\<exists>b ks. isEmpty b \<and> wf_buf b \<and> que b = que (ss_writebuf s) \<and> OnWriteable hk S s =
    bind_outcome (S (int (length (content (ss_writebuf s))))
        (s\<lparr>ss_writebuf := b, ss_sent := ss_sent s @ content (ss_writebuf s), ss_out := ks\<rparr>))
      (\<lambda>(_, t). Done (0, if isEmpty (ss_writebuf t) then ModEventAsync True False t else t))"
proof -
  let ?c = "content (ss_writebuf s)"
  have ne: "\<not> isEmpty (ss_writebuf s)" using assms(1,2) content_Nil_iff by (auto simp: sendable_def)
  obtain failed ks b d where
    r: "write_loop (ss_out s) 0 s =
        Done (failed, 0 + int (length d), s\<lparr>ss_writebuf := b, ss_sent := ss_sent s @ d, ss_out := ks\<rparr>)"
      "sendable b" "?c = d @ content b" "que b = que (ss_writebuf s)" "failed \<longrightarrow> 0 \<in> set (ss_out s)"
      "0 \<notin> set (ss_out s) \<and> length ?c \<le> sum_list (ss_out s) \<longrightarrow> content b = []"
    using write_loop_sends [OF assms(1), of "ss_out s" 0] by blast
  then have b: "content b = []" "d = ?c" "\<not> failed" "wf_buf b" using assms(4,5) by (auto simp: sendable_def)
  then have "isEmpty b" using content_Nil_iff by blast
  moreover have "0 < length ?c" using assms(2) by simp
  ultimately show ?thesis using r(1,4) b ne assms(3)
    by (intro exI [of _ b] exI [of _ ks]) (simp add: OnWriteable_def Let_def)
qed

section \<open>Closing\<close>

text \<open>A stream is taken off the poller once: each piece of code that changes a stream from open to
  closed posts one \<open>DelEvent\<close>, and nothing opens it again.\<close>

definition dels :: "'a sstream_scheme \<Rightarrow> nat" where
  "dels s = count_list (ss_posted s) Del_event"

definition closes_once :: "'a sstream_scheme \<Rightarrow> 'a sstream_scheme \<Rightarrow> bool" where
  "closes_once s t \<longleftrightarrow> (ss_isClosed s \<longrightarrow> ss_isClosed t)
     \<and> dels t + (if ss_isClosed s then 1 else 0) = dels s + (if ss_isClosed t then 1 else 0)"

definition once :: "('a sstream_scheme \<Rightarrow> 'a sstream_scheme outcome) \<Rightarrow> bool" where
  "once f \<longleftrightarrow> (\<forall>s t. f s = Done t \<longrightarrow> closes_once s t)"

definition once2 :: "('a sstream_scheme \<Rightarrow> ('b \<times> 'a sstream_scheme) outcome) \<Rightarrow> bool" where
  "once2 f \<longleftrightarrow> (\<forall>s r t. f s = Done (r, t) \<longrightarrow> closes_once s t)"

lemma count_list_append [simp]: "count_list (xs @ ys) x = count_list xs x + count_list ys x"
  by (induction xs) auto

lemma closes_once_refl [simp]: "closes_once s s"
  by (simp add: closes_once_def)

lemma closes_once_trans: "closes_once s t \<Longrightarrow> closes_once t u \<Longrightarrow> closes_once s u"
  by (auto simp: closes_once_def split: if_splits)

lemma closes_once_post [simp]: "t \<noteq> Del_event \<Longrightarrow> closes_once s (post_task t s)"
  by (simp add: closes_once_def post_task_def dels_def)

lemma closes_once_upd [simp]:
  "closes_once s (t\<lparr>ss_readbuf := a\<rparr>) = closes_once s t" "closes_once (s\<lparr>ss_readbuf := a\<rparr>) t = closes_once s t"
  "closes_once s (t\<lparr>ss_writebuf := b\<rparr>) = closes_once s t" "closes_once (s\<lparr>ss_writebuf := b\<rparr>) t = closes_once s t"
  "closes_once s (t\<lparr>ss_in := c\<rparr>) = closes_once s t" "closes_once (s\<lparr>ss_in := c\<rparr>) t = closes_once s t"
  "closes_once s (t\<lparr>ss_out := d\<rparr>) = closes_once s t" "closes_once (s\<lparr>ss_out := d\<rparr>) t = closes_once s t"
  "closes_once s (t\<lparr>ss_sent := e\<rparr>) = closes_once s t" "closes_once (s\<lparr>ss_sent := e\<rparr>) t = closes_once s t"
  "closes_once s (t\<lparr>ss_refs := n\<rparr>) = closes_once s t" "closes_once (s\<lparr>ss_refs := n\<rparr>) t = closes_once s t"
  "closes_once s (t\<lparr>ss_isConnected := x\<rparr>) = closes_once s t" "closes_once (s\<lparr>ss_isConnected := x\<rparr>) t = closes_once s t"
  "closes_once s (t\<lparr>ss_close_when_empty := x\<rparr>) = closes_once s t"
  "closes_once (s\<lparr>ss_close_when_empty := x\<rparr>) t = closes_once s t"
  "closes_once s (t\<lparr>ss_local := l\<rparr>) = closes_once s t" "closes_once (s\<lparr>ss_local := l\<rparr>) t = closes_once s t"
  "closes_once s (t\<lparr>ss_peer := l\<rparr>) = closes_once s t" "closes_once (s\<lparr>ss_peer := l\<rparr>) t = closes_once s t"
  by (simp_all add: closes_once_def dels_def)

lemma onceD: "once f \<Longrightarrow> f s = Done t \<Longrightarrow> closes_once s t"
  by (simp add: once_def)

lemma once2D: "once2 f \<Longrightarrow> f s = Done (r, t) \<Longrightarrow> closes_once s t"
  unfolding once2_def by blast

lemma once_run_if: "(\<And>f. h = Some f \<Longrightarrow> once f) \<Longrightarrow> run_if h s = Done t \<Longrightarrow> closes_once s t"
  by (cases h) (auto dest: onceD)

text \<open>Rules that follow the shape of the code.\<close>

definition to_once :: "'a sstream_scheme \<Rightarrow> 'a sstream_scheme outcome \<Rightarrow> bool" where
  "to_once s m \<longleftrightarrow> (\<forall>t. m = Done t \<longrightarrow> closes_once s t)"

definition to_once2 :: "'a sstream_scheme \<Rightarrow> ('b \<times> 'a sstream_scheme) outcome \<Rightarrow> bool" where
  "to_once2 s m \<longleftrightarrow> (\<forall>r t. m = Done (r, t) \<longrightarrow> closes_once s t)"

definition to_once3 :: "'a sstream_scheme \<Rightarrow> ('b \<times> 'c \<times> 'a sstream_scheme) outcome \<Rightarrow> bool" where
  "to_once3 s m \<longleftrightarrow> (\<forall>r n t. m = Done (r, n, t) \<longrightarrow> closes_once s t)"

lemmas to_once_defs = to_once_def to_once2_def to_once3_def

lemma once_iff: "once f \<longleftrightarrow> (\<forall>s. to_once s (f s))" "once2 g \<longleftrightarrow> (\<forall>s. to_once2 s (g s))"
  by (auto simp: once_def once2_def to_once_defs)

named_theorems once_intros \<open>composition of code that closes a stream at most once\<close>

lemma to_once_Done [once_intros]:
  "closes_once s t \<Longrightarrow> to_once s (Done t)" "closes_once s t \<Longrightarrow> to_once2 s (Done (r, t))"
  "closes_once s t \<Longrightarrow> to_once3 s (Done (r, n, t))"
  by (auto simp: to_once_defs)

lemma to_once_Fault [once_intros]: "to_once s Fault" "to_once2 s Fault" "to_once3 s Fault"
  by (auto simp: to_once_defs)

lemma to_once_if [once_intros]:
  "(b \<Longrightarrow> to_once s m) \<Longrightarrow> (\<not> b \<Longrightarrow> to_once s n) \<Longrightarrow> to_once s (if b then m else n)"
  "(b \<Longrightarrow> to_once2 s m2) \<Longrightarrow> (\<not> b \<Longrightarrow> to_once2 s n2) \<Longrightarrow> to_once2 s (if b then m2 else n2)"
  "(b \<Longrightarrow> to_once3 s m3) \<Longrightarrow> (\<not> b \<Longrightarrow> to_once3 s n3) \<Longrightarrow> to_once3 s (if b then m3 else n3)"
  by auto

lemma to_once_bind [once_intros]:
  "to_once s m \<Longrightarrow> (\<And>t. to_once t (f t)) \<Longrightarrow> to_once s (bind_outcome m f)"
  "to_once s m \<Longrightarrow> (\<And>t. to_once2 t (f2 t)) \<Longrightarrow> to_once2 s (bind_outcome m f2)"
  "to_once s m \<Longrightarrow> (\<And>t. to_once3 t (f3 t)) \<Longrightarrow> to_once3 s (bind_outcome m f3)"
  "to_once2 s m2 \<Longrightarrow> (\<And>r t. to_once t (g r t)) \<Longrightarrow> to_once s (bind_outcome m2 (\<lambda>(r, t). g r t))"
  "to_once2 s m2 \<Longrightarrow> (\<And>r t. to_once2 t (g2 r t)) \<Longrightarrow> to_once2 s (bind_outcome m2 (\<lambda>(r, t). g2 r t))"
  "to_once3 s m3 \<Longrightarrow> (\<And>r n t. to_once2 t (h2 r n t)) \<Longrightarrow> to_once2 s (bind_outcome m3 (\<lambda>(r, n, t). h2 r n t))"
  by (force simp: to_once_defs bind_outcome_Done_iff intro: closes_once_trans)+

lemma to_once_run_if: "(\<And>f. h = Some f \<Longrightarrow> once f) \<Longrightarrow> to_once s (run_if h s)"
  by (cases h) (auto simp: to_once_def dest: onceD)

lemma to_once_app: "once f \<Longrightarrow> to_once s (f s)" "once2 g \<Longrightarrow> to_once2 s (g s)"
  by (simp_all add: once_iff)

lemma to_once_from:
  "closes_once s u \<Longrightarrow> to_once u m \<Longrightarrow> to_once s m" "closes_once s u \<Longrightarrow> to_once2 u m2 \<Longrightarrow> to_once2 s m2"
  by (auto simp: to_once_defs intro: closes_once_trans)

lemma SocketStream_OnClose_once:
  assumes "\<And>f. hk_close hk = Some f \<Longrightarrow> once f"
  shows "once (SocketStream_OnClose hk)"
  unfolding once_def
proof (intro allI impI)
  fix s t assume t: "SocketStream_OnClose hk s = Done t"
  show "closes_once s t"
  proof (cases "ss_isClosed s")
    case True
    then show ?thesis using t by (simp add: SocketStream_OnClose_def)
  next
    case False
    then obtain u where u: "run_if (hk_close hk) (s\<lparr>ss_isClosed := True, ss_isConnected := False\<rparr>) = Done u"
      "t = post_task Del_event u" using t by (auto simp: SocketStream_OnClose_def bind_outcome_Done_iff)
    have "closes_once (s\<lparr>ss_isClosed := True, ss_isConnected := False\<rparr>) u" by (rule once_run_if [OF assms u(1)])
    then show ?thesis using u(2) False by (auto simp: closes_once_def dels_def post_task_def split: if_splits)
  qed
qed

lemma write_loop_once: "write_loop ks n s = Done (r, k, t) \<Longrightarrow> closes_once s t"
proof (induction ks arbitrary: n s)
  case (Cons k ks)
  note D = Cons.prems [unfolded write_loop.simps [of "k # ks"]]
  show ?case
    using D by (auto simp: ended_def bind_outcome_Done_iff Let_def
        split: if_splits prod.splits option.splits dest!: Cons.IH)
next
  case Nil
  note D = Nil.prems [unfolded write_loop.simps [of "[]"]]
  show ?case using D by (auto simp: Let_def split: if_splits prod.splits)
qed

text \<open>Code that neither closes the stream nor takes it off the poller.\<close>

definition quiet :: "'a sstream_scheme \<Rightarrow> 'a sstream_scheme \<Rightarrow> bool" where
  "quiet s t \<longleftrightarrow> ss_isClosed t = ss_isClosed s \<and> dels t = dels s"

lemma quiet_once:
  "(\<And>s. ends_in (quiet s) (f s)) \<Longrightarrow> once f"
  "(\<And>s. ends_in (\<lambda>(r, t). quiet s t) (g s)) \<Longrightarrow> once2 g"
  by (auto simp: ends_in_def once_def once2_def closes_once_def quiet_def)

text \<open>The interface of a class of streams: what its closures and virtual methods promise.\<close>

locale stream_class =
  fixes hk :: "'a sstream_scheme hooks" and vt :: "'a sstream_scheme methods"
  assumes readable: "hk_readable hk = Some f \<Longrightarrow> once f"
    and writeable: "hk_writeable hk = Some f \<Longrightarrow> once f"
    and readTimeOut: "hk_readTimeOut hk = Some f \<Longrightarrow> once f"
    and writeTimeOut: "hk_writeTimeOut hk = Some f \<Longrightarrow> once f"
    and messageError: "hk_messageError hk = Some g \<Longrightarrow> once (g c)"
    and OnConnect: "once2 (vt_OnConnect vt)"
    and OnRecived: "once2 (vt_OnRecived vt n)"
    and OnSended: "once2 (vt_OnSended vt n)"
    and OnClose: "once (vt_OnClose vt)"
begin

lemma read_loop_once: "read_loop hk rs n s = Done (r, k, t) \<Longrightarrow> closes_once s t"
proof (induction rs arbitrary: n s)
  case (Cons d rs)
  note D = Cons.prems [unfolded read_loop.simps [of hk "d # rs"]]
  show ?case
    using D by (auto simp: run_error_def ended_def bind_outcome_Done_iff Let_def
        split: if_splits prod.splits option.splits dest!: onceD [OF messageError] Cons.IH)
next
  case Nil
  note D = Nil.prems [unfolded read_loop.simps [of hk "[]"]]
  show ?case
    using D by (auto simp: run_error_def bind_outcome_Done_iff Let_def
        split: if_splits prod.splits option.splits dest!: onceD [OF messageError])
qed

lemmas class_steps = to_once_run_if [OF readable] to_once_run_if [OF writeable]
  to_once_run_if [OF readTimeOut] to_once_run_if [OF writeTimeOut]
  to_once_app(2) [OF OnConnect] to_once_app(2) [OF OnRecived] to_once_app(2) [OF OnSended] to_once_app(1) [OF OnClose]

lemma OnReadable_once: "to_once2 s (OnReadable hk (vt_OnRecived vt) s)"
proof -
  have "to_once3 u (read_loop hk (ss_in u) 0 u)" for u using read_loop_once by (auto simp: to_once3_def)
  then show ?thesis unfolding OnReadable_def by (intro once_intros class_steps) simp_all
qed

lemma OnWriteable_once: "to_once2 s (OnWriteable hk (vt_OnSended vt) s)"
proof -
  have w: "to_once3 u (write_loop (ss_out u) 0 u)" for u using write_loop_once by (auto simp: to_once3_def)
  have "closes_once s (if isEmpty (ss_writebuf s) then ModEventAsync True False s else s)" by simp
  then show ?thesis unfolding OnWriteable_def Let_def
    by (rule to_once_from) (intro once_intros class_steps w; simp)
qed

lemma close_when_sent_once: "to_once s (close_when_sent vt s)"
  unfolding close_when_sent_def by (intro once_intros class_steps) (simp add: closes_once_def post_task_def dels_def)

lemma time_out_once:
  "to_once s (time_out (hk_readTimeOut hk) d s)" "to_once s (time_out (hk_writeTimeOut hk) d s)"
  unfolding time_out_def ss_ReleaseRef_def by (intro once_intros class_steps; simp)+

lemma OnEvent_once: "to_once s (OnEvent hk vt m s)"
  unfolding OnEvent_def
  by (intro once_intros class_steps close_when_sent_once time_out_once OnReadable_once OnWriteable_once; simp)

end

text \<open>Any sequence of events.\<close>

fun on_events :: "'a sstream_scheme hooks \<Rightarrow> 'a sstream_scheme methods \<Rightarrow> 32 word list \<Rightarrow>
    'a sstream_scheme \<Rightarrow> 'a sstream_scheme outcome" where
  "on_events hk vt [] s = Done s"
| "on_events hk vt (m # ms) s = bind_outcome (OnEvent hk vt m s) (on_events hk vt ms)"

context stream_class begin

lemma on_events_once: "to_once s (on_events hk vt ms s)"
  by (induction ms arbitrary: s) (auto intro!: once_intros OnEvent_once)

lemma taken_off_once:
  assumes "on_events hk vt ms s = Done t" "\<not> ss_isClosed s" "dels s = 0"
  shows "dels t = (if ss_isClosed t then 1 else 0)"
  using assms on_events_once [of s ms] by (auto simp: to_once_def closes_once_def)

end

end
