(* ===== verification/Message_Stream.thy ===== *)
theory Message_Stream
  imports Socket_Stream Http_Wire Packet
begin

text \<open>
  \<open>MessageStream\<close> (\<open>mio/mio_message_stream.cpp\<close>, the server's side of a connection) and
  \<open>ConnectStream\<close> (\<open>mio/mio_connect_stream.cpp\<close>, the client's side): the loops that cut the received
  bytes into messages and call the handler of the connection, and the states of connecting.
\<close>

section \<open>State\<close>

record http_stream = sstream +
  st_reqheader :: http_request
  st_resheader :: http_response

record connect_stream = http_stream +
  cs_status :: ErrorCode

section \<open>The receive loops\<close>

datatype recv_next = Return int | Again int

definition body_size :: "'a iobuf_scheme \<Rightarrow> iter \<Rightarrow> int" where
  "body_size b start = it_diff (que b) (writepos b) start - 1"

text \<open>The handler and what follows it, \<open>n\<close> being \<open>buffer_size\<close>; \<open>reset\<close> clears the header.\<close>

definition handle_packet :: "'a http_stream_scheme hooks \<Rightarrow> nat \<Rightarrow>
    ('a http_stream_scheme \<Rightarrow> 'a http_stream_scheme) \<Rightarrow> int \<Rightarrow> 'a http_stream_scheme \<Rightarrow>
    (recv_next \<times> 'a http_stream_scheme) outcome" where
  "handle_packet hk dbs reset n s =
     (let beginpacket = readpos (ss_readbuf s) in
      bind_outcome
        (case hk_messageRecived hk of
           None \<Rightarrow> Done s
         | Some f \<Rightarrow> bind_outcome (f n s) (\<lambda>s. let s = reset s in Done (s\<lparr>ss_readbuf := Reset dbs (ss_readbuf s)\<rparr>)))
        (\<lambda>s. let n = n - it_diff (que (ss_readbuf s)) (readpos (ss_readbuf s)) beginpacket in
          Done (if ss_close_when_empty s then Return 0 else if n > 0 then Again n else Return 0, s)))"

definition fail_with :: "'a http_stream_scheme hooks \<Rightarrow> ErrorCode \<Rightarrow> 'a http_stream_scheme \<Rightarrow>
    (recv_next \<times> 'a http_stream_scheme) outcome" where
  "fail_with hk c s = bind_outcome (run_error hk c s) (\<lambda>s. Done (Return (- 1), s))"

text \<open>One turn of the loop of \<open>MessageStream::OnRecived\<close>.\<close>

definition MessageStream_turn :: "'a http_stream_scheme hooks \<Rightarrow> nat \<Rightarrow> int \<Rightarrow> 'a http_stream_scheme \<Rightarrow>
    (recv_next \<times> 'a http_stream_scheme) outcome" where
  "MessageStream_turn hk dbs n s =
     (let begin_parser = readpos (ss_readbuf s) in
      bind_outcome (bind_outcome (ended (HttpRequest_ParserHeader (st_reqheader s) (ss_readbuf s))) (\<lambda>r. r))
        (\<lambda>(ret, h, b).
          let s = s\<lparr>ss_readbuf := b, st_reqheader := h\<rparr>;
              n = n - it_diff (que b) (readpos b) begin_parser;
              max_length = int32 (int (dbs * length (que b))) in
          if ret = HTTP_PARSER_FAIL then fail_with hk HTTP_PARSER_FAIL s
          else if ret = HTTP_PASER_HALF then Done (Return 0, s)
          else if GetContentLength h > max_length then fail_with hk HTTP_REQUEST_OVERFLOW s
          else if GetContentLength h > body_size b (h_bodyStart h) then Done (Return 0, s)
          else handle_packet hk dbs (\<lambda>s. s\<lparr>st_reqheader := HttpRequestHeader_Reset (st_reqheader s)\<rparr>) n s))"

text \<open>One turn of the loop of \<open>ConnectStream::OnRecived\<close>.\<close>

definition ConnectStream_turn :: "'a http_stream_scheme hooks \<Rightarrow> nat \<Rightarrow> int \<Rightarrow> 'a http_stream_scheme \<Rightarrow>
    (recv_next \<times> 'a http_stream_scheme) outcome" where
  "ConnectStream_turn hk dbs n s =
     (let begin_parser = readpos (ss_readbuf s) in
      bind_outcome (bind_outcome (ended (HttpReponse_ParserHeader (st_resheader s) (ss_readbuf s))) (\<lambda>r. r))
        (\<lambda>(ret, h, b).
          let s = s\<lparr>ss_readbuf := b, st_resheader := h\<rparr>;
              n = n - it_diff (que b) (readpos b) begin_parser in
          if ret = HTTP_PARSER_FAIL then fail_with hk HTTP_PARSER_FAIL s
          else if ret = HTTP_PASER_HALF then Done (Return 0, s)
          else if GetContentLength h < 0 then fail_with hk HTTP_REQ_NOLENGTH s
          else if GetContentLength h > body_size b (h_bodyStart h) then Done (Return 0, s)
          else handle_packet hk dbs (\<lambda>s. s\<lparr>st_resheader := HttpReponseHeader_Reset (st_resheader s)\<rparr>) n s))"

partial_function (option) recv_loop ::
  "(int \<Rightarrow> 's \<Rightarrow> (recv_next \<times> 's) outcome) \<Rightarrow> int \<Rightarrow> 's \<Rightarrow> (int \<times> 's) outcome option" where
  "recv_loop turn n s =
     (case turn n s of
        Fault \<Rightarrow> Some Fault
      | Done (r, s) \<Rightarrow> (case r of Return k \<Rightarrow> Some (Done (k, s)) | Again n \<Rightarrow> recv_loop turn n s))"

definition MessageStream_OnRecived :: "'a http_stream_scheme hooks \<Rightarrow> nat \<Rightarrow> int \<Rightarrow> 'a http_stream_scheme \<Rightarrow>
    (int \<times> 'a http_stream_scheme) outcome" where
  "MessageStream_OnRecived hk dbs n s = bind_outcome (ended (recv_loop (MessageStream_turn hk dbs) n s)) (\<lambda>r. r)"

definition ConnectStream_OnRecived :: "'a http_stream_scheme hooks \<Rightarrow> nat \<Rightarrow> int \<Rightarrow> 'a http_stream_scheme \<Rightarrow>
    (int \<times> 'a http_stream_scheme) outcome" where
  "ConnectStream_OnRecived hk dbs n s = bind_outcome (ended (recv_loop (ConnectStream_turn hk dbs) n s)) (\<lambda>r. r)"

text \<open>\<open>MessageStream\<close> calls its closure untested, \<open>ConnectStream\<close> only if it is set.\<close>

definition MessageStream_OnSended :: "'a http_stream_scheme hooks \<Rightarrow> int \<Rightarrow> 'a http_stream_scheme \<Rightarrow>
    (int \<times> 'a http_stream_scheme) outcome" where
  "MessageStream_OnSended hk n s =
     (case hk_messageSended hk of None \<Rightarrow> Fault | Some f \<Rightarrow> bind_outcome (f n s) (\<lambda>s. Done (0, s)))"

definition ConnectStream_OnSended :: "'a http_stream_scheme hooks \<Rightarrow> int \<Rightarrow> 'a http_stream_scheme \<Rightarrow>
    (int \<times> 'a http_stream_scheme) outcome" where
  "ConnectStream_OnSended hk n s =
     (case hk_messageSended hk of None \<Rightarrow> Done (0, s) | Some f \<Rightarrow> bind_outcome (f n s) (\<lambda>s. Done (0, s)))"

section \<open>Connecting\<close>

text \<open>\<open>ret\<close> is the result of the system's \<open>connect\<close>, \<open>inprogress\<close> that \<open>errno\<close> is \<open>EINPROGRESS\<close>.\<close>

definition ConnectStream_Connect :: "int \<Rightarrow> bool \<Rightarrow> 'a connect_stream_scheme \<Rightarrow> ErrorCode \<times> 'a connect_stream_scheme" where
  "ConnectStream_Connect ret inprogress s =
     (let c = (if ret = 0 then CLIENT_CONNECT_OK
               else if ret < 0 \<and> \<not> inprogress then CLIENT_CONNECT_FAIL else CLIENT_CONNECT_IPROCESS)
      in (c, s\<lparr>cs_status := c\<rparr>))"

text \<open>The result of the base class is dropped.\<close>

definition ConnectStream_OnConnect :: "'a connect_stream_scheme hooks \<Rightarrow> 'a connect_stream_scheme \<Rightarrow>
    (int \<times> 'a connect_stream_scheme) outcome" where
  "ConnectStream_OnConnect hk s =
     bind_outcome (SocketStream_OnConnect hk s) (\<lambda>(_, s).
       Done (0, if cs_status s = CLIENT_CONNECT_IPROCESS then s\<lparr>cs_status := CLIENT_CONNECT_OK\<rparr> else s))"

definition ConnectStream_OnClose :: "'a connect_stream_scheme hooks \<Rightarrow> 'a connect_stream_scheme \<Rightarrow>
    'a connect_stream_scheme outcome" where
  "ConnectStream_OnClose hk s =
     bind_outcome (SocketStream_OnClose hk s) (\<lambda>s.
       Done (if cs_status s = CLIENT_CONNECT_IPROCESS then s\<lparr>cs_status := CLIENT_CONNECT_FAIL\<rparr> else s))"

definition MessageStream_methods :: "'a http_stream_scheme hooks \<Rightarrow> nat \<Rightarrow> 'a http_stream_scheme methods" where
  "MessageStream_methods hk dbs =
     \<lparr>vt_OnConnect = SocketStream_OnConnect hk, vt_OnRecived = MessageStream_OnRecived hk dbs,
      vt_OnSended = MessageStream_OnSended hk, vt_OnClose = SocketStream_OnClose hk\<rparr>"

definition ConnectStream_methods :: "'a connect_stream_scheme hooks \<Rightarrow> nat \<Rightarrow> 'a connect_stream_scheme methods" where
  "ConnectStream_methods hk dbs =
     \<lparr>vt_OnConnect = ConnectStream_OnConnect hk, vt_OnRecived = ConnectStream_OnRecived hk dbs,
      vt_OnSended = ConnectStream_OnSended hk, vt_OnClose = ConnectStream_OnClose hk\<rparr>"

section \<open>Where the body starts\<close>

text \<open>The parsers remember the position of the last byte of the header.\<close>

definition marks_end :: "(iter \<Rightarrow> char \<Rightarrow> 'a http_header_scheme \<times> string \<times> string \<Rightarrow> 'a http_header_scheme turn outcome) \<Rightarrow> bool" where
  "marks_end f \<longleftrightarrow> (\<forall>i c s h k v. f i c s = Done (Next (h, k, v)) \<longrightarrow> h_state (fst s) \<noteq> END \<longrightarrow> h_state h = END \<longrightarrow>
     h_bodyStart h = i)"

lemma MoveBufTo_u_state: "MoveBufTo_u n h = Done (m, h') \<Longrightarrow> h_state h' = h_state h"
  by (auto simp: MoveBufTo_u_def Let_def split: if_splits prod.splits)

lemma req_marks_end: "marks_end req_turn"
  unfolding marks_end_def
  by (auto simp: req_turn_def with_outcome_def bind_outcome_Done_iff SetHeader_def Let_def
      split: if_splits http_state.splits prod.splits dest: put_char_state MoveBufTo_state isMethodFound_state)

lemma res_marks_end: "marks_end res_turn"
  unfolding marks_end_def
  by (auto simp: res_turn_def with_outcome_def bind_outcome_Done_iff SetHeader_def Let_def
      split: if_splits http_state.splits prod.splits dest: put_char_state MoveBufTo_state MoveBufTo_u_state)


lemma run_marks:
  assumes "marks_end f"
  shows "run f isParsed xs s = Done ((h, k, v), False, n) \<Longrightarrow> h_state (fst s) \<noteq> END \<Longrightarrow> h_state h = END \<Longrightarrow>
    0 < n \<and> n \<le> length xs \<and> h_bodyStart h = fst (xs ! (n - 1))"
proof (induction xs arbitrary: s n)
  case (Cons x xs)
  obtain i c where x: "x = (i, c)" by (cases x)
  have np: "\<not> isParsed (fst s)" using Cons.prems(2) by (simp add: isParsed_def)
  obtain s' m where s': "f i c s = Done (Next s')" "run f isParsed xs s' = Done ((h, k, v), False, m)" "n = Suc m"
    using Cons.prems(1) np x by (auto split: outcome.splits turn.splits simp: bind_outcome_Done_iff)
  show ?case
  proof (cases "h_state (fst s') = END")
    case True
    then have "run f isParsed xs s' = Done (s', False, 0)" by (cases xs) (auto simp: isParsed_def)
    then have "s' = (h, k, v)" "m = 0" using s'(2) by auto
    then have "h_bodyStart h = i"
      using assms s'(1) Cons.prems(2,3) \<open>s' = (h, k, v)\<close> unfolding marks_end_def by blast
    then show ?thesis using s'(3) x \<open>m = 0\<close> by simp
  next
    case False
    then show ?thesis using Cons.IH [OF s'(2) False Cons.prems(3)] s'(3) by auto
  qed
qed auto

lemma parse_bytes_marks:
  assumes "marks_end f" "parse_bytes f xs h0 = Done (HTTP_PASER_FINISH, h, n)" "\<not> isParsed h0"
  shows "0 < n \<and> n \<le> length xs \<and> h_bodyStart h = fst (xs ! (n - 1))"
proof -
  obtain k v failed where r: "run f isParsed xs (h0, [], []) = Done ((h, k, v), failed, n)"
    "parse_result (h_state h) failed = HTTP_PASER_FINISH"
    using assms(2) by (auto simp: parse_bytes_def bind_outcome_Done_iff)
  then have "\<not> failed" "h_state h = END" by (auto simp: parse_result_def split: if_splits)
  then show ?thesis using run_marks [OF assms(1), of xs "(h0, [], [])" h k v n] r(1) assms(3)
    by (simp add: isParsed_def)
qed

lemma parse_bytes_parsed: "isParsed h \<Longrightarrow> parse_bytes f xs h = Done (HTTP_PASER_FINISH, h, 0)"
  by (cases xs) (auto simp: parse_bytes_def parse_result_def isParsed_def)

lemma nth_cells: "k < n \<Longrightarrow> fst (cells q b n ! k) = (it_inc q ^^ k) b"
proof (induction n arbitrary: b k)
  case (Suc n)
  then show ?case by (cases k) (auto simp: funpow_swap1)
qed simp

definition body_mark :: "'b iobuf_scheme \<Rightarrow> 'a http_header_scheme \<Rightarrow> bool" where
  "body_mark b h \<longleftrightarrow> wf_it (que b) (h_bodyStart h) \<and> it_inc (que b) (h_bodyStart h) = readpos b"

lemma body_mark_parsed:
  assumes "wf_buf b" "marks_end f" "parse_bytes f (buffer_cells b) h0 = Done (HTTP_PASER_FINISH, h, n)"
    and "isParsed h0 \<Longrightarrow> body_mark b h0"
  shows "body_mark (read_n b n) h"
proof (cases "isParsed h0")
  case True
  then show ?thesis using assms(3,4) by (simp add: parse_bytes_parsed read_n_def body_mark_def)
next
  case False
  note M = parse_bytes_marks [OF assms(2,3) False]
  then have "n - 1 < length (content b)" by (cases n) (auto simp: buffer_cells_def)
  then have "h_bodyStart h = (it_inc (que b) ^^ (n - 1)) (readpos b)"
    using M nth_cells [of "n - 1" "length (content b)" "que b" "readpos b"] by (simp add: buffer_cells_def)
  then show ?thesis using M it_inc_pow(1) [of "que b" "readpos b" "n - 1"] wf_bufD [OF assms(1)]
    by (cases n) (auto simp: body_mark_def read_n_def)
qed

lemma body_size_content:
  assumes "wf_buf b" "body_mark b h" "length (content b) + 1 < total (que b)" "total (que b) < 2 ^ 31"
  shows "body_size b (h_bodyStart h) = int (length (content b))"
proof -
  let ?q = "que b" and ?s = "h_bodyStart h"
  have W: "wf_que ?q" "wf_it ?q ?s" "wf_it ?q (writepos b)" "wf_it ?q (readpos b)"
    using wf_bufD [OF assms(1)] assms(2) by (auto simp: body_mark_def)
  have "lin ?q (readpos b) = (lin ?q ?s + 1) mod total ?q"
    using lin_it_inc [OF W(1,2)] assms(2) by (simp add: body_mark_def)
  then have "cdist (total ?q) (lin ?q ?s) (lin ?q (writepos b)) = length (content b) + 1"
    using assms(3) lin_less [OF W(2)] lin_less [OF W(3)] lin_less [OF W(4)]
    unfolding length_content [OF assms(1)]
    by (cases "lin ?q ?s + 1 = total ?q") (auto simp: cdist_def split: if_splits)
  then show ?thesis using it_diff_lin [OF W(2,3) assms(4)] by (simp add: body_size_def)
qed


text \<open>The buffers that only receive keep the full size of all their pieces; all sizes fit an \<open>int\<close>.\<close>

definition receiving :: "nat \<Rightarrow> 'b iobuf_scheme \<Rightarrow> bool" where
  "receiving dbs b \<longleftrightarrow> wf_buf b \<and> uniform dbs (que b) \<and> total (que b) < 2 ^ 31"

lemma set_psize_same: "psz q i = n \<Longrightarrow> i < length q \<Longrightarrow> set_psize q i n = q"
  by (auto simp: set_psize_def list_update_same_conv)

lemma fold_set_psize_same:
  "(\<And>t. t \<in> set ts \<Longrightarrow> t < length q \<and> psz q t = n) \<Longrightarrow> fold (\<lambda>t q. set_psize q t n) ts q = q"
  by (induction ts) (auto simp: set_psize_same)

lemma Reset_receiving:
  assumes "receiving dbs b"
  shows "Reset dbs b = b"
proof -
  have u: "t < length (que b) \<Longrightarrow> psz (que b) t = dbs" for t using assms by (simp add: receiving_def uniform_def)
  have i: "it_idx (readpos b) < length (que b)" "it_idx (writepos b) < length (que b)"
    using assms wf_bufD [of b] by (auto simp: receiving_def wf_it_def)
  have "fold (\<lambda>t q. set_psize q t dbs)
      (ring_walk (length (que b)) ((it_idx (writepos b) + 1) mod length (que b)) (it_idx (readpos b))) (que b) = que b"
    by (rule fold_set_psize_same) (use u set_ring_walk in blast)
  then show ?thesis using i u by (simp add: Reset_def Let_def set_psize_same)
qed


section \<open>Messages\<close>

lemma read_n_diff:
  assumes "wf_buf b" "n \<le> length (content b)" "total (que b) < 2 ^ 31"
  shows "it_diff (que (read_n b n)) (readpos (read_n b n)) (readpos b) = int n"
proof -
  have W: "wf_que (que b)" "wf_it (que b) (readpos b)" "wf_it (que b) (writepos b)" using wf_bufD [OF assms(1)] by auto
  note P = it_inc_pow [OF W(1,2), of n]
  have "n < total (que b)"
    using assms(2) cdist_less [OF lin_less [OF W(2)] lin_less [OF W(3)]] length_content [OF assms(1)] by simp
  then have "cdist (total (que b)) (lin (que b) (readpos b)) ((lin (que b) (readpos b) + n) mod total (que b)) = n"
    using lin_less [OF W(2)] by (auto simp: cdist_def mod_if)
  then show ?thesis using it_diff_lin [OF W(2) P(1) assms(3)] P(2) by (simp add: read_n_def)
qed

text \<open>A turn, in terms of the bytes of the buffer.\<close>

lemma MessageStream_turn_bytes:
  assumes "wf_buf (ss_readbuf s)" "total (que (ss_readbuf s)) < 2 ^ 31"
    and "parse_bytes req_turn (buffer_cells (ss_readbuf s)) (st_reqheader s) = Done (ret, h, k)"
  shows "MessageStream_turn hk dbs n s =
    (let b = read_n (ss_readbuf s) k; t = s\<lparr>ss_readbuf := b, st_reqheader := h\<rparr>; m = n - int k in
     if ret = HTTP_PARSER_FAIL then fail_with hk HTTP_PARSER_FAIL t
     else if ret = HTTP_PASER_HALF then Done (Return 0, t)
     else if GetContentLength h > int32 (int (dbs * length (que b))) then fail_with hk HTTP_REQUEST_OVERFLOW t
     else if GetContentLength h > body_size b (h_bodyStart h) then Done (Return 0, t)
     else handle_packet hk dbs (\<lambda>s. s\<lparr>st_reqheader := HttpRequestHeader_Reset (st_reqheader s)\<rparr>) m t)"
proof -
  have "k \<le> length (content (ss_readbuf s))" using parse_bytes_length [OF assms(3)] by (simp add: buffer_cells_def)
  then show ?thesis
    using assms(3) read_n_diff [OF assms(1) _ assms(2), of k]
    by (simp add: MessageStream_turn_def request_parser_bytes [OF assms(1)] Let_def)
qed

lemma ConnectStream_turn_bytes:
  assumes "wf_buf (ss_readbuf s)" "total (que (ss_readbuf s)) < 2 ^ 31"
    and "parse_bytes res_turn (buffer_cells (ss_readbuf s)) (st_resheader s) = Done (ret, h, k)"
  shows "ConnectStream_turn hk dbs n s =
    (let b = read_n (ss_readbuf s) k; t = s\<lparr>ss_readbuf := b, st_resheader := h\<rparr>; m = n - int k in
     if ret = HTTP_PARSER_FAIL then fail_with hk HTTP_PARSER_FAIL t
     else if ret = HTTP_PASER_HALF then Done (Return 0, t)
     else if GetContentLength h < 0 then fail_with hk HTTP_REQ_NOLENGTH t
     else if GetContentLength h > body_size b (h_bodyStart h) then Done (Return 0, t)
     else handle_packet hk dbs (\<lambda>s. s\<lparr>st_resheader := HttpReponseHeader_Reset (st_resheader s)\<rparr>) m t)"
proof -
  have "k \<le> length (content (ss_readbuf s))" using parse_bytes_length [OF assms(3)] by (simp add: buffer_cells_def)
  then show ?thesis
    using assms(3) read_n_diff [OF assms(1) _ assms(2), of k]
    by (simp add: ConnectStream_turn_def response_parser_bytes [OF assms(1)] Let_def)
qed


lemma recv_loop_steps:
  "turn n s = Fault \<Longrightarrow> recv_loop turn n s = Some Fault"
  "turn n s = Done (Return k, t) \<Longrightarrow> recv_loop turn n s = Some (Done (k, t))"
  "turn n s = Done (Again m, t) \<Longrightarrow> recv_loop turn n s = recv_loop turn m t"
  by (simp_all add: recv_loop.simps [of turn n s])

lemma OnRecived_Return:
  "MessageStream_turn hk dbs n s = Done (Return k, t) \<Longrightarrow> MessageStream_OnRecived hk dbs n s = Done (k, t)"
  "ConnectStream_turn hk dbs n s = Done (Return k, t) \<Longrightarrow> ConnectStream_OnRecived hk dbs n s = Done (k, t)"
  by (simp_all add: MessageStream_OnRecived_def ConnectStream_OnRecived_def recv_loop_steps(2))

lemma OnRecived_Fault:
  "MessageStream_turn hk dbs n s = Fault \<Longrightarrow> MessageStream_OnRecived hk dbs n s = Fault"
  "ConnectStream_turn hk dbs n s = Fault \<Longrightarrow> ConnectStream_OnRecived hk dbs n s = Fault"
  by (simp_all add: MessageStream_OnRecived_def ConnectStream_OnRecived_def recv_loop_steps(1))

lemma receiving_read_n:
  "receiving dbs b \<Longrightarrow> n \<le> length (content b) \<Longrightarrow> receiving dbs (read_n b n)"
  using read_n_content(1) [of b n] by (simp add: receiving_def read_n_def)

lemma receiving_total: "receiving dbs b \<Longrightarrow> total (que b) = length (que b) * dbs"
  using total_uniform [of "que b" dbs] by (simp add: receiving_def uniform_def)

lemma receivingD:
  assumes "receiving dbs b"
  shows "wf_buf b" "total (que b) < 2 ^ 31"
  using assms by (simp_all add: receiving_def)

lemma receiving_max: "receiving dbs b \<Longrightarrow> int32 (int (dbs * length (que b))) = int (dbs * length (que b))"
proof -
  assume r: "receiving dbs b"
  have "dbs * length (que b) < 2 ^ 31" using receiving_total [OF r] receivingD(2) [OF r] by (simp add: mult.commute)
  then show ?thesis by (rule int32_nat)
qed

text \<open>The turn on a message of which all bytes are there: the handler sees the header and, as the
  unread bytes, exactly the body and what follows it.\<close>

lemma MessageStream_complete:
  assumes "receiving dbs (ss_readbuf s)" "isParsed (st_reqheader s) \<Longrightarrow> body_mark (ss_readbuf s) (st_reqheader s)"
    and p: "parse_bytes req_turn (buffer_cells (ss_readbuf s)) (st_reqheader s) = Done (HTTP_PASER_FINISH, h, k)"
    and "length (drop k (content (ss_readbuf s))) + 1 < total (que (ss_readbuf s))"
    and "GetContentLength h \<le> int (length (drop k (content (ss_readbuf s))))"
  shows "MessageStream_turn hk dbs n s =
      handle_packet hk dbs (\<lambda>s. s\<lparr>st_reqheader := HttpRequestHeader_Reset (st_reqheader s)\<rparr>) (n - int k)
        (s\<lparr>ss_readbuf := read_n (ss_readbuf s) k, st_reqheader := h\<rparr>)"
    and "receiving dbs (read_n (ss_readbuf s) k)" "content (read_n (ss_readbuf s) k) = drop k (content (ss_readbuf s))"
proof -
  let ?b = "read_n (ss_readbuf s) k"
  have wf: "wf_buf (ss_readbuf s)" and T: "total (que (ss_readbuf s)) < 2 ^ 31" using assms(1) by (simp_all add: receiving_def)
  have k: "k \<le> length (content (ss_readbuf s))" using parse_bytes_length [OF p] by (simp add: buffer_cells_def)
  note C = read_n_content [OF wf k]
  show b: "receiving dbs ?b" "content ?b = drop k (content (ss_readbuf s))"
    using receiving_read_n [OF assms(1) k] C(2) by simp_all
  have "body_mark ?b h" using body_mark_parsed [OF wf req_marks_end p assms(2)] by blast
  then have "body_size ?b (h_bodyStart h) = int (length (content ?b))"
    using body_size_content [OF C(1)] assms(4) C(2) T by (simp add: read_n_def)
  moreover have "length (content ?b) \<le> dbs * length (que ?b)"
    using assms(4) receiving_total [OF b(1)] C(2) by (simp add: read_n_def mult.commute)
  then have "int (length (content ?b)) \<le> int (dbs * length (que ?b))" by (simp only: of_nat_le_iff)
  ultimately show "MessageStream_turn hk dbs n s =
      handle_packet hk dbs (\<lambda>s. s\<lparr>st_reqheader := HttpRequestHeader_Reset (st_reqheader s)\<rparr>) (n - int k)
        (s\<lparr>ss_readbuf := ?b, st_reqheader := h\<rparr>)"
    using MessageStream_turn_bytes [OF wf T p] assms(5) receiving_max [OF b(1)] C(2) by (simp add: Let_def)
qed

lemma ConnectStream_complete:
  assumes "receiving dbs (ss_readbuf s)" "isParsed (st_resheader s) \<Longrightarrow> body_mark (ss_readbuf s) (st_resheader s)"
    and p: "parse_bytes res_turn (buffer_cells (ss_readbuf s)) (st_resheader s) = Done (HTTP_PASER_FINISH, h, k)"
    and "length (drop k (content (ss_readbuf s))) + 1 < total (que (ss_readbuf s))"
    and "0 \<le> GetContentLength h" "GetContentLength h \<le> int (length (drop k (content (ss_readbuf s))))"
  shows "ConnectStream_turn hk dbs n s =
      handle_packet hk dbs (\<lambda>s. s\<lparr>st_resheader := HttpReponseHeader_Reset (st_resheader s)\<rparr>) (n - int k)
        (s\<lparr>ss_readbuf := read_n (ss_readbuf s) k, st_resheader := h\<rparr>)"
    and "receiving dbs (read_n (ss_readbuf s) k)" "content (read_n (ss_readbuf s) k) = drop k (content (ss_readbuf s))"
proof -
  let ?b = "read_n (ss_readbuf s) k"
  have wf: "wf_buf (ss_readbuf s)" and T: "total (que (ss_readbuf s)) < 2 ^ 31" using assms(1) by (simp_all add: receiving_def)
  have k: "k \<le> length (content (ss_readbuf s))" using parse_bytes_length [OF p] by (simp add: buffer_cells_def)
  note C = read_n_content [OF wf k]
  show b: "receiving dbs ?b" "content ?b = drop k (content (ss_readbuf s))"
    using receiving_read_n [OF assms(1) k] C(2) by simp_all
  have "body_mark ?b h" using body_mark_parsed [OF wf res_marks_end p assms(2)] by blast
  then have "body_size ?b (h_bodyStart h) = int (length (content ?b))"
    using body_size_content [OF C(1)] assms(4) C(2) T by (simp add: read_n_def)
  then show "ConnectStream_turn hk dbs n s =
      handle_packet hk dbs (\<lambda>s. s\<lparr>st_resheader := HttpReponseHeader_Reset (st_resheader s)\<rparr>) (n - int k)
        (s\<lparr>ss_readbuf := ?b, st_resheader := h\<rparr>)"
    using ConnectStream_turn_bytes [OF wf T p] assms(5,6) C(2) by (simp add: Let_def)
qed

text \<open>A handler that takes the whole body ends the loop when nothing else has arrived.\<close>

lemma handle_packet_all:
  assumes "hk_messageRecived hk = Some f" "f n s = Done t" "receiving dbs (ss_readbuf s)"
    and "\<not> ss_close_when_empty t" "que (ss_readbuf t) = que (ss_readbuf s)"
    "writepos (ss_readbuf t) = writepos (ss_readbuf s)" "isEmpty (ss_readbuf t)"
    and "n \<le> int (length (content (ss_readbuf s)))"
    and "\<And>u. ss_readbuf (reset u) = ss_readbuf u \<and> ss_close_when_empty (reset u) = ss_close_when_empty u"
    and "\<And>u b. (reset u)\<lparr>ss_readbuf := b\<rparr> = reset (u\<lparr>ss_readbuf := b\<rparr>)"
  shows "handle_packet hk dbs reset n s = Done (Return 0, reset t)"
proof -
  have wf: "wf_buf (ss_readbuf s)" using assms(3) by (simp add: receiving_def)
  have W: "wf_it (que (ss_readbuf s)) (readpos (ss_readbuf s))" "wf_it (que (ss_readbuf s)) (writepos (ss_readbuf s))"
    using wf_bufD [OF wf] by auto
  have e: "readpos (ss_readbuf t) = writepos (ss_readbuf s)" using assms(6,7) by (simp add: isEmpty_def)
  then have "receiving dbs (ss_readbuf t)" using assms(3,5,6) W by (simp add: receiving_def wf_buf_def)
  then have "Reset dbs (ss_readbuf t) = ss_readbuf t" by (rule Reset_receiving)
  moreover have "it_diff (que (ss_readbuf s)) (writepos (ss_readbuf s)) (readpos (ss_readbuf s)) =
      int (length (content (ss_readbuf s)))"
    using it_diff_lin [OF W] assms(3) length_content [OF wf] by (simp add: receiving_def)
  ultimately show ?thesis using assms(1,2,4,5,8-10) e by (simp add: handle_packet_def Let_def)
qed

lemma parse_prefix:
  assumes "parse_bytes f (xs @ ys) h = Done (HTTP_PASER_FINISH, h', n)" "length xs < n"
  shows "\<exists>h1. parse_bytes f xs h = Done (HTTP_PASER_HALF, h1, length xs) \<and> \<not> isParsed h1"
proof -
  obtain k v failed where r: "run f isParsed (xs @ ys) (h, [], []) = Done ((h', k, v), failed, n)"
    and e: "parse_result (h_state h') failed = HTTP_PASER_FINISH"
    using assms(1) by (auto simp: parse_bytes_def bind_outcome_Done_iff)
  then have nf: "\<not> failed" by (auto simp: parse_result_def split: if_splits)
  obtain h1 k1 v1 f1 n1 where r1: "run f isParsed xs (h, [], []) = Done ((h1, k1, v1), f1, n1)"
    and r2: "(if f1 then Done ((h1, k1, v1), f1, n1)
       else bind_outcome (run f isParsed ys (h1, k1, v1)) (\<lambda>(s'', failed, m). Done (s'', failed, n1 + m))) =
      Done ((h', k, v), failed, n)"
    using r by (auto simp: run_append bind_outcome_Done_iff)
  then have f1: "\<not> f1" using nf by auto
  have np: "\<not> isParsed h1"
  proof
    assume "isParsed h1"
    then have "run f isParsed ys (h1, k1, v1) = Done ((h1, k1, v1), False, 0)" by (cases ys) auto
    then have "n = n1" using r2 f1 by simp
    then show False using run_length [OF r1] assms(2) by simp
  qed
  then have "n1 = length xs" using run_length [OF r1] f1 by simp
  then show ?thesis using r1 f1 np
    by (intro exI [of _ h1]) (simp add: parse_bytes_def parse_result_def isParsed_def)
qed


section \<open>A request in two events\<close>

text \<open>What \<open>OnReadable\<close> does to the read buffer: bytes are appended, the rest stays.\<close>

definition arrived :: "string \<Rightarrow> 'a sstream_scheme \<Rightarrow> 'a sstream_scheme \<Rightarrow> bool" where
  "arrived d s t \<longleftrightarrow> (\<exists>b. t = s\<lparr>ss_readbuf := b\<rparr> \<and> wf_buf b \<and> content b = content (ss_readbuf s) @ d
     \<and> readpos b = readpos (ss_readbuf s) \<and> same_layout (que (ss_readbuf s)) (que b))"

lemma same_layout_uniform: "same_layout q q' \<Longrightarrow> uniform n q \<Longrightarrow> uniform n q'"
  using same_layout_psz [of q q'] by (auto simp: uniform_def same_layout_simps)

lemma body_mark_layout:
  assumes "body_mark b h" "same_layout (que b) (que c)" "readpos c = readpos b"
  shows "body_mark c h"
proof -
  have "length (que c) = length (que b)" using assms(2) by (simp add: same_layout_simps)
  moreover have "it_idx (h_bodyStart h) < length (que b)" using assms(1) by (simp add: body_mark_def wf_it_def)
  ultimately show ?thesis
    using assms same_layout_psz [OF assms(2)] by (auto simp: body_mark_def wf_it_def it_inc_def)
qed

lemma arrivedD:
  assumes "arrived d s t" "receiving dbs (ss_readbuf s)"
  shows "t = s\<lparr>ss_readbuf := ss_readbuf t\<rparr>" "receiving dbs (ss_readbuf t)"
    "content (ss_readbuf t) = content (ss_readbuf s) @ d" "total (que (ss_readbuf t)) = total (que (ss_readbuf s))"
    "body_mark (ss_readbuf s) h \<Longrightarrow> body_mark (ss_readbuf t) h"
  using assms same_layout_uniform body_mark_layout
  by (auto simp: arrived_def receiving_def same_layout_simps intro: body_mark_layout)

lemma full_room:
  assumes "wf_buf b" "isFull b"
  shows "room b = 1"
proof -
  have W: "wf_it (que b) (writepos b)" "wf_it (que b) (readpos b)" using wf_bufD [OF assms(1)] by auto
  have "lin (que b) (readpos b) = lin (que b) (writepos b) + 1" using assms(2) by (simp add: isFull_def lin_def)
  then show ?thesis using length_content [OF assms(1)] lin_less [OF W(2)] by (simp add: room_def cdist_def)
qed

lemma arrived_exists:
  assumes "wf_buf (ss_readbuf s)" "length d < room (ss_readbuf s)"
  shows "\<exists>t. arrived d s t"
proof (cases "isFull (ss_readbuf s)")
  case True
  then have "d = []" using full_room [OF assms(1)] assms(2) by simp
  then show ?thesis using assms(1) unfolding arrived_def
    by (intro exI [of _ s] exI [of _ "ss_readbuf s"]) simp
next
  case False
  note G = recv_segments(1) [OF assms(1) False]
  from recv_appends_frame [OF assms(1) G assms(2)] show ?thesis unfolding arrived_def by blast
qed

text \<open>A text that every parse of a request header takes completely, with a property of the result.\<close>

definition header_text :: "string \<Rightarrow> http_request \<Rightarrow> (http_request \<Rightarrow> bool) \<Rightarrow> bool" where
  "header_text hdr h0 Q \<longleftrightarrow> (\<forall>xs ys. map snd xs = hdr \<longrightarrow>
     (\<exists>h. parse_bytes req_turn (xs @ ys) h0 = Done (HTTP_PASER_FINISH, h, length hdr) \<and> Q h))"

lemma header_textE:
  assumes "header_text hdr h0 Q" "map snd zs = hdr @ body"
  obtains h where "parse_bytes req_turn zs h0 = Done (HTTP_PASER_FINISH, h, length hdr)" "Q h"
proof -
  obtain xs ys where "zs = xs @ ys" "map snd xs = hdr" using map_append_split assms(2) by metis
  then show thesis using assms(1) that unfolding header_text_def by blast
qed

theorem first_event:
  assumes "receiving dbs (ss_readbuf s)" "content (ss_readbuf s) = []" "\<not> isParsed (st_reqheader s)"
    and H: "header_text hdr (st_reqheader s) (\<lambda>h. Q h \<and> GetContentLength h = int (length body))"
    and d: "d1 @ d2 = hdr @ body" "d2 \<noteq> []" "length body + 1 < total (que (ss_readbuf s))"
    and a: "arrived d1 s s1"
  shows "\<exists>b h. MessageStream_OnRecived hk dbs n s1 = Done (0, s1\<lparr>ss_readbuf := b, st_reqheader := h\<rparr>)
    \<and> receiving dbs b \<and> total (que b) = total (que (ss_readbuf s))
    \<and> (if length d1 < length hdr
       then content b = [] \<and> \<not> isParsed h \<and> (\<exists>xs. map snd xs = d1 \<and>
         parse_bytes req_turn xs (st_reqheader s) = Done (HTTP_PASER_HALF, h, length d1))
       else isParsed h \<and> body_mark b h \<and> content b = drop (length hdr) d1
         \<and> Q h \<and> GetContentLength h = int (length body))"
proof -
  let ?b1 = "ss_readbuf s1"
  note A = arrivedD [OF a assms(1)]
  have c1: "content ?b1 = d1" using A(3) assms(2) by simp
  have h1: "st_reqheader s1 = st_reqheader s" using a by (auto simp: arrived_def)
  have wf: "wf_buf ?b1" and T: "total (que (ss_readbuf s1)) < 2 ^ 31"
    using A(2) h1 by (simp_all add: receiving_def)
  have m: "map snd (buffer_cells ?b1) = d1" using buffer_cells_snd [OF wf] c1 by simp
  then have l: "length (buffer_cells ?b1) = length d1" by (metis length_map)
  define fake where "fake = map (Pair (mk_it 0 0)) d2"
  have "map snd (buffer_cells ?b1 @ fake) = hdr @ body" using m d(1) by (simp add: fake_def comp_def)
  from header_textE [OF H this] obtain h where
    h: "parse_bytes req_turn (buffer_cells ?b1 @ fake) (st_reqheader s) = Done (HTTP_PASER_FINISH, h, length hdr)"
      "Q h" "GetContentLength h = int (length body)" by blast
  show ?thesis
  proof (cases "length d1 < length hdr")
    case True
    obtain g where g: "parse_bytes req_turn (buffer_cells ?b1) (st_reqheader s) = Done (HTTP_PASER_HALF, g, length d1)"
      "\<not> isParsed g" using parse_prefix [OF h(1)] True l by auto
    let ?b = "read_n ?b1 (length d1)"
    have "MessageStream_turn hk dbs n s1 = Done (Return 0, s1\<lparr>ss_readbuf := ?b, st_reqheader := g\<rparr>)"
      using MessageStream_turn_bytes [OF wf T g(1) [folded h1]] by (simp add: Let_def)
    moreover have "receiving dbs ?b" "content ?b = []"
      using receiving_read_n [OF A(2)] read_n_content(2) [OF wf] c1 by auto
    moreover have "total (que ?b) = total (que (ss_readbuf s))" using A(4) by (simp add: read_n_def)
    ultimately show ?thesis using True g m
      by (intro exI [of _ ?b] exI [of _ g] conjI) (auto intro: OnRecived_Return(1))
  next
    case False
    let ?k = "length hdr" and ?rest = "drop (length hdr) d1"
    have split: "d1 = hdr @ ?rest" "body = ?rest @ d2"
      using d(1) False by (metis append_eq_append_conv_if linorder_not_less append_take_drop_id)+
    then obtain h where
      h: "parse_bytes req_turn (buffer_cells ?b1) (st_reqheader s) = Done (HTTP_PASER_FINISH, h, ?k)"
        "Q h" "GetContentLength h = int (length body)" using header_textE [OF H] m by metis
    let ?b = "read_n ?b1 ?k"
    have k: "?k \<le> length (content ?b1)" using False c1 by simp
    have b: "receiving dbs ?b" "content ?b = ?rest" "total (que ?b) = total (que (ss_readbuf s))"
      using receiving_read_n [OF A(2) k] read_n_content(2) [OF wf k] c1 A(4) by (simp_all add: read_n_def)
    have bm: "body_mark ?b h" using body_mark_parsed [OF wf req_marks_end h(1)] assms(3) by blast
    have lt: "length ?rest < length body" using split(2) d(2) by (metis length_append length_greater_0_conv less_add_same_cancel1)
    have "body_size ?b (h_bodyStart h) = int (length ?rest)"
      using body_size_content [OF _ bm] b lt d(3) by (simp add: receiving_def)
    then have less: "body_size ?b (h_bodyStart h) < GetContentLength h" using lt h(3) by simp
    have "length body \<le> dbs * length (que ?b)" using d(3) b(3) receiving_total [OF b(1)] by (simp add: mult.commute)
    then have "GetContentLength h \<le> int (dbs * length (que ?b))" unfolding h(3) by (simp only: of_nat_le_iff)
    then have "MessageStream_turn hk dbs n s1 = Done (Return 0, s1\<lparr>ss_readbuf := ?b, st_reqheader := h\<rparr>)"
      using MessageStream_turn_bytes [OF wf T h(1) [folded h1]] less receiving_max [OF b(1)] by (simp add: Let_def)
    moreover have "isParsed h" using parse_bytes_length [OF h(1)] by (simp add: isParsed_def)
    ultimately show ?thesis using False b bm h
      by (intro exI [of _ ?b] exI [of _ h] conjI) (auto intro: OnRecived_Return(1))
  qed
qed


theorem second_event:
  assumes "receiving dbs (ss_readbuf s)" "content (ss_readbuf s) = []" "\<not> isParsed (st_reqheader s)"
    and "h_state (st_reqheader s) \<noteq> REQ_VALUE_R"
    and H: "header_text hdr (st_reqheader s) (\<lambda>h. Q h \<and> GetContentLength h = int (length body))"
    and d: "d1 @ d2 = hdr @ body" "d2 \<noteq> []" "length body + 1 < total (que (ss_readbuf s))"
    and a: "arrived d1 s s1" and r: "MessageStream_OnRecived hk dbs n1 s1 = Done (c, s2)"
    and st: "h_state (st_reqheader s2) \<noteq> REQ_VALUE_R" and a2: "arrived d2 s2 s3"
  shows "\<exists>b h m. MessageStream_turn hk dbs n2 s3 =
      handle_packet hk dbs (\<lambda>s. s\<lparr>st_reqheader := HttpRequestHeader_Reset (st_reqheader s)\<rparr>) m
        (s3\<lparr>ss_readbuf := b, st_reqheader := h\<rparr>)
    \<and> m \<le> n2 \<and> (n2 = int (length d2) \<longrightarrow> m \<le> int (length body)) \<and> receiving dbs b \<and> content b = body
    \<and> Q h \<and> GetContentLength h = int (length body)"
proof -
  obtain b h where s2: "s2 = s1\<lparr>ss_readbuf := b, st_reqheader := h\<rparr>" "receiving dbs b"
    "total (que b) = total (que (ss_readbuf s))" and cases:
    "if length d1 < length hdr
     then content b = [] \<and> \<not> isParsed h \<and> (\<exists>xs. map snd xs = d1 \<and>
       parse_bytes req_turn xs (st_reqheader s) = Done (HTTP_PASER_HALF, h, length d1))
     else isParsed h \<and> body_mark b h \<and> content b = drop (length hdr) d1 \<and> Q h \<and> GetContentLength h = int (length body)"
    using first_event [OF assms(1-3) H d a, of hk n1] r by auto
  have b2: "ss_readbuf s2 = b" "st_reqheader s2 = h" using s2(1) by simp_all
  note A = arrivedD [OF a2, unfolded b2, OF s2(2)]
  have h3: "st_reqheader s3 = h" using a2 b2 by (auto simp: arrived_def)
  have wf: "wf_buf (ss_readbuf s3)" using A(2) by (simp add: receiving_def)
  have m3: "map snd (buffer_cells (ss_readbuf s3)) = content b @ d2" using buffer_cells_snd [OF wf] A(3) by simp
  show ?thesis
  proof (cases "length d1 < length hdr")
    case True
    then obtain xs where xs: "map snd xs = d1" "content b = []" "\<not> isParsed h"
      "parse_bytes req_turn xs (st_reqheader s) = Done (HTTP_PASER_HALF, h, length d1)" using cases by auto
    have "map snd (xs @ buffer_cells (ss_readbuf s3)) = hdr @ body" using xs(1,2) m3 d(1) by simp
    from header_textE [OF H this] obtain g where
      g: "parse_bytes req_turn (xs @ buffer_cells (ss_readbuf s3)) (st_reqheader s) = Done (HTTP_PASER_FINISH, g, length hdr)"
        "Q g" "GetContentLength g = int (length body)" by blast
    have lx: "length xs = length d1" using xs(1) by (metis length_map)
    obtain k where k: "parse_bytes req_turn (buffer_cells (ss_readbuf s3)) (st_reqheader s3) = Done (HTTP_PASER_FINISH, g, k)"
      "length d1 + k = length hdr"
      using request_in_two_parts [OF xs(4) assms(4) st [unfolded b2]] g(1) h3 lx
      by (auto simp: bind_outcome_Done_iff)
    have "d2 = drop (length d1) (hdr @ body)" using d(1) by (metis append_eq_conv_conj)
    then have "drop k d2 = drop (k + length d1) (hdr @ body)" by (simp only: drop_drop)
    then have drop: "drop k d2 = body" using k(2) by (simp add: add.commute)
    have c: "drop k (content (ss_readbuf s3)) = body" using A(3) xs(2) drop by simp
    have np: "isParsed (st_reqheader s3) \<Longrightarrow> body_mark (ss_readbuf s3) (st_reqheader s3)" using xs(3) h3 by simp
    note C = MessageStream_complete(1) [OF A(2) np k(1), unfolded c, where hk = hk and n = n2]
      MessageStream_complete(2,3) [OF A(2) np k(1), unfolded c]
    have "length body \<le> length d2" using drop by (metis length_drop diff_le_self)
    moreover have "length d2 = k + length body" using arg_cong [OF d(1), of length] k(2) by simp
    ultimately show ?thesis using C d(3) s2(3) A(4) g c
      by (intro exI [of _ "read_n (ss_readbuf s3) k"] exI [of _ g] exI [of _ "n2 - int k"]) auto
  next
    case False
    then have c: "isParsed h" "body_mark b h" "content b = drop (length hdr) d1" "Q h"
      "GetContentLength h = int (length body)" using cases by auto
    have "drop (length hdr) (d1 @ d2) = body" using d(1) by simp
    then have body: "content (ss_readbuf s3) = body" using A(3) c(3) False by simp
    have p: "parse_bytes req_turn (buffer_cells (ss_readbuf s3)) (st_reqheader s3) = Done (HTTP_PASER_FINISH, h, 0)"
      using parse_bytes_parsed c(1) h3 by metis
    have bm: "isParsed (st_reqheader s3) \<Longrightarrow> body_mark (ss_readbuf s3) (st_reqheader s3)"
      using A(5) c(2) h3 by simp
    note C = MessageStream_complete(1) [OF A(2) bm p, unfolded drop_0 body, where hk = hk and n = n2]
      MessageStream_complete(2,3) [OF A(2) bm p, unfolded drop_0 body]
    have "length d2 \<le> length body" using body A(3) by (metis length_append le_add2)
    then show ?thesis using C d(3) s2(3) A(4) c
      by (intro exI [of _ "read_n (ss_readbuf s3) 0"] exI [of _ h] exI [of _ n2]) auto
  qed
qed

text \<open>All in one event.\<close>

theorem whole_event:
  assumes "receiving dbs (ss_readbuf s)" "content (ss_readbuf s) = []" "\<not> isParsed (st_reqheader s)"
    and H: "header_text hdr (st_reqheader s) (\<lambda>h. Q h \<and> GetContentLength h = int (length body))"
    and "length body + 1 < total (que (ss_readbuf s))" and a: "arrived (hdr @ body) s s1"
  shows "\<exists>b h. MessageStream_turn hk dbs (int (length (hdr @ body))) s1 =
      handle_packet hk dbs (\<lambda>s. s\<lparr>st_reqheader := HttpRequestHeader_Reset (st_reqheader s)\<rparr>) (int (length body))
        (s1\<lparr>ss_readbuf := b, st_reqheader := h\<rparr>)
    \<and> receiving dbs b \<and> content b = body \<and> Q h \<and> GetContentLength h = int (length body)"
proof -
  note A = arrivedD [OF a assms(1)]
  have h1: "st_reqheader s1 = st_reqheader s" using a by (auto simp: arrived_def)
  have wf: "wf_buf (ss_readbuf s1)" using A(2) by (simp add: receiving_def)
  have m: "map snd (buffer_cells (ss_readbuf s1)) = hdr @ body" using buffer_cells_snd [OF wf] A(3) assms(2) by simp
  obtain h where h: "parse_bytes req_turn (buffer_cells (ss_readbuf s1)) (st_reqheader s1) =
      Done (HTTP_PASER_FINISH, h, length hdr)" "Q h" "GetContentLength h = int (length body)"
    using header_textE [OF H m] h1 by metis
  have c: "drop (length hdr) (content (ss_readbuf s1)) = body" using A(3) assms(2) by simp
  have np: "isParsed (st_reqheader s1) \<Longrightarrow> body_mark (ss_readbuf s1) (st_reqheader s1)" using assms(3) h1 by simp
    note C = MessageStream_complete(1) [OF A(2) np h(1), unfolded c, where hk = hk and n = "int (length (hdr @ body))"]
      MessageStream_complete(2,3) [OF A(2) np h(1), unfolded c]
  show ?thesis using C assms(5) A(4) h c
    by (intro exI [of _ "read_n (ss_readbuf s1) (length hdr)"] exI [of _ h]) auto
qed


section \<open>The receive loops end\<close>

lemma recv_loop_ends:
  assumes "\<And>n s m t. I s \<Longrightarrow> turn n s = Done (Again m, t) \<Longrightarrow> I t \<and> (f t :: nat) < f s" and "I s"
  shows "\<exists>r. recv_loop turn n s = Some r"
  using assms(2)
proof (induction "f s" arbitrary: n s rule: less_induct)
  case less
  show ?case
  proof (cases "turn n s")
    case Fault
    then show ?thesis by (simp add: recv_loop_steps)
  next
    case (Done x)
    then obtain r t where x: "turn n s = Done (r, t)" by (cases x) auto
    show ?thesis
    proof (cases r)
      case (Return k)
      then show ?thesis using x by (simp add: recv_loop_steps)
    next
      case (Again m)
      then have "I t" "f t < f s" using assms(1) [OF less.prems] x by auto
      then show ?thesis using less.hyps [of t m] x Again by (simp add: recv_loop_steps)
    qed
  qed
qed

text \<open>What the loops rely on: the handler of a connection only takes bytes from the read buffer.\<close>

locale packet_handler =
  fixes dbs :: nat and f :: "int \<Rightarrow> 'a http_stream_scheme \<Rightarrow> 'a http_stream_scheme outcome"
  assumes takes: "receiving dbs (ss_readbuf s) \<Longrightarrow> f n s = Done t \<Longrightarrow>
    receiving dbs (ss_readbuf t) \<and> length (content (ss_readbuf t)) \<le> length (content (ss_readbuf s))"
begin

lemma handle_packet_again:
  assumes "hk_messageRecived hk = Some f" "receiving dbs (ss_readbuf s)"
    and "handle_packet hk dbs reset n s = Done (Again m, t)"
    and "\<And>u. ss_readbuf (reset u) = ss_readbuf u"
  shows "\<exists>u. t = reset u \<and> receiving dbs (ss_readbuf t) \<and> length (content (ss_readbuf t)) \<le> length (content (ss_readbuf s))"
proof -
  obtain u where u: "f n s = Done u" "t = (reset u)\<lparr>ss_readbuf := Reset dbs (ss_readbuf (reset u))\<rparr>"
    using assms(1,3) by (auto simp: handle_packet_def bind_outcome_Done_iff Let_def)
  note U = takes [OF assms(2) u(1)]
  then have "Reset dbs (ss_readbuf (reset u)) = ss_readbuf (reset u)" using Reset_receiving assms(4) by metis
  then have "t = reset u" using u(2) by simp
  then show ?thesis using U assms(4) by auto
qed

lemma not_again_fail: "fail_with hk c s \<noteq> Done (Again m, t)"
  by (auto simp: fail_with_def bind_outcome_Done_iff)

lemma parse_uses:
  assumes "parse_bytes g xs h0 = Done (ret, h, k)" "ret \<noteq> HTTP_PARSER_FAIL" "ret \<noteq> HTTP_PASER_HALF"
    "marks_end g"
  shows "k \<le> length xs" "k = 0 \<Longrightarrow> isParsed h0"
  using assms parse_bytes_length [OF assms(1)] parse_bytes_marks [OF assms(4)] by auto

theorem MessageStream_ends:
  assumes "hk_messageRecived hk = Some f" "receiving dbs (ss_readbuf s)"
  shows "\<exists>r. recv_loop (MessageStream_turn hk dbs) n s = Some r"
proof (rule recv_loop_ends)
  let ?f = "\<lambda>s. length (content (ss_readbuf s)) + (if isParsed (st_reqheader s) then 1 else 0)"
  fix n s m t
  assume I: "receiving dbs (ss_readbuf s)" and D: "MessageStream_turn hk dbs n s = Done (Again m, t)"
  have wf: "wf_buf (ss_readbuf s)" using I by (simp add: receiving_def)
  obtain ret h k where p: "parse_bytes req_turn (buffer_cells (ss_readbuf s)) (st_reqheader s) = Done (ret, h, k)"
    using D by (auto simp: MessageStream_turn_def request_parser_bytes [OF wf] bind_outcome_Done_iff)
  let ?b = "read_n (ss_readbuf s) k"
  have H: "handle_packet hk dbs (\<lambda>s. s\<lparr>st_reqheader := HttpRequestHeader_Reset (st_reqheader s)\<rparr>) (n - int k)
      (s\<lparr>ss_readbuf := ?b, st_reqheader := h\<rparr>) = Done (Again m, t)"
    and ret: "ret \<noteq> HTTP_PARSER_FAIL" "ret \<noteq> HTTP_PASER_HALF"
    using D MessageStream_turn_bytes [OF wf receivingD(2) [OF I] p, of hk dbs n]
    by (auto simp: Let_def not_again_fail split: if_splits)
  note U = parse_uses [OF p ret req_marks_end]
  have k: "k \<le> length (content (ss_readbuf s))" using U(1) by (simp add: buffer_cells_def)
  have b: "receiving dbs ?b" "length (content ?b) = length (content (ss_readbuf s)) - k"
    using receiving_read_n [OF I k] read_n_content(2) [OF wf k] by simp_all
  obtain u where u: "t = u\<lparr>st_reqheader := HttpRequestHeader_Reset (st_reqheader u)\<rparr>" "receiving dbs (ss_readbuf t)"
    "length (content (ss_readbuf t)) \<le> length (content ?b)"
    using handle_packet_again [OF assms(1) _ H] b(1) by auto
  have "\<not> isParsed (st_reqheader t)"
    using u(1) by (simp add: isParsed_def HttpRequestHeader_Reset_def HttpHeader_Reset_def)
  then show "receiving dbs (ss_readbuf t) \<and> ?f t < ?f s" using u(2,3) b(2) U(2) k by (cases "k = 0") auto
qed (rule assms(2))

theorem ConnectStream_ends:
  assumes "hk_messageRecived hk = Some f" "receiving dbs (ss_readbuf s)"
  shows "\<exists>r. recv_loop (ConnectStream_turn hk dbs) n s = Some r"
proof (rule recv_loop_ends)
  let ?f = "\<lambda>s. length (content (ss_readbuf s)) + (if isParsed (st_resheader s) then 1 else 0)"
  fix n s m t
  assume I: "receiving dbs (ss_readbuf s)" and D: "ConnectStream_turn hk dbs n s = Done (Again m, t)"
  have wf: "wf_buf (ss_readbuf s)" using I by (simp add: receiving_def)
  obtain ret h k where p: "parse_bytes res_turn (buffer_cells (ss_readbuf s)) (st_resheader s) = Done (ret, h, k)"
    using D by (auto simp: ConnectStream_turn_def response_parser_bytes [OF wf] bind_outcome_Done_iff)
  let ?b = "read_n (ss_readbuf s) k"
  have H: "handle_packet hk dbs (\<lambda>s. s\<lparr>st_resheader := HttpReponseHeader_Reset (st_resheader s)\<rparr>) (n - int k)
      (s\<lparr>ss_readbuf := ?b, st_resheader := h\<rparr>) = Done (Again m, t)"
    and ret: "ret \<noteq> HTTP_PARSER_FAIL" "ret \<noteq> HTTP_PASER_HALF"
    using D ConnectStream_turn_bytes [OF wf receivingD(2) [OF I] p, of hk dbs n]
    by (auto simp: Let_def not_again_fail split: if_splits)
  note U = parse_uses [OF p ret res_marks_end]
  have k: "k \<le> length (content (ss_readbuf s))" using U(1) by (simp add: buffer_cells_def)
  have b: "receiving dbs ?b" "length (content ?b) = length (content (ss_readbuf s)) - k"
    using receiving_read_n [OF I k] read_n_content(2) [OF wf k] by simp_all
  obtain u where u: "t = u\<lparr>st_resheader := HttpReponseHeader_Reset (st_resheader u)\<rparr>" "receiving dbs (ss_readbuf t)"
    "length (content (ss_readbuf t)) \<le> length (content ?b)"
    using handle_packet_again [OF assms(1) _ H] b(1) by auto
  have "\<not> isParsed (st_resheader t)"
    using u(1) by (simp add: isParsed_def HttpReponseHeader_Reset_def HttpHeader_Reset_def)
  then show "receiving dbs (ss_readbuf t) \<and> ?f t < ?f s" using u(2,3) b(2) U(2) k by (cases "k = 0") auto
qed (rule assms(2))

end


section \<open>The two classes of streams\<close>

lemma closes_once_header [simp]:
  "closes_once s (t\<lparr>st_reqheader := a\<rparr>) = closes_once s t" "closes_once (s\<lparr>st_reqheader := a\<rparr>) t = closes_once s t"
  "closes_once s (t\<lparr>st_resheader := b\<rparr>) = closes_once s t" "closes_once (s\<lparr>st_resheader := b\<rparr>) t = closes_once s t"
  "closes_once u (v\<lparr>cs_status := c\<rparr>) = closes_once u v" "closes_once (u\<lparr>cs_status := c\<rparr>) v = closes_once u v"
  by (simp_all add: closes_once_def dels_def)

lemma to_once2_value: "(\<And>x y z. m = Done (x, y, z) \<Longrightarrow> to_once2 s (f x y z)) \<Longrightarrow> to_once2 s (bind_outcome m (\<lambda>(x, y, z). f x y z))"
  by (cases m) (auto intro: once_intros)

text \<open>What the closures of a connection promise: none of them closes its stream more than once.\<close>

locale message_class =
  fixes hk :: "'a http_stream_scheme hooks" and dbs :: nat
  assumes readable_hook: "hk_readable hk = Some f \<Longrightarrow> once f"
    and writeable_hook: "hk_writeable hk = Some f \<Longrightarrow> once f"
    and readTimeOut_hook: "hk_readTimeOut hk = Some f \<Longrightarrow> once f"
    and writeTimeOut_hook: "hk_writeTimeOut hk = Some f \<Longrightarrow> once f"
    and connected_hook: "hk_connected hk = Some f \<Longrightarrow> once f"
    and close_hook: "hk_close hk = Some f \<Longrightarrow> once f"
    and error_hook: "hk_messageError hk = Some g \<Longrightarrow> once (g c)"
    and recived_hook: "hk_messageRecived hk = Some h \<Longrightarrow> once (h n)"
    and sended_hook: "hk_messageSended hk = Some h \<Longrightarrow> once (h n)"
begin

lemma SocketStream_OnConnect_once: "to_once2 s (SocketStream_OnConnect hk s)"
proof (cases "hk_getnames hk s")
  case (Pair l p)
  have "closes_once s (s\<lparr>ss_local := l, ss_peer := p\<rparr>)" by simp
  then show ?thesis unfolding SocketStream_OnConnect_def Let_def Pair prod.case
    by (rule to_once_from(2)) (intro once_intros to_once_run_if connected_hook; simp)
qed

lemma run_error_once: "to_once s (run_error hk c s)"
  unfolding run_error_def
  by (cases "hk_messageError hk") (simp_all add: once_intros error_hook [THEN to_once_app(1)])

lemma fail_with_once: "to_once2 s (fail_with hk c s)"
  unfolding fail_with_def by (intro once_intros run_error_once) simp

lemma handle_packet_once:
  assumes "\<And>u. closes_once u (reset u)"
  shows "to_once2 s (handle_packet hk dbs reset n s)"
proof -
  have "to_once s (case hk_messageRecived hk of None \<Rightarrow> Done s
      | Some f \<Rightarrow> bind_outcome (f n s) (\<lambda>s. Done (reset s\<lparr>ss_readbuf := Reset dbs (ss_readbuf (reset s))\<rparr>)))"
  proof (cases "hk_messageRecived hk")
    case (Some f)
    then have "to_once s (f n s)" by (rule recived_hook [THEN to_once_app(1)])
    then have "to_once s (bind_outcome (f n s) (\<lambda>s. Done (reset s\<lparr>ss_readbuf := Reset dbs (ss_readbuf (reset s))\<rparr>)))"
      by (rule to_once_bind(1)) (simp add: assms once_intros)
    then show ?thesis using Some by simp
  qed (simp add: once_intros)
  then show ?thesis unfolding handle_packet_def Let_def by (intro once_intros) simp_all
qed

lemma turn_once: "to_once2 s (MessageStream_turn hk dbs n s)" "to_once2 s (ConnectStream_turn hk dbs n s)"
proof -
  have m: "to_once2 s (fail_with hk c (s\<lparr>ss_readbuf := b, st_reqheader := h\<rparr>))"
    "to_once2 s (handle_packet hk dbs (\<lambda>s. s\<lparr>st_reqheader := HttpRequestHeader_Reset (st_reqheader s)\<rparr>) k
      (s\<lparr>ss_readbuf := b, st_reqheader := h\<rparr>))" for c b h k
    by (rule to_once_from(2) [OF _ fail_with_once] to_once_from(2) [OF _ handle_packet_once]; simp)+
  have c: "to_once2 s (fail_with hk c (s\<lparr>ss_readbuf := b, st_resheader := h\<rparr>))"
    "to_once2 s (handle_packet hk dbs (\<lambda>s. s\<lparr>st_resheader := HttpReponseHeader_Reset (st_resheader s)\<rparr>) k
      (s\<lparr>ss_readbuf := b, st_resheader := h\<rparr>))" for c b h k
    by (rule to_once_from(2) [OF _ fail_with_once] to_once_from(2) [OF _ handle_packet_once]; simp)+
  show "to_once2 s (MessageStream_turn hk dbs n s)" "to_once2 s (ConnectStream_turn hk dbs n s)"
    unfolding MessageStream_turn_def ConnectStream_turn_def Let_def
    by (rule to_once2_value; intro once_intros m c; simp)+
qed

lemma recv_loop_once:
  assumes "recv_loop turn n s = Some r" "\<And>n s. to_once2 s (turn n s)"
  shows "to_once2 s r"
proof -
  have "(\<forall>n s. to_once2 s (turn n s)) \<longrightarrow> to_once2 s r"
  proof (rule recv_loop.raw_induct [OF _ assms(1)], intro impI)
    fix f turn n s r
    assume IH: "\<And>turn n s r. f turn n s = Some r \<Longrightarrow> (\<forall>n s. to_once2 s (turn n s)) \<longrightarrow> to_once2 s r"
      and r: "(case turn n s of Fault \<Rightarrow> Some Fault
        | Done (r, s) \<Rightarrow> (case r of Return k \<Rightarrow> Some (Done (k, s)) | Again n \<Rightarrow> f turn n s)) = Some r"
      and t: "\<forall>n s. to_once2 s (turn n s)"
    show "to_once2 s r"
    proof (cases "turn n s")
      case (Done x)
      obtain c u where x: "x = (c, u)" by (cases x)
      then have c: "closes_once s u" using t Done by (simp add: to_once2_def)
      show ?thesis
      proof (cases c)
        case (Return k)
        then show ?thesis using r Done x c to_once_Done(2) by auto
      next
        case (Again m)
        then show ?thesis using r Done x IH t by (intro to_once_from(2) [OF c]) simp
      qed
    qed (use r to_once_Fault(2) in auto)
  qed
  then show ?thesis using assms(2) by blast
qed

lemma OnRecived_once: "once2 (MessageStream_OnRecived hk dbs n)" "once2 (ConnectStream_OnRecived hk dbs n)"
  using recv_loop_once [OF _ turn_once(1)] recv_loop_once [OF _ turn_once(2)]
  by (auto simp: once_iff MessageStream_OnRecived_def ConnectStream_OnRecived_def ended_def intro: once_intros split: option.split)

lemma OnSended_once: "once2 (MessageStream_OnSended hk n)" "once2 (ConnectStream_OnSended hk n)"
  unfolding MessageStream_OnSended_def ConnectStream_OnSended_def once_iff
  by (cases "hk_messageSended hk"; auto intro!: once_intros to_once_app(1) sended_hook)+

end

sublocale message_class \<subseteq> message: stream_class hk "MessageStream_methods hk dbs"
  by unfold_locales
    (auto simp: MessageStream_methods_def once_iff(2) OnRecived_once [unfolded once_iff(2)] OnSended_once [unfolded once_iff(2)]
      intro: readable_hook writeable_hook readTimeOut_hook writeTimeOut_hook error_hook close_hook
        SocketStream_OnConnect_once SocketStream_OnClose_once)

locale connect_class = message_class hk dbs for hk :: "'a connect_stream_scheme hooks" and dbs

sublocale connect_class \<subseteq> connect: stream_class hk "ConnectStream_methods hk dbs"
proof unfold_locales
  show "once2 (vt_OnConnect (ConnectStream_methods hk dbs))"
    unfolding ConnectStream_methods_def once_iff(2) methods.simps ConnectStream_OnConnect_def
    by (intro allI once_intros SocketStream_OnConnect_once) simp
  show "once (vt_OnClose (ConnectStream_methods hk dbs))"
    unfolding ConnectStream_methods_def once_iff(1) methods.simps ConnectStream_OnClose_def
    by (intro allI once_intros to_once_app(1) SocketStream_OnClose_once close_hook; simp)
qed (auto simp: ConnectStream_methods_def once_iff(2) OnRecived_once [unfolded once_iff(2)] OnSended_once [unfolded once_iff(2)]
      intro: readable_hook writeable_hook readTimeOut_hook writeTimeOut_hook error_hook)

end
