(* ===== verification/Rpc_Controller.thy ===== *)
theory Rpc_Controller
  imports Error_Code Prelude
begin

text \<open>
  The controllers of a call (\<open>rpc/rpc_controller_impl.cpp\<close>): their fields and accessors, and the way
  a synchronous caller waits for the status (\<open>RpcClientController::Wait\<close> and \<open>SetStatus\<close>; the same
  scheme is in \<open>ConnectStream::Wait\<close>). The waiting thread and the notifying one are interleaved.
\<close>

section \<open>Controllers\<close>

record 'm controller =
  ct_seq :: "64 word"
  ct_msg :: string
  ct_body :: string
  ct_status :: int
  ct_req_send_size :: "32 word"
  ct_req_pack_size :: "32 word"
  ct_res_send_size :: "32 word"
  ct_res_pack_size :: "32 word"
  ct_request :: "'m option"
  ct_response :: "'m option"

text \<open>The constructor; \<open>raw\<close> holds the members it leaves as they are.\<close>

definition new_controller :: "('m, 'a) controller_scheme \<Rightarrow> ('m, 'a) controller_scheme" where
  "new_controller raw = raw\<lparr>ct_msg := [], ct_body := [], ct_status := - 1, ct_req_send_size := 0,
     ct_req_pack_size := 0, ct_res_send_size := 0, ct_res_pack_size := 0, ct_request := None, ct_response := None\<rparr>"

definition ctl_Reset :: "('m, 'a) controller_scheme \<Rightarrow> ('m, 'a) controller_scheme" where
  "ctl_Reset c = c\<lparr>ct_msg := [], ct_status := - 1, ct_req_send_size := 0, ct_req_pack_size := 0,
     ct_res_send_size := 0, ct_res_pack_size := 0, ct_request := None, ct_response := None\<rparr>"

definition Failed :: "('m, 'a) controller_scheme \<Rightarrow> bool" where
  "Failed c \<longleftrightarrow> ct_status c \<noteq> error_number OK"

definition ctl_ErrorCode :: "('m, 'a) controller_scheme \<Rightarrow> int" where
  "ctl_ErrorCode c = ct_status c"

definition ErrorText :: "('m, 'a) controller_scheme \<Rightarrow> string" where
  "ErrorText c = ct_msg c"

definition SetFailed :: "string \<Rightarrow> ('m, 'a) controller_scheme \<Rightarrow> ('m, 'a) controller_scheme" where
  "SetFailed reason c = c\<lparr>ct_msg := reason\<rparr>"

definition server_SetStatus :: "int \<Rightarrow> ('m, 'a) controller_scheme \<Rightarrow> ('m, 'a) controller_scheme" where
  "server_SetStatus st c = c\<lparr>ct_status := st, ct_msg := ErrorString st\<rparr>"

record ('m, 'd) client_controller = "'m controller" +
  cc_method :: "string option"
  cc_done :: "'d option"

definition client_Reset :: "('m, 'd) client_controller \<Rightarrow> ('m, 'd) client_controller" where
  "client_Reset c = (ctl_Reset c)\<lparr>cc_method := None, cc_done := None\<rparr>"

text \<open>The client's \<open>SetStatus\<close> sets no text.\<close>

definition client_SetStatus :: "int \<Rightarrow> ('m, 'a) controller_scheme \<Rightarrow> ('m, 'a) controller_scheme" where
  "client_SetStatus st c = c\<lparr>ct_status := st\<rparr>"

text \<open>A service that reports an error through \<open>SetFailed\<close> has not failed for the server.\<close>

lemma SetFailed_keeps_status: "Failed (SetFailed reason c) = Failed c"
  by (simp add: Failed_def SetFailed_def)

section \<open>Waiting for the status\<close>

datatype wait_pc = W_check | W_lock | W_wait | W_blocked | W_woken | W_unlock | W_returned
datatype notify_pc = N_lock | N_set | N_notify | N_unlock | N_done

record wait_sys =
  ws_status :: int
  ws_locked :: bool
  ws_waiter :: wait_pc
  ws_notifier :: notify_pc

text \<open>
  \<open>while(_status == -1) { lock; cv.wait }\<close> against \<open>lock; _status = status; cv.notifyOne\<close>. A
  notification reaches a thread that is blocked in \<open>cv.wait\<close> and nobody else.
\<close>

inductive wait_step :: "int \<Rightarrow> wait_sys \<Rightarrow> wait_sys \<Rightarrow> bool" for st where
  leave: "ws_waiter s = W_check \<Longrightarrow> ws_status s \<noteq> - 1 \<Longrightarrow> wait_step st s (s\<lparr>ws_waiter := W_returned\<rparr>)"
| enter: "ws_waiter s = W_check \<Longrightarrow> ws_status s = - 1 \<Longrightarrow> wait_step st s (s\<lparr>ws_waiter := W_lock\<rparr>)"
| lock: "ws_waiter s = W_lock \<Longrightarrow> \<not> ws_locked s \<Longrightarrow>
    wait_step st s (s\<lparr>ws_waiter := W_wait, ws_locked := True\<rparr>)"
| wait: "ws_waiter s = W_wait \<Longrightarrow> wait_step st s (s\<lparr>ws_waiter := W_blocked, ws_locked := False\<rparr>)"
| wake: "ws_waiter s = W_woken \<Longrightarrow> \<not> ws_locked s \<Longrightarrow>
    wait_step st s (s\<lparr>ws_waiter := W_unlock, ws_locked := True\<rparr>)"
| unlock: "ws_waiter s = W_unlock \<Longrightarrow> wait_step st s (s\<lparr>ws_waiter := W_check, ws_locked := False\<rparr>)"
| n_lock: "ws_notifier s = N_lock \<Longrightarrow> \<not> ws_locked s \<Longrightarrow>
    wait_step st s (s\<lparr>ws_notifier := N_set, ws_locked := True\<rparr>)"
| n_set: "ws_notifier s = N_set \<Longrightarrow> wait_step st s (s\<lparr>ws_notifier := N_notify, ws_status := st\<rparr>)"
| n_notify: "ws_notifier s = N_notify \<Longrightarrow> wait_step st s (s\<lparr>ws_notifier := N_unlock,
      ws_waiter := if ws_waiter s = W_blocked then W_woken else ws_waiter s\<rparr>)"
| n_unlock: "ws_notifier s = N_unlock \<Longrightarrow> wait_step st s (s\<lparr>ws_notifier := N_done, ws_locked := False\<rparr>)"

inductive_simps wait_step_simps: "wait_step st s t"

definition wait_start :: wait_sys where
  "wait_start = \<lparr>ws_status = - 1, ws_locked = False, ws_waiter = W_check, ws_notifier = N_lock\<rparr>"

abbreviation wait_reach :: "int \<Rightarrow> wait_sys \<Rightarrow> bool" where
  "wait_reach st \<equiv> (wait_step st)\<^sup>*\<^sup>* wait_start"

text \<open>The two threads hold the lock in turn, and the status is the old one until it is set.\<close>

definition holds_lock :: "wait_pc \<Rightarrow> bool" where
  "holds_lock w \<longleftrightarrow> (case w of W_wait \<Rightarrow> True | W_unlock \<Rightarrow> True | _ \<Rightarrow> False)"

definition n_holds_lock :: "notify_pc \<Rightarrow> bool" where
  "n_holds_lock n \<longleftrightarrow> (case n of N_lock \<Rightarrow> False | N_done \<Rightarrow> False | _ \<Rightarrow> True)"

definition not_yet_set :: "notify_pc \<Rightarrow> bool" where
  "not_yet_set n \<longleftrightarrow> (case n of N_lock \<Rightarrow> True | N_set \<Rightarrow> True | _ \<Rightarrow> False)"

definition wait_inv :: "int \<Rightarrow> wait_sys \<Rightarrow> bool" where
  "wait_inv st s \<longleftrightarrow> ws_locked s = (holds_lock (ws_waiter s) \<or> n_holds_lock (ws_notifier s))
     \<and> \<not> (holds_lock (ws_waiter s) \<and> n_holds_lock (ws_notifier s))
     \<and> ws_status s = (if not_yet_set (ws_notifier s) then - 1 else st)
     \<and> (ws_waiter s = W_returned \<longrightarrow> ws_status s \<noteq> - 1)"

lemmas wait_pcs = holds_lock_def n_holds_lock_def not_yet_set_def

lemma wait_step_inv: "wait_step st s t \<Longrightarrow> wait_inv st s \<Longrightarrow> wait_inv st t"
proof (induction rule: wait_step.induct)
  case (n_notify s)
  then show ?case by (cases "ws_waiter s") (simp_all add: wait_inv_def wait_pcs)
qed (simp add: wait_inv_def wait_pcs, blast?)+

lemma wait_start_inv: "wait_inv st wait_start"
  by (simp add: wait_inv_def wait_start_def wait_pcs)

lemma wait_reach_inv: "wait_reach st s \<Longrightarrow> wait_inv st s"
  by (induction rule: rtranclp_induct) (use wait_start_inv wait_step_inv in blast)+

lemma wait_returns: "wait_reach st s \<Longrightarrow> ws_waiter s = W_returned \<Longrightarrow> ws_status s = st \<and> st \<noteq> - 1"
  using wait_reach_inv [of st s] by (simp add: wait_inv_def split: if_splits)

text \<open>The test stands outside of the lock: a status set between the test and the lock is missed.\<close>

definition wait_missed :: "int \<Rightarrow> wait_sys" where
  "wait_missed st = \<lparr>ws_status = st, ws_locked = False, ws_waiter = W_blocked, ws_notifier = N_done\<rparr>"

lemma wait_missed_reached: "wait_reach st (wait_missed st)"
proof -
  let ?s = "\<lambda>st l w n. \<lparr>ws_status = st, ws_locked = l, ws_waiter = w, ws_notifier = n\<rparr>"
  have "(wait_step st)\<^sup>*\<^sup>* (?s (- 1) False W_check N_lock) (?s (- 1) False W_lock N_lock)"
    by (rule r_into_rtranclp) (simp add: wait_step_simps)
  also have "(wait_step st)\<^sup>*\<^sup>* \<dots> (?s (- 1) True W_lock N_set)"
    by (rule r_into_rtranclp) (simp add: wait_step_simps)
  also have "(wait_step st)\<^sup>*\<^sup>* \<dots> (?s st True W_lock N_notify)"
    by (rule r_into_rtranclp) (simp add: wait_step_simps)
  also have "(wait_step st)\<^sup>*\<^sup>* \<dots> (?s st True W_lock N_unlock)"
    by (rule r_into_rtranclp) (simp add: wait_step_simps)
  also have "(wait_step st)\<^sup>*\<^sup>* \<dots> (?s st False W_lock N_done)"
    by (rule r_into_rtranclp) (simp add: wait_step_simps)
  also have "(wait_step st)\<^sup>*\<^sup>* \<dots> (?s st True W_wait N_done)"
    by (rule r_into_rtranclp) (simp add: wait_step_simps)
  also have "(wait_step st)\<^sup>*\<^sup>* \<dots> (?s st False W_blocked N_done)"
    by (rule r_into_rtranclp) (simp add: wait_step_simps)
  finally show ?thesis by (simp add: wait_start_def wait_missed_def)
qed

lemma wait_missed_stuck: "\<not> wait_step st (wait_missed c) t"
  by (simp add: wait_step_simps wait_missed_def)

end
