(* ===== verification/Server_Connect.thy ===== *)
theory Server_Connect
  imports Message_Stream Rpc_Controller Service_Pool
begin

text \<open>
  \<open>ServerConnect\<close> (\<open>rpc/rpc_server_connect.cpp\<close>): the server's end of a connection, together with
  the stream it owns. A request is looked up, parsed and called; its controller is queued and its
  response written behind room for the header. Controllers live in a store from which \<open>delete\<close>
  removes them, so that a second \<open>delete\<close> and a use after it are faults.

  The services, the protobuf library and the generated messages are parameters.
\<close>

section \<open>State\<close>

record ('svc, 'md, 'm) services =
  sv_find :: "string \<Rightarrow> bool \<times> 'svc option \<times> 'md option"
    \<comment> \<open>\<open>handlerGetServiceAndMethod\<close>\<close>
  sv_list :: "string list"
    \<comment> \<open>\<open>handlerGetServiceList\<close>\<close>
  sv_parse :: "'svc \<Rightarrow> 'md \<Rightarrow> string \<Rightarrow> 'm option \<times> nat"
    \<comment> \<open>\<open>ParseFromZeroCopyStream\<close> on the unread bytes: the message, and how many it has read\<close>
  sv_call :: "'svc \<Rightarrow> 'md \<Rightarrow> 'm \<Rightarrow> 'm controller \<Rightarrow> 'm \<times> 'm controller"
    \<comment> \<open>\<open>CallMethod\<close>: the response, and the controller as the service leaves it\<close>
  sv_serialize :: "'m \<Rightarrow> string option"
    \<comment> \<open>the bytes of a message, \<open>None\<close> if it cannot be serialised\<close>

record 'm server_connect = http_stream +
  sc_pending :: "nat list"
  sc_ctls :: "nat \<Rightarrow> 'm controller option"
  sc_next :: nat
  sc_deleted :: bool

definition HTTP_MAX_REQUEST_PENDING :: nat where
  "HTTP_MAX_REQUEST_PENDING = 5"

definition ctl_at :: "nat \<Rightarrow> ('m, 'a) server_connect_scheme \<Rightarrow> 'm controller outcome" where
  "ctl_at a s = (case sc_ctls s a of None \<Rightarrow> Fault | Some c \<Rightarrow> Done c)"

definition ctl_new :: "'m controller \<Rightarrow> ('m, 'a) server_connect_scheme \<Rightarrow> nat \<times> ('m, 'a) server_connect_scheme" where
  "ctl_new c s = (sc_next s, s\<lparr>sc_ctls := (sc_ctls s)(sc_next s \<mapsto> c), sc_next := Suc (sc_next s)\<rparr>)"

definition ctl_put :: "nat \<Rightarrow> 'm controller \<Rightarrow> ('m, 'a) server_connect_scheme \<Rightarrow> ('m, 'a) server_connect_scheme" where
  "ctl_put a c s = s\<lparr>sc_ctls := (sc_ctls s)(a \<mapsto> c)\<rparr>"

definition ctl_delete :: "nat \<Rightarrow> ('m, 'a) server_connect_scheme \<Rightarrow> ('m, 'a) server_connect_scheme outcome" where
  "ctl_delete a s = bind_outcome (ctl_at a s) (\<lambda>_. Done (s\<lparr>sc_ctls := (sc_ctls s)(a := None)\<rparr>))"

definition blank_controller :: "'m controller" where
  "blank_controller = \<lparr>ct_seq = 0, ct_msg = [], ct_body = [], ct_status = - 1, ct_req_send_size = 0,
     ct_req_pack_size = 0, ct_res_send_size = 0, ct_res_pack_size = 0, ct_request = None, ct_response = None\<rparr>"

section \<open>Operations\<close>

text \<open>\<open>SerializeHeader(packetStart)\<close> of the response header into the write buffer; the result is ignored.\<close>

definition write_header :: "iter \<Rightarrow> ('m, 'a) server_connect_scheme \<Rightarrow> ('m, 'a) server_connect_scheme outcome" where
  "write_header packetStart s =
     bind_outcome (put_header (HttpReponse_lines (st_resheader s)) packetStart (ss_writebuf s))
       (\<lambda>b. Done (s\<lparr>ss_writebuf := b\<rparr>))"

definition ServerConnect_OnMessageError :: "ErrorCode \<Rightarrow> ('m, 'a) server_connect_scheme \<Rightarrow>
    ('m, 'a) server_connect_scheme outcome" where
  "ServerConnect_OnMessageError c s =
     bind_outcome (case sc_pending s of [] \<Rightarrow> Done 0 | a # _ \<Rightarrow> bind_outcome (ctl_at a s) (\<lambda>c. Done (ct_seq c)))
       (\<lambda>seq.
         let packetStart = writepos (ss_writebuf s);
             (_, b) = AlignWritePos (ss_writebuf s);
             h = SetContentLength 0 (SetStatus (word_of_int (error_number c)) (ErrorString (error_number c))
                   (SetSeq seq (HttpReponseHeader_Reset (st_resheader s))))
         in bind_outcome (write_header packetStart (s\<lparr>ss_writebuf := b, st_resheader := h\<rparr>)) (\<lambda>s.
              Done ((ModEventAsync True True s)\<lparr>ss_close_when_empty := True\<rparr>)))"

text \<open>
  \<open>SendMessage\<close>. \<open>response\<close> is \<open>None\<close> for the text answers, which have no request either.
  A failed \<open>SerializeToZeroCopyStream\<close> leaves bytes behind the restored write position; the model
  keeps the bytes that were there.
\<close>

definition send_failed :: "ErrorCode \<Rightarrow> nat \<Rightarrow> ('m, 'a) server_connect_scheme \<Rightarrow>
    ('m, 'a) server_connect_scheme outcome" where
  "send_failed c a s = bind_outcome (ServerConnect_OnMessageError c s) (ctl_delete a)"

definition SendMessage :: "('svc, 'md, 'm) services \<Rightarrow> (nat \<Rightarrow> int \<Rightarrow> int) \<Rightarrow> nat \<Rightarrow> nat \<Rightarrow> 'm option \<Rightarrow>
    ('m, 'a) server_connect_scheme \<Rightarrow> ('m, 'a) server_connect_scheme outcome" where
  "SendMessage sv addr dbs a response s =
     (if sc_pending s \<noteq> [] then Done (ModEventAsync True True (s\<lparr>sc_pending := sc_pending s @ [a]\<rparr>))
      else if HTTP_MAX_REQUEST_PENDING < length (sc_pending s) then ServerConnect_OnMessageError HTTP_REQUEST_OVERFLOW s
      else bind_outcome (ctl_at a s) (\<lambda>cntl.
        let s = s\<lparr>sc_pending := sc_pending s @ [a]\<rparr>;
            h = SetStatus 200 ''OK'' (SetSeq (ct_seq cntl) (HttpReponseHeader_Reset (st_resheader s)))
        in case response of
          Some m \<Rightarrow>
            (case begin_packet dbs (ss_writebuf s) of
               (b, None) \<Rightarrow> send_failed SERVER_WRIEBUFFER_FULL a (s\<lparr>ss_writebuf := b, st_resheader := h\<rparr>)
             | (b, Some (packetStart, bodyStart)) \<Rightarrow>
                 (case Option.bind (sv_serialize sv m) (\<lambda>d. zero_copy_write (length d) b d) of
                    None \<Rightarrow> send_failed SERVER_RES_SERIA_FAILED a
                      (s\<lparr>ss_writebuf := b\<lparr>writepos := packetStart\<rparr>, st_resheader := h\<rparr>)
                  | Some b \<Rightarrow>
                      let h = SetHeader ''Content-Type'' '' application/x-protobuf''
                                (SetContentLength (packet_length b bodyStart) h)
                      in bind_outcome (write_header packetStart (s\<lparr>ss_writebuf := b, st_resheader := h\<rparr>)) (\<lambda>s.
                           Done (ModEventAsync True True
                             (ctl_put a (cntl\<lparr>ct_res_pack_size := packet_length (ss_writebuf s) packetStart\<rparr>) s)))))
        | None \<Rightarrow>
            let n = length (ct_body cntl);
                h = SetContentLength (word_of_nat n) (SetHeader ''Connection'' '' keep-alive''
                      (SetHeader ''Content-Type'' '' text/plain'' (SetHeader ''Server'' '' MTRpc 1.0.0''
                        (h\<lparr>h_body_size := int n\<rparr>))));
                (ok, b) = Reserve (Reset dbs (ss_writebuf s)) MAX_HEADER_SIZE;
                s = s\<lparr>ss_writebuf := b, st_resheader := h\<rparr>
            in if \<not> ok then send_failed SERVER_WRIEBUFFER_FULL a s
               else let packetStart = writepos b; (_, b) = AlignWritePos b in
                 bind_outcome (bind_outcome (ended (SerializeBody addr (ct_body cntl) (que b) (writepos b))) (\<lambda>r. r))
                   (\<lambda>(q, w). bind_outcome (write_header packetStart (s\<lparr>ss_writebuf := b\<lparr>que := q, writepos := w\<rparr>\<rparr>))
                     (\<lambda>s. Done (ModEventAsync True True s)))))"

text \<open>The text answer to a request without a path.\<close>

definition ServerConnect_OnListServer :: "('svc, 'md, 'm) services \<Rightarrow> (nat \<Rightarrow> int \<Rightarrow> int) \<Rightarrow> nat \<Rightarrow>
    ('m, 'a) server_connect_scheme \<Rightarrow> ('m, 'a) server_connect_scheme outcome" where
  "ServerConnect_OnListServer sv addr dbs s =
     (let body = (if length (sv_list sv) = 0 then ''No Serves find'' @ CRLF else concat (sv_list sv));
          c = server_SetStatus (error_number OK) (blank_controller\<lparr>ct_seq := GetSeq (st_reqheader s)\<rparr>);
          (a, s) = ctl_new (c\<lparr>ct_body := body\<rparr>) s
      in SendMessage sv addr dbs a None s)"

text \<open>\<open>ParseFromZeroCopyStream\<close>: the message, and the stream with the bytes taken off.\<close>

definition parse_body :: "(string \<Rightarrow> 'm option \<times> nat) \<Rightarrow> ('m, 'a) server_connect_scheme \<Rightarrow>
    ('m option \<times> ('m, 'a) server_connect_scheme) outcome" where
  "parse_body p s =
     (let b = ReadBuffer_BeginPacket (ss_readbuf s); (m, n) = p (content b) in
      bind_outcome (ended (zero_copy_read n b n)) (\<lambda>(_, b). Done (m, s\<lparr>ss_readbuf := b\<rparr>)))"

definition ServerConnect_OnMessageRecived :: "('svc, 'md, 'm) services \<Rightarrow> (nat \<Rightarrow> int \<Rightarrow> int) \<Rightarrow> nat \<Rightarrow> int \<Rightarrow>
    ('m, 'a) server_connect_scheme \<Rightarrow> ('m, 'a) server_connect_scheme outcome" where
  "ServerConnect_OnMessageRecived sv addr dbs n s =
     (if length (rq_path (st_reqheader s)) \<le> 1 then ServerConnect_OnListServer sv addr dbs s
      else let name = drop 1 (rq_path (st_reqheader s)) in
      if length name = 0 then ServerConnect_OnMessageError HTTP_SERVER_NOTFOUND s
      else case sv_find sv name of
        (True, Some svc, Some md) \<Rightarrow>
          bind_outcome (parse_body (sv_parse sv svc md) s) (\<lambda>(req, s).
            case req of
              None \<Rightarrow> ServerConnect_OnMessageError SERVER_REQ_PARSER_FAILED s
            | Some m \<Rightarrow>
                let c = server_SetStatus (error_number OK)
                          (blank_controller\<lparr>ct_seq := GetSeq (st_reqheader s), ct_request := Some m\<rparr>);
                    (res, c) = sv_call sv svc md m c;
                    (a, s) = ctl_new (c\<lparr>ct_response := Some res\<rparr>) s
                in if Failed c then bind_outcome (ctl_delete a s) (ServerConnect_OnMessageError SERVER_REQ_PARSER_FAILED)
                   else SendMessage sv addr dbs a (Some res) s)
      | _ \<Rightarrow> ServerConnect_OnMessageError HTTP_METHOD_NOTFOUND s)"

definition ServerConnect_OnMessageSended :: "('svc, 'md, 'm) services \<Rightarrow> (nat \<Rightarrow> int \<Rightarrow> int) \<Rightarrow> nat \<Rightarrow> int \<Rightarrow>
    ('m, 'a) server_connect_scheme \<Rightarrow> ('m, 'a) server_connect_scheme outcome" where
  "ServerConnect_OnMessageSended sv addr dbs n s =
     (case sc_pending s of
        [] \<Rightarrow> Done (ModEventAsync True False s)
      | a # rest \<Rightarrow>
          if ss_close_when_empty s then Done s
          else bind_outcome (ctl_at a s) (\<lambda>c.
            let c = c\<lparr>ct_res_send_size := ct_res_send_size c + word_of_int n\<rparr>; s = ctl_put a c s in
            if ct_res_send_size c < ct_res_pack_size c then Done s
            else bind_outcome (ctl_delete a s) (\<lambda>s.
              let s = s\<lparr>sc_pending := rest\<rparr> in
              case rest of
                [] \<Rightarrow> Done (ModEventAsync True False s)
              | b # _ \<Rightarrow> bind_outcome (ctl_at b s) (\<lambda>c.
                  SendMessage sv addr dbs b (if ct_request c = None then None else ct_response c) s))))"

fun delete_pending :: "nat list \<Rightarrow> ('m, 'a) server_connect_scheme \<Rightarrow> ('m, 'a) server_connect_scheme outcome" where
  "delete_pending [] s = Done (s\<lparr>sc_pending := []\<rparr>)"
| "delete_pending (a # as) s = bind_outcome (ctl_delete a (s\<lparr>sc_pending := as\<rparr>)) (delete_pending as)"

definition ServerConnect_OnClose :: "('m, 'a) server_connect_scheme \<Rightarrow> ('m, 'a) server_connect_scheme outcome" where
  "ServerConnect_OnClose s =
     bind_outcome (delete_pending (sc_pending s) s) (\<lambda>s.
     bind_outcome (ss_ReleaseRef s) (\<lambda>s. Done (s\<lparr>sc_deleted := True\<rparr>)))"

text \<open>The closures that \<open>Start\<close> sets.\<close>

definition server_hooks :: "('svc, 'md, 'm) services \<Rightarrow> (nat \<Rightarrow> int \<Rightarrow> int) \<Rightarrow> nat \<Rightarrow>
    ('m server_connect \<Rightarrow> string \<times> string) \<Rightarrow> 'm server_connect hooks" where
  "server_hooks sv addr dbs names =
     \<lparr>hk_connected = None, hk_readable = None, hk_writeable = None, hk_close = Some ServerConnect_OnClose,
      hk_readTimeOut = None, hk_writeTimeOut = None, hk_messageError = Some ServerConnect_OnMessageError,
      hk_messageRecived = Some (ServerConnect_OnMessageRecived sv addr dbs),
      hk_messageSended = Some (ServerConnect_OnMessageSended sv addr dbs), hk_getnames = names\<rparr>"

definition server_event :: "('svc, 'md, 'm) services \<Rightarrow> (nat \<Rightarrow> int \<Rightarrow> int) \<Rightarrow> nat \<Rightarrow>
    ('m server_connect \<Rightarrow> string \<times> string) \<Rightarrow> 32 word \<Rightarrow> 'm server_connect \<Rightarrow> 'm server_connect outcome" where
  "server_event sv addr dbs names =
     OnEvent (server_hooks sv addr dbs names) (MessageStream_methods (server_hooks sv addr dbs names) dbs)"

text \<open>The constructor and \<open>Start\<close>; the headers of the stream are built by their own constructors.\<close>

definition ServerConnect_Start :: "nat \<Rightarrow> nat \<Rightarrow> http_request \<Rightarrow> http_response \<Rightarrow> 'm server_connect" where
  "ServerConnect_Start pieces dbs rq rs =
     AddEventASync True False
       \<lparr>ss_readbuf = new_read_buffer pieces dbs, ss_writebuf = new_write_buffer pieces dbs,
        ss_isConnected = False, ss_isClosed = False, ss_close_when_empty = False, ss_local = [], ss_peer = [],
        ss_refs = 1, ss_posted = [], ss_in = [], ss_out = [], ss_sent = [],
        st_reqheader = new_request rq, st_resheader = new_response rs,
        sc_pending = [], sc_ctls = Map.empty, sc_next = 0, sc_deleted = False\<rparr>"

section \<open>The header of an answer\<close>

definition server_header :: "http_response \<Rightarrow> http_response" where
  "server_header r = SetHeader ''Content-Type'' '' application/x-protobuf'' (SetStatus 200 ''OK'' (HttpReponseHeader_Reset r))"

lemma server_headers:
  "h_headers (SetContentLength n (SetSeq s (server_header r))) =
     [(Content_Length_key, dec_str (unat n)), (''Content-Type'', '' application/x-protobuf''), (Seq_key, dec_str (unat s))]"
  by (simp add: SetContentLength_def SetSeq_def server_header_def SetHeader_def SetStatus_def HttpReponseHeader_Reset_def
     HttpHeader_Reset_def Content_Length_key_def Seq_key_def less_char_def)

lemma server_header_order:
  "SetHeader ''Content-Type'' '' application/x-protobuf'' (SetContentLength n (SetStatus 200 ''OK'' (SetSeq s (HttpReponseHeader_Reset r)))) =
   SetContentLength n (SetSeq s (server_header r))"
  by (simp add: SetContentLength_def SetSeq_def server_header_def SetHeader_def SetStatus_def HttpReponseHeader_Reset_def
     HttpHeader_Reset_def Content_Length_key_def Seq_key_def less_char_def)

lemma server_header_ok: "response_ok (server_header r)"
  by (simp add: response_ok_def plain_def value_ok_def strip_def header_ok_def smap_ok_def server_header_def SetHeader_def SetStatus_def HttpReponseHeader_Reset_def HttpHeader_Reset_def MAX_KEY_LEN_def)

lemma server_header_length:
  "length (concat (HttpReponse_lines (SetContentLength n (SetSeq s (server_header r))))) < MAX_HEADER_SIZE"
proof -
  let ?cut = "takeWhile (\<lambda>c. c \<noteq> NUL)"
  have n: "length (dec_str (unat n)) \<le> 10" by (rule length_dec_str) (use unsigned_less [of n, where ?'a = nat] in simp_all)
  have s: "length (dec_str (unat s)) \<le> 20" by (rule length_dec_str) (use unsigned_less [of s, where ?'a = nat] in simp_all)
  have d: "length (dec_str 200) \<le> 10" by (rule length_dec_str) simp_all
  have f: "h_version (SetContentLength n (SetSeq s (server_header r))) = ''HTTP/1.1''"
    "rs_status (SetContentLength n (SetSeq s (server_header r))) = 200"
    "rs_status_msg (SetContentLength n (SetSeq s (server_header r))) = ''OK''"
    by (simp_all add: SetContentLength_def SetSeq_def server_header_def SetHeader_def SetStatus_def HttpReponseHeader_Reset_def HttpHeader_Reset_def)
  have cut: "length (?cut xs) \<le> length xs" for xs by (rule List.length_takeWhile_le)
  have "length (?cut (dec_str (unat n))) \<le> 10" using cut [of "dec_str (unat n)"] n by linarith
  moreover have "length (?cut (dec_str (unat s))) \<le> 20" using cut [of "dec_str (unat s)"] s by linarith
  ultimately show ?thesis using d
    by (simp add: HttpReponse_lines_def header_lines_def server_headers f cstr_simps dec_str_no_NUL MAX_HEADER_SIZE_def)
      (simp add: Content_Length_key_def Seq_key_def c_str_def)
qed

section \<open>What the handlers leave alone\<close>

definition sc_frame :: "('m, 'a) server_connect_scheme \<Rightarrow> ('m, 'a) server_connect_scheme \<Rightarrow> bool" where
  "sc_frame s t \<longleftrightarrow> ss_isClosed t = ss_isClosed s \<and> dels t = dels s \<and> ss_readbuf t = ss_readbuf s
     \<and> ss_refs t = ss_refs s"

lemma dels_upd [simp]:
  "dels (s\<lparr>ss_readbuf := a\<rparr>) = dels s" "dels (s\<lparr>ss_writebuf := b\<rparr>) = dels s" "dels (s\<lparr>st_resheader := h\<rparr>) = dels s"
  by (simp_all add: dels_def)

lemma sc_frame_refl [simp]: "sc_frame s s"
  by (simp add: sc_frame_def)

lemma write_header_frame: "write_header p s = Done t \<Longrightarrow> \<exists>b. t = s\<lparr>ss_writebuf := b\<rparr>"
  by (auto simp: write_header_def bind_outcome_Done_iff)

lemma ctl_delete_Done:
  "ctl_delete a s = Done t \<longleftrightarrow> a \<in> dom (sc_ctls s) \<and> t = s\<lparr>sc_ctls := (sc_ctls s)(a := None)\<rparr>"
  by (auto simp: ctl_delete_def ctl_at_def bind_outcome_Done_iff split: option.splits)

lemma OnMessageError_frame:
  "ServerConnect_OnMessageError c s = Done t \<Longrightarrow> sc_frame s t \<and> ss_close_when_empty t
     \<and> sc_pending t = sc_pending s \<and> sc_ctls t = sc_ctls s \<and> sc_next t = sc_next s"
  by (auto simp: ServerConnect_OnMessageError_def bind_outcome_Done_iff Let_def split_beta sc_frame_def
      post_task_def dels_def dest!: write_header_frame)

lemma send_failed_frame:
  "send_failed c a s = Done t \<Longrightarrow> sc_frame s t \<and> ss_close_when_empty t"
  by (auto simp: send_failed_def bind_outcome_Done_iff ctl_delete_Done sc_frame_def dels_def dest!: OnMessageError_frame)

definition sent_frame :: "nat \<Rightarrow> ('m, 'a) server_connect_scheme \<Rightarrow> ('m, 'a) server_connect_scheme \<Rightarrow> bool" where
  "sent_frame a s t \<longleftrightarrow> sc_frame s t \<and> (ss_close_when_empty t \<or> ss_close_when_empty t = ss_close_when_empty s
     \<and> sc_next t = sc_next s \<and> sc_pending t = sc_pending s @ [a] \<and> dom (sc_ctls t) = dom (sc_ctls s)
     \<and> (sc_pending s = [] \<longrightarrow> a \<in> dom (sc_ctls s)))"

lemma SendMessage_frame: "ends_in (sent_frame a s) (SendMessage sv addr dbs a m s)"
proof (cases "sc_pending s")
  case (Cons x xs)
  then show ?thesis
    by (auto simp: SendMessage_def sent_frame_def ends_in_def sc_frame_def post_task_def dels_def)
next
  case Nil
  have err: "sc_frame s u \<Longrightarrow> ends_in (sent_frame a s) (send_failed c a u)" for c u
    by (auto simp: ends_in_def sent_frame_def sc_frame_def dest!: send_failed_frame)
  show ?thesis
    unfolding SendMessage_def Let_def
    by (auto simp: Nil write_header_def ctl_at_def ctl_put_def sent_frame_def sc_frame_def post_task_def dels_def
        intro!: err ends_in_intros split: option.splits prod.splits)
qed

lemma OnListServer_frame: "ends_in (\<lambda>t. sc_frame s t) (ServerConnect_OnListServer sv addr dbs s)"
proof -
  have *: "ends_in (\<lambda>t. sc_frame s t) (SendMessage sv addr dbs a m u)" if "sc_frame s u" for a m u
    by (rule ends_in_mono [OF SendMessage_frame]) (use that in \<open>simp add: sent_frame_def sc_frame_def\<close>)
  show ?thesis unfolding ServerConnect_OnListServer_def Let_def ctl_new_def prod.case
    by (rule *) (simp add: sc_frame_def dels_def)
qed

lemma parse_body_reads:
  assumes "receiving dbs (ss_readbuf s)" "parse_body p s = Done (m, t)"
  shows "\<exists>b. t = s\<lparr>ss_readbuf := b\<rparr> \<and> receiving dbs b \<and> content b = drop (snd (p (content (ss_readbuf s)))) (content (ss_readbuf s))
    \<and> que b = que (ss_readbuf s) \<and> writepos b = writepos (ss_readbuf s) \<and> m = fst (p (content (ss_readbuf s)))"
proof -
  let ?b = "ReadBuffer_BeginPacket (ss_readbuf s)"
  have B: "content ?b = content (ss_readbuf s)" "que ?b = que (ss_readbuf s)" "writepos ?b = writepos (ss_readbuf s)"
    "wf_buf ?b" "uniform dbs (que ?b)" "total (que (ss_readbuf s)) < 2 ^ 31"
    using assms(1) by (simp_all add: ReadBuffer_BeginPacket_def content_def receiving_def wf_buf_def)
  obtain k n where p: "p (content (ss_readbuf s)) = (k, n)" by (cases "p (content (ss_readbuf s))")
  from zero_copy_read_takes [OF B(4,5) order_refl, of n] obtain c where
    c: "zero_copy_read n ?b n = Some (take n (content ?b), c)" "wf_buf c" "content c = drop n (content ?b)" "que c = que ?b" "writepos c = writepos ?b"
    by blast
  have "t = s\<lparr>ss_readbuf := c\<rparr>" "m = k" using assms(2) c(1) p B(1) by (auto simp: parse_body_def Let_def)
  then show ?thesis using c B p by (auto simp: receiving_def)
qed

text \<open>The controllers: what is queued is alive and nothing else is, unless an error has marked the
  connection to be closed.\<close>

definition ctl_inv :: "('m, 'a) server_connect_scheme \<Rightarrow> bool" where
  "ctl_inv s \<longleftrightarrow> distinct (sc_pending s) \<and> dom (sc_ctls s) = set (sc_pending s) \<and> (\<forall>a \<in> set (sc_pending s). a < sc_next s)"

definition received_frame :: "nat \<Rightarrow> ('m, 'a) server_connect_scheme \<Rightarrow> ('m, 'a) server_connect_scheme \<Rightarrow> bool" where
  "received_frame dbs s t \<longleftrightarrow> ss_isClosed t = ss_isClosed s \<and> dels t = dels s \<and> ss_refs t = ss_refs s
     \<and> receiving dbs (ss_readbuf t) \<and> length (content (ss_readbuf t)) \<le> length (content (ss_readbuf s))
     \<and> (ctl_inv s \<and> \<not> ss_close_when_empty t \<longrightarrow> ctl_inv t \<and> sc_pending t = sc_pending s @ [sc_next s])"

lemma ctl_inv_add:
  "ctl_inv s \<Longrightarrow> sc_pending t = sc_pending s @ [sc_next s] \<Longrightarrow> dom (sc_ctls t) = insert (sc_next s) (dom (sc_ctls s)) \<Longrightarrow>
    sc_next t = Suc (sc_next s) \<Longrightarrow> ctl_inv t"
  unfolding ctl_inv_def by (metis Un_insert_right distinct_append distinct_singleton disjoint_insert(1) empty_set
    inf_bot_right less_SucI less_irrefl list.simps(15) set_append sup_bot.right_neutral insert_iff less_Suc_eq)

lemma new_sent:
  assumes "receiving dbs (ss_readbuf s)"
  shows "ends_in (received_frame dbs s) (SendMessage sv addr dbs (sc_next s) m
    (s\<lparr>sc_ctls := (sc_ctls s)(sc_next s \<mapsto> c), sc_next := Suc (sc_next s)\<rparr>))"
  by (rule ends_in_mono [OF SendMessage_frame])
    (use assms in \<open>simp add: sent_frame_def received_frame_def sc_frame_def dels_def; blast intro: ctl_inv_add\<close>)

lemma error_received:
  "receiving dbs (ss_readbuf s) \<Longrightarrow> sc_frame s u \<Longrightarrow> ends_in (received_frame dbs s) (ServerConnect_OnMessageError c u)"
  by (auto simp: ends_in_def received_frame_def sc_frame_def dest!: OnMessageError_frame)

lemma received_frame_from:
  assumes "receiving dbs b" "length (content b) \<le> length (content (ss_readbuf s))"
    and "received_frame dbs (s\<lparr>ss_readbuf := b\<rparr>) t"
  shows "received_frame dbs s t"
  using assms by (auto simp: received_frame_def ctl_inv_def)

lemma OnMessageRecived_frame:
  assumes r: "receiving dbs (ss_readbuf s)"
  shows "ends_in (received_frame dbs s) (ServerConnect_OnMessageRecived sv addr dbs n s)"
proof -
  have list: "ends_in (received_frame dbs s) (ServerConnect_OnListServer sv addr dbs s)"
    unfolding ServerConnect_OnListServer_def Let_def ctl_new_def prod.case by (rule new_sent [OF r])
  have call: "ends_in (received_frame dbs s) (bind_outcome (parse_body p s) f)"
    if "\<And>m b. receiving dbs b \<Longrightarrow> ends_in (received_frame dbs (s\<lparr>ss_readbuf := b\<rparr>)) (f (m, s\<lparr>ss_readbuf := b\<rparr>))"
    for p and f :: "'a option \<times> ('a, 'b) server_connect_scheme \<Rightarrow> ('a, 'b) server_connect_scheme outcome"
  proof (rule ends_in_intros(4))
    fix x assume "parse_body p s = Done x"
    moreover obtain m u where x: "x = (m, u)" by (cases x)
    ultimately obtain b where b: "u = s\<lparr>ss_readbuf := b\<rparr>" "receiving dbs b"
      "length (content b) \<le> length (content (ss_readbuf s))"
      using parse_body_reads [OF r, of p m u] by auto
    show "ends_in (received_frame dbs s) (f x)"
      using that [OF b(2), of m] received_frame_from [OF b(2,3)] x b(1) by (auto simp: ends_in_def)
  qed
  have answer: "ends_in (received_frame dbs u) (bind_outcome (ctl_delete a v) (ServerConnect_OnMessageError e))"
      "ends_in (received_frame dbs u) (SendMessage sv addr dbs a m v)"
    if "receiving dbs (ss_readbuf u)" "ctl_new c u = (a, v)"
    for u v :: "('a, 'b) server_connect_scheme" and a c m e
    using new_sent [OF that(1)] error_received [OF that(1)] that(2)
    by (auto simp: ctl_new_def ctl_delete_Done sc_frame_def dels_def intro!: ends_in_intros)
  show ?thesis
    unfolding ServerConnect_OnMessageRecived_def
    by (auto split: option.splits bool.splits prod.splits simp: Let_def
      intro!: list error_received r call) (rule answer, simp, assumption)+
qed

lemma OnMessageSended_frame:
  "ends_in (sc_frame s) (ServerConnect_OnMessageSended sv addr dbs n s)"
proof -
  have *: "sc_frame s u \<Longrightarrow> ends_in (sc_frame s) (SendMessage sv addr dbs a m u)" for a m u
    by (rule ends_in_mono [OF SendMessage_frame]) (simp add: sent_frame_def sc_frame_def)
  show ?thesis
    unfolding ServerConnect_OnMessageSended_def Let_def
    by (auto split: list.splits simp: ctl_delete_Done ctl_put_def sc_frame_def post_task_def dels_def intro!: ends_in_intros *)
qed

lemma OnMessageSended_inv:
  assumes "ctl_inv s" "sc_pending s = [a]"
  shows "ends_in ctl_inv (ServerConnect_OnMessageSended sv addr dbs n s)"
  unfolding ServerConnect_OnMessageSended_def Let_def
  using assms by (auto simp: ctl_delete_Done ctl_put_def ctl_inv_def post_task_def ctl_at_def intro!: ends_in_intros split: option.splits)

lemma delete_pending_Done:
  "distinct as \<Longrightarrow> set as \<subseteq> dom (sc_ctls s) \<Longrightarrow>
    delete_pending as s = Done (s\<lparr>sc_pending := [], sc_ctls := (sc_ctls s) |` (- set as)\<rparr>)"
proof (induction as arbitrary: s)
  case (Cons a as)
  then have "ctl_delete a (s\<lparr>sc_pending := as\<rparr>) = Done (s\<lparr>sc_pending := as, sc_ctls := (sc_ctls s)(a := None)\<rparr>)"
    by (simp add: ctl_delete_Done)
  moreover have "set as \<subseteq> dom ((sc_ctls s)(a := None))" using Cons.prems by auto
  moreover have "((sc_ctls s)(a := None)) |` (- set as) = (sc_ctls s) |` (- set (a # as))"
    by (auto simp: restrict_map_def)
  ultimately show ?case using Cons by simp
qed (simp add: restrict_map_def)

lemma delete_pending_frame:
  "ends_in (\<lambda>t. ss_isClosed t = ss_isClosed s \<and> dels t = dels s \<and> set as \<subseteq> dom (sc_ctls s) \<and> distinct as) (delete_pending as s)"
proof (induction as arbitrary: s)
  case (Cons a as)
  show ?case unfolding delete_pending.simps
  proof (rule ends_in_intros(4))
    fix x assume "ctl_delete a (s\<lparr>sc_pending := as\<rparr>) = Done x"
    then have x: "a \<in> dom (sc_ctls s)" "x = s\<lparr>sc_pending := as, sc_ctls := (sc_ctls s)(a := None)\<rparr>"
      by (simp_all add: ctl_delete_Done)
    have d: "set as \<subseteq> dom (sc_ctls x) \<Longrightarrow> set (a # as) \<subseteq> dom (sc_ctls s) \<and> a \<notin> set as"
      unfolding x(2) using x(1) by (simp add: subset_Diff_insert)
    have x': "ss_isClosed x = ss_isClosed s" "dels x = dels s" unfolding x(2) by (simp_all add: dels_def)
    show "ends_in (\<lambda>t. ss_isClosed t = ss_isClosed s \<and> dels t = dels s \<and> set (a # as) \<subseteq> dom (sc_ctls s) \<and> distinct (a # as)) (delete_pending as x)"
      by (rule ends_in_mono [OF Cons.IH]) (use d x' in simp)
  qed
qed (auto simp: ends_in_def dels_def)

theorem OnClose_frees:
  assumes "ctl_inv s" "ss_refs s \<noteq> 1"
  shows "\<exists>t. ServerConnect_OnClose s = Done t \<and> sc_ctls t = Map.empty \<and> sc_deleted t \<and> ss_refs t = ss_refs s - 1"
proof -
  have "sc_ctls s |` (- set (sc_pending s)) = Map.empty"
    using assms(1) by (auto simp: ctl_inv_def restrict_map_def fun_eq_iff)
  then show ?thesis using assms delete_pending_Done [of "sc_pending s" s]
    by (simp add: ServerConnect_OnClose_def ctl_inv_def ss_ReleaseRef_def)
qed

lemma OnClose_double:
  "\<not> distinct (sc_pending s) \<or> \<not> set (sc_pending s) \<subseteq> dom (sc_ctls s) \<Longrightarrow> ServerConnect_OnClose s = Fault"
  using delete_pending_frame [of s "sc_pending s"]
  by (cases "delete_pending (sc_pending s) s") (auto simp: ServerConnect_OnClose_def ends_in_def)

lemma sc_frame_quiet: "sc_frame s t \<Longrightarrow> quiet s t"
  by (simp add: sc_frame_def quiet_def)

lemma SendMessage_quiet: "quiet s u \<Longrightarrow> ends_in (quiet s) (SendMessage sv addr dbs a m u)"
  by (rule ends_in_mono [OF SendMessage_frame]) (simp add: sent_frame_def sc_frame_def quiet_def)

lemma OnMessageError_quiet: "quiet s u \<Longrightarrow> ends_in (quiet s) (ServerConnect_OnMessageError c u)"
  by (auto simp: ends_in_def sc_frame_def quiet_def dest!: OnMessageError_frame)

lemma OnMessageRecived_quiet: "ends_in (quiet s) (ServerConnect_OnMessageRecived sv addr dbs n s)"
proof -
  have q: "quiet s (s\<lparr>ss_readbuf := b\<rparr>)" "quiet s (s\<lparr>sc_ctls := m, sc_next := k\<rparr>)"
    "quiet s (s\<lparr>ss_readbuf := b, sc_ctls := m, sc_next := k\<rparr>)" "quiet s s" for b m k
    by (simp_all add: quiet_def dels_def)
  show ?thesis
    unfolding ServerConnect_OnMessageRecived_def ServerConnect_OnListServer_def parse_body_def
    by (auto simp: Let_def ctl_new_def ctl_delete_Done q split: option.splits bool.splits prod.splits
        intro!: ends_in_intros SendMessage_quiet OnMessageError_quiet) (simp_all add: quiet_def dels_def)
qed

lemma OnClose_once: "once ServerConnect_OnClose"
proof (rule quiet_once(1))
  fix s :: "('a, 'b) server_connect_scheme"
  show "ends_in (quiet s) (ServerConnect_OnClose s)"
    using delete_pending_frame [of s "sc_pending s"]
    by (auto simp: ServerConnect_OnClose_def ends_in_def bind_outcome_Done_iff ss_ReleaseRef_def dels_def quiet_def split: if_splits)
qed

lemma handlers_once:
  "once (ServerConnect_OnMessageError c)" "once (ServerConnect_OnMessageSended sv addr dbs n)"
  "once (ServerConnect_OnMessageRecived sv addr dbs n)"
  by (rule quiet_once(1); rule OnMessageError_quiet OnMessageRecived_quiet
      ends_in_mono [OF OnMessageSended_frame sc_frame_quiet]; simp add: quiet_def)+


section \<open>The server connection as a stream and as a handler of messages\<close>

interpretation server_stream: message_class "server_hooks sv addr dbs names" dbs for sv addr dbs names
  by unfold_locales (auto simp: server_hooks_def intro: handlers_once OnClose_once)

interpretation server_handler: packet_handler dbs "ServerConnect_OnMessageRecived sv addr dbs" for sv addr dbs
  by unfold_locales (drule (1) ends_inD [OF OnMessageRecived_frame], simp add: received_frame_def)

section \<open>Answers\<close>

text \<open>The controller that a request gets, before the service is called.\<close>

definition fresh_call :: "64 word \<Rightarrow> 'm \<Rightarrow> 'm controller" where
  "fresh_call seq m = server_SetStatus (error_number OK) (blank_controller\<lparr>ct_seq := seq, ct_request := Some m\<rparr>)"

lemma SendMessage_writes:
  assumes "sc_pending s = []" "sc_ctls s a = Some c" and b: "idle dbs (ss_writebuf s)"
    "it_pos (writepos (ss_writebuf s)) + MAX_HEADER_SIZE \<le> dbs" "dbs < 2 ^ 31"
    and m: "sv_serialize sv m = Some body" "length body + dbs < length (que (ss_writebuf s)) * dbs"
  defines "h \<equiv> SetContentLength (word_of_nat (length body)) (SetSeq (ct_seq c) (server_header (st_resheader s)))"
  shows "\<exists>b n. SendMessage sv addr dbs a (Some m) s = Done (ModEventAsync True True
      (s\<lparr>sc_pending := [a], st_resheader := h, ss_writebuf := b,
         sc_ctls := (sc_ctls s)(a \<mapsto> c\<lparr>ct_res_pack_size := n\<rparr>)\<rparr>))
    \<and> wf_buf b \<and> content b = concat (HttpReponse_lines h) @ body
    \<and> n = word_of_nat (length (concat (HttpReponse_lines h) @ body))
    \<and> list_all (\<lambda>p. length (pbuf p) = dbs) (que b)"
proof -
  let ?ts = "HttpReponse_lines h" and ?w = "writepos (ss_writebuf s)"
  have ts: "?ts \<noteq> []" "concat ?ts \<noteq> []" "length (concat ?ts) < MAX_HEADER_SIZE"
    unfolding h_def using server_header_length by (auto simp: HttpReponse_lines_def header_lines_def)
  obtain b1 bs b2 b3 where p: "begin_packet dbs (ss_writebuf s) = (b1, Some (?w, bs))"
    "zero_copy_write (length body) b1 body = Some b2" "it_diff (que b2) (writepos b2) bs = int (length body)"
    "put_header ?ts ?w b2 = Done b3" "wf_buf b3" "content b3 = concat ?ts @ body"
    "it_diff (que b3) (writepos b3) ?w = int (length (concat ?ts @ body))" "list_all (\<lambda>p. length (pbuf p) = dbs) (que b3)"
    using packet_written [OF b(1,2) m(2) ts] by auto
  have l: "packet_length b2 bs = word_of_nat (length body)"
    "packet_length b3 ?w = word_of_nat (length (concat ?ts @ body))"
    unfolding packet_length_def p(3,7) by simp_all
  show ?thesis
    by (rule exI [of _ b3], rule exI [of _ "word_of_nat (length (concat ?ts @ body))"])
      (use p(4) in \<open>simp add: SendMessage_def Let_def ctl_at_def write_header_def ctl_put_def server_header_order
        h_def [symmetric] p(1,2,3,5,6,8) l m(1) assms(1,2)\<close>)
qed

theorem request_answered:
  assumes path: "rq_path (st_reqheader s) = CHR ''/'' # name" "name \<noteq> []"
    and find: "sv_find sv name = (True, Some svc, Some md)"
    and rb: "receiving dbs (ss_readbuf s)"
    and parse: "sv_parse sv svc md (content (ss_readbuf s)) = (Some m, length (content (ss_readbuf s)))"
    and call: "sv_call sv svc md m (fresh_call (GetSeq (st_reqheader s)) m) = (res, c)" "\<not> Failed c"
    and body: "sv_serialize sv res = Some body" "length body + dbs < length (que (ss_writebuf s)) * dbs"
    and wb: "idle dbs (ss_writebuf s)" "it_pos (writepos (ss_writebuf s)) + MAX_HEADER_SIZE \<le> dbs" "dbs < 2 ^ 31"
    and none: "sc_pending s = []"
  defines "h \<equiv> SetContentLength (word_of_nat (length body)) (SetSeq (ct_seq c) (server_header (st_resheader s)))"
  shows "\<exists>t. ServerConnect_OnMessageRecived sv addr dbs n s = Done t
    \<and> isEmpty (ss_readbuf t) \<and> que (ss_readbuf t) = que (ss_readbuf s) \<and> writepos (ss_readbuf t) = writepos (ss_readbuf s)
    \<and> wf_buf (ss_writebuf t) \<and> content (ss_writebuf t) = concat (HttpReponse_lines h) @ body
    \<and> sc_pending t = [sc_next s] \<and> ss_close_when_empty t = ss_close_when_empty s
    \<and> (\<exists>d. sc_ctls t (sc_next s) = Some d \<and> ct_response d = Some res \<and>
         ct_res_pack_size d = word_of_nat (length (concat (HttpReponse_lines h) @ body)))"
proof -
  let ?c = "c\<lparr>ct_response := Some res\<rparr>" and ?all = "length (content (ss_readbuf s))"
  let ?p = "sv_parse sv svc md"
  let ?b0 = "ReadBuffer_BeginPacket (ss_readbuf s)"
  have B: "content ?b0 = content (ss_readbuf s)" "que ?b0 = que (ss_readbuf s)" "writepos ?b0 = writepos (ss_readbuf s)"
    "wf_buf ?b0" "uniform dbs (que ?b0)"
    using rb by (simp_all add: ReadBuffer_BeginPacket_def content_def receiving_def wf_buf_def)
  obtain b where b: "zero_copy_read ?all ?b0 ?all = Some (content (ss_readbuf s), b)" "wf_buf b" "content b = []"
    "que b = que (ss_readbuf s)" "writepos b = writepos (ss_readbuf s)"
    using zero_copy_read_takes [OF B(4,5) order_refl, of ?all] B by auto
  have pb: "parse_body ?p s = Done (Some m, s\<lparr>ss_readbuf := b\<rparr>)"
    using b(1) parse B(1) by (simp add: parse_body_def Let_def)
  have e: "isEmpty b" using content_Nil_iff [OF b(2)] b(3) by simp
  let ?u = "s\<lparr>ss_readbuf := b, sc_ctls := (sc_ctls s)(sc_next s \<mapsto> ?c), sc_next := Suc (sc_next s)\<rparr>"
  have fc: "server_SetStatus (error_number OK) (blank_controller\<lparr>ct_seq := GetSeq (st_reqheader s), ct_request := Some m\<rparr>)
      = fresh_call (GetSeq (st_reqheader s)) m" by (simp add: fresh_call_def)
  have run: "ServerConnect_OnMessageRecived sv addr dbs n s = SendMessage sv addr dbs (sc_next s) (Some res) ?u"
    unfolding ServerConnect_OnMessageRecived_def
    using path find pb call by (simp add: Let_def fc ctl_new_def del: error_number.simps)
  obtain w k where w: "SendMessage sv addr dbs (sc_next s) (Some res) ?u = Done (ModEventAsync True True
      (?u\<lparr>sc_pending := [sc_next s], st_resheader := h, ss_writebuf := w,
         sc_ctls := (sc_ctls ?u)(sc_next s \<mapsto> ?c\<lparr>ct_res_pack_size := k\<rparr>)\<rparr>))"
    "wf_buf w" "content w = concat (HttpReponse_lines h) @ body"
    "k = word_of_nat (length (concat (HttpReponse_lines h) @ body))"
    using SendMessage_writes [where s = ?u and a = "sc_next s" and c = ?c and dbs = dbs and body = body and sv = sv and addr = addr and m = res]
      none wb body unfolding h_def by auto
  show ?thesis unfolding run w(1) using w(2-4) e b(4,5) by (simp add: post_task_def)
qed

section \<open>Controllers deleted twice\<close>

text \<open>A response that cannot be serialised, or for whose header there is no room, leaves its deleted
  controller at the front of the queue.\<close>

lemma send_failed_ctls:
  "send_failed c a s = Done t \<Longrightarrow> sc_pending t = sc_pending s \<and> sc_ctls t = (sc_ctls s)(a := None)"
  by (auto simp: send_failed_def bind_outcome_Done_iff ctl_delete_Done dest!: OnMessageError_frame)

theorem failed_answer_freed_twice:
  assumes "sc_pending s = []" "sv_serialize sv m = None \<or> snd (begin_packet dbs (ss_writebuf s)) = None"
    and "SendMessage sv addr dbs a (Some m) s = Done t"
  shows "sc_pending t = [a]" "sc_ctls t a = None" "ServerConnect_OnClose t = Fault"
proof -
  obtain c where c: "sc_ctls s a = Some c" using assms(1,3)
    by (auto simp: SendMessage_def ctl_at_def split: option.splits)
  let ?u = "\<lambda>b. s\<lparr>sc_pending := [a], ss_writebuf := b, st_resheader := SetStatus 200 ''OK''
    (SetSeq (ct_seq c) (HttpReponseHeader_Reset (st_resheader s)))\<rparr>"
  have "\<exists>e u. SendMessage sv addr dbs a (Some m) s = send_failed e a u \<and> sc_pending u = [a]"
  proof (cases "begin_packet dbs (ss_writebuf s)")
    case (Pair b r)
    show ?thesis
    proof (cases r)
      case None
      then show ?thesis using assms(1) c Pair
        by (intro exI [of _ SERVER_WRIEBUFFER_FULL] exI [of _ "?u b"]) (simp add: SendMessage_def ctl_at_def Let_def)
    next
      case (Some x)
      then have "sv_serialize sv m = None" using assms(2) Pair by simp
      then show ?thesis using assms(1) c Pair Some
        by (intro exI [of _ SERVER_RES_SERIA_FAILED] exI [of _ "?u (b\<lparr>writepos := fst x\<rparr>)"])
          (cases x, simp add: SendMessage_def ctl_at_def Let_def)
    qed
  qed
  then obtain e u where "send_failed e a u = Done t" "sc_pending u = [a]" using assms(3) by auto
  then show "sc_pending t = [a]" "sc_ctls t a = None" using send_failed_ctls [of e a u t] by auto
  then show "ServerConnect_OnClose t = Fault" by (intro OnClose_double) auto
qed

text \<open>The second of two answers: once the first is sent, \<open>SendMessage\<close> only queues its controller again.\<close>

theorem second_answer_lost:
  assumes "sc_pending s = [a, b]" "sc_ctls s a = Some c" "sc_ctls s b = Some d" "a \<noteq> b" "\<not> ss_close_when_empty s"
    and "ct_res_pack_size c \<le> ct_res_send_size c + word_of_int n"
  shows "\<exists>t. ServerConnect_OnMessageSended sv addr dbs n s = Done t \<and> sc_pending t = [b, b]
    \<and> ss_writebuf t = ss_writebuf s \<and> ServerConnect_OnClose t = Fault"
proof -
  let ?c = "c\<lparr>ct_res_send_size := ct_res_send_size c + word_of_int n\<rparr>"
  let ?s = "s\<lparr>sc_ctls := (sc_ctls s)(a := None), sc_pending := [b, b]\<rparr>"
  have "ServerConnect_OnMessageSended sv addr dbs n s = Done (ModEventAsync True True ?s)"
    using assms by (simp add: ServerConnect_OnMessageSended_def Let_def ctl_at_def ctl_put_def ctl_delete_def
      SendMessage_def not_less)
  moreover have "ServerConnect_OnClose (ModEventAsync True True ?s) = Fault"
    by (rule OnClose_double) (simp add: post_task_def)
  ultimately show ?thesis by (simp add: post_task_def)
qed

section \<open>Runs of a connection\<close>

text \<open>Messages, reports of what was sent while one answer is on its way, and errors. Steps in which an
  answer could not be written are left out: they mark the connection to be closed.\<close>

inductive server_step :: "('svc, 'md, 'm) services \<Rightarrow> (nat \<Rightarrow> int \<Rightarrow> int) \<Rightarrow> nat \<Rightarrow> 'm server_connect \<Rightarrow> 'm server_connect \<Rightarrow> bool"
  for sv addr dbs where
  recived: "receiving dbs (ss_readbuf s) \<Longrightarrow> ServerConnect_OnMessageRecived sv addr dbs n s = Done t \<Longrightarrow>
    \<not> ss_close_when_empty t \<Longrightarrow> server_step sv addr dbs s t"
| sended: "length (sc_pending s) \<le> 1 \<Longrightarrow> ServerConnect_OnMessageSended sv addr dbs n s = Done t \<Longrightarrow> server_step sv addr dbs s t"
| failed: "ServerConnect_OnMessageError c s = Done t \<Longrightarrow> server_step sv addr dbs s t"

lemma server_step_inv:
  assumes "server_step sv addr dbs s t" "ctl_inv s"
  shows "ctl_inv t \<and> ss_refs t = ss_refs s"
  using assms
proof (cases rule: server_step.cases)
  case (recived n)
  then show ?thesis using ends_inD [OF OnMessageRecived_frame [OF recived(1)] recived(2)] assms(2) by (simp add: received_frame_def)
next
  case (sended n)
  note F = ends_inD [OF OnMessageSended_frame sended(2)]
  show ?thesis
  proof (cases "sc_pending s")
    case Nil
    then have "t = ModEventAsync True False s" using sended by (simp add: ServerConnect_OnMessageSended_def)
    then show ?thesis using assms(2) by (simp add: ctl_inv_def post_task_def)
  next
    case (Cons a as)
    then have "sc_pending s = [a]" using sended(1) by simp
    then show ?thesis using ends_inD [OF OnMessageSended_inv [OF assms(2)] sended(2)] F by (auto simp: sc_frame_def)
  qed
next
  case (failed c)
  then show ?thesis using OnMessageError_frame [OF failed] assms(2) by (auto simp: ctl_inv_def sc_frame_def)
qed

lemma server_run_inv:
  assumes "rtranclp (server_step sv addr dbs) s t" "ctl_inv s"
  shows "ctl_inv t \<and> ss_refs t = ss_refs s"
  using assms by (induction rule: rtranclp_induct) (auto dest: server_step_inv)

section \<open>Answers to errors\<close>

lemma put_header_total:
  assumes "wf_que (que b)" "wf_it (que b) it" "\<forall>p \<in> set (que b). psize p < 2 ^ 31" "ts \<noteq> []"
  shows "\<exists>b'. put_header ts it b = Done b'"
proof -
  have "psz (que b) (it_idx it) < 2 ^ 31" using assms(2,3) by (simp add: wf_it_def)
  then show ?thesis
    using serialize_at_fits [OF assms(1,2) _ assms(4)] serialize_at_full [OF assms(1,2) _ assms(4)]
    by (cases "it_pos it + length (concat ts) < psz (que b) (it_idx it)") (auto simp: put_header_def not_less)
qed

lemma error_answer_written:
  assumes "sc_pending s \<noteq> [] \<longrightarrow> hd (sc_pending s) \<in> dom (sc_ctls s)" "wf_que (que (ss_writebuf s))" "wf_it (que (ss_writebuf s)) (writepos (ss_writebuf s))"
    and "\<forall>p \<in> set (que (ss_writebuf s)). psize p < 2 ^ 31"
  shows "\<exists>t. ServerConnect_OnMessageError c s = Done t"
proof -
  obtain x b where x: "AlignWritePos (ss_writebuf s) = (x, b)" by (cases "AlignWritePos (ss_writebuf s)")
  then have q: "que b = que (ss_writebuf s)" by (auto simp: AlignWritePos_def Let_def)
  have "HttpReponse_lines h \<noteq> []" for h by (simp add: HttpReponse_lines_def)
  then have w: "\<exists>t. write_header (writepos (ss_writebuf s)) (s\<lparr>ss_writebuf := b, st_resheader := h\<rparr>) = Done t" for h
    using put_header_total [of b "writepos (ss_writebuf s)" "HttpReponse_lines h"] assms q
    by (auto simp: write_header_def)
  show ?thesis
  proof (cases "sc_pending s")
    case Nil
    then show ?thesis using w [of "SetContentLength 0 (SetStatus (word_of_int (error_number c)) (ErrorString (error_number c))
        (SetSeq 0 (HttpReponseHeader_Reset (st_resheader s))))"]
      by (auto simp: ServerConnect_OnMessageError_def x Let_def)
  next
    case (Cons a as)
    then obtain d where "sc_ctls s a = Some d" using assms(1) by auto
    then show ?thesis using Cons w [of "SetContentLength 0 (SetStatus (word_of_int (error_number c)) (ErrorString (error_number c))
        (SetSeq (ct_seq d) (HttpReponseHeader_Reset (st_resheader s))))"]
      by (auto simp: ServerConnect_OnMessageError_def x Let_def ctl_at_def)
  qed
qed

lemma begin_packet_idle:
  assumes "idle dbs b" "it_pos (writepos b) + MAX_HEADER_SIZE \<le> dbs" "dbs < 2 ^ 31"
  shows "\<exists>b1 bs. begin_packet dbs b = (b1, Some (writepos b, bs)) \<and> wf_que (que b1) \<and> wf_it (que b1) (writepos b)
    \<and> (\<forall>p \<in> set (que b1). psize p < 2 ^ 31)"
proof -
  let ?b = "Reset dbs b" and ?w = "writepos b"
  note R = Reset_idle_full [OF assms(1)]
  have wf: "wf_buf ?b" "isEmpty ?b" using R(1) by (auto simp: idle_def)
  have r: "readpos ?b = ?w" using wf(2) R(3) by (simp add: isEmpty_def)
  have W: "wf_que (que ?b)" "wf_it (que ?b) ?w" using wf_bufD [OF wf(1)] R(3) by auto
  then have "it_idx ?w < length (que b)" using R(5) by (simp add: wf_it_def)
  then have sz: "psz (que ?b) (it_idx ?w) = dbs" using R(4) by simp
  have "int dbs - int (it_pos ?w) = (int dbs - int (it_pos ?w)) mod 2 ^ 32" using assms(2,3) by simp
  then have res: "Reserve ?b MAX_HEADER_SIZE = (True, ?b)"
    using assms(2) sz R(3) r by (simp add: Reserve_def Let_def MAX_HEADER_SIZE_def)
  have "\<forall>p \<in> set (que ?b). psize p < 2 ^ 31" using R(4,5) assms(3) by (auto simp: in_set_conv_nth)
  then show ?thesis using W
    by (auto simp: begin_packet_def res R(3) split_beta Let_def AlignWritePos_def WriteBuffer_BeginPacket_def)
qed

theorem unserialised_answer:
  assumes "sc_pending s = []" "sc_ctls s a = Some c" "sv_serialize sv m = None"
    and "idle dbs (ss_writebuf s)" "it_pos (writepos (ss_writebuf s)) + MAX_HEADER_SIZE \<le> dbs" "dbs < 2 ^ 31"
  shows "\<exists>t. SendMessage sv addr dbs a (Some m) s = Done t \<and> sc_pending t = [a] \<and> sc_ctls t a = None
    \<and> ServerConnect_OnClose t = Fault"
proof -
  obtain b1 bs where b: "begin_packet dbs (ss_writebuf s) = (b1, Some (writepos (ss_writebuf s), bs))"
    "wf_que (que b1)" "wf_it (que b1) (writepos (ss_writebuf s))" "\<forall>p \<in> set (que b1). psize p < 2 ^ 31"
    using begin_packet_idle [OF assms(4-6)] by blast
  let ?s = "s\<lparr>sc_pending := [a], ss_writebuf := b1\<lparr>writepos := writepos (ss_writebuf s)\<rparr>,
    st_resheader := SetStatus 200 ''OK'' (SetSeq (ct_seq c) (HttpReponseHeader_Reset (st_resheader s)))\<rparr>"
  have e: "SendMessage sv addr dbs a (Some m) s = send_failed SERVER_RES_SERIA_FAILED a ?s"
    using assms(1-3) b(1) by (simp add: SendMessage_def ctl_at_def Let_def)
  obtain t where t: "ServerConnect_OnMessageError SERVER_RES_SERIA_FAILED ?s = Done t"
    using error_answer_written [of ?s SERVER_RES_SERIA_FAILED] b(2-4) assms(2) by auto
  then have "sc_ctls t = sc_ctls s" using OnMessageError_frame by fastforce
  then obtain u where "SendMessage sv addr dbs a (Some m) s = Done u"
    using e t assms(2) by (auto simp: send_failed_def ctl_delete_def ctl_at_def)
  then show ?thesis using failed_answer_freed_twice [OF assms(1)] assms(3) by blast
qed

end
