(* ===== verification/Rpc_Channel.thy ===== *)
theory Rpc_Channel
  imports Message_Stream Rpc_Controller
begin

text \<open>
  \<open>RpcChannelImpl\<close> (\<open>rpc/rpc_channel_impl.cpp\<close>): the client's end of a connection together with its
  stream. A call waits in \<open>sendcall\<close> until the connection is idle, in \<open>waitcall\<close> until its request is
  sent and in \<open>donecall\<close> until its response arrives. The controllers belong to the callers; they
  live in a store, and each \<open>SetStatus\<close> and each run of a caller's closure is recorded in order.

  The protobuf library (serialising a request, parsing a response) is a parameter. \<open>sendcall\<close>, a
  \<open>SpinList\<close>, is the queue it refines.
\<close>

section \<open>State\<close>

record ('m, 'd) channel = connect_stream +
  ch_stream :: bool  \<comment> \<open>\<open>_stream\<close> is not null\<close>
  ch_calls :: "nat \<Rightarrow> ('m, 'd) client_controller option"
  ch_send :: "nat list"
  ch_wait :: "nat list"
  ch_done :: "nat list"
  ch_seq :: "32 word"  \<comment> \<open>the counter of \<open>GenerateSeq\<close>\<close>
  ch_log :: "(nat \<times> int) list"  \<comment> \<open>the calls of \<open>SetStatus\<close>\<close>
  ch_ran :: "'d list"  \<comment> \<open>the closures that were run\<close>
  ch_deleted :: bool

record 'm codec =
  co_serialize :: "'m \<Rightarrow> string option"
    \<comment> \<open>the bytes of a message, \<open>None\<close> if it cannot be serialised\<close>
  co_parse :: "string \<Rightarrow> 'm option \<times> nat"
    \<comment> \<open>\<open>ParseFromZeroCopyStream\<close> on the unread bytes: the message, and how many it has read\<close>

record options =
  read_timeout_sec :: nat
  write_timeout_sec :: nat

definition call_at :: "nat \<Rightarrow> ('m, 'd, 'a) channel_scheme \<Rightarrow> ('m, 'd) client_controller outcome" where
  "call_at a s = (case ch_calls s a of None \<Rightarrow> Fault | Some c \<Rightarrow> Done c)"

definition call_put :: "nat \<Rightarrow> ('m, 'd) client_controller \<Rightarrow> ('m, 'd, 'a) channel_scheme \<Rightarrow> ('m, 'd, 'a) channel_scheme" where
  "call_put a c s = s\<lparr>ch_calls := (ch_calls s)(a \<mapsto> c)\<rparr>"

text \<open>\<open>cntl->SetStatus(st)\<close> and \<open>done->Run()\<close>.\<close>

definition set_status :: "int \<Rightarrow> nat \<Rightarrow> ('m, 'd, 'a) channel_scheme \<Rightarrow> ('m, 'd, 'a) channel_scheme outcome" where
  "set_status st a s = bind_outcome (call_at a s) (\<lambda>c.
     Done (s\<lparr>ch_calls := (ch_calls s)(a \<mapsto> client_SetStatus st c), ch_log := ch_log s @ [(a, st)]\<rparr>))"

definition run_done :: "'d option \<Rightarrow> ('m, 'd, 'a) channel_scheme \<Rightarrow> ('m, 'd, 'a) channel_scheme" where
  "run_done d s = (case d of None \<Rightarrow> s | Some f \<Rightarrow> s\<lparr>ch_ran := ch_ran s @ [f]\<rparr>)"

definition GenerateSeq :: "('m, 'd, 'a) channel_scheme \<Rightarrow> 64 word \<times> ('m, 'd, 'a) channel_scheme" where
  "GenerateSeq s = (let n = ch_seq s + 1 in (scast n, s\<lparr>ch_seq := n\<rparr>))"

section \<open>Operations\<close>

text \<open>The three loops of \<open>OnMessageError\<close> give every queued call a status.\<close>

fun set_all :: "int \<Rightarrow> nat list \<Rightarrow> ('m, 'd, 'a) channel_scheme \<Rightarrow> ('m, 'd, 'a) channel_scheme outcome" where
  "set_all st [] s = Done s"
| "set_all st (a # as) s = bind_outcome (set_status st a s) (set_all st as)"

definition Channel_OnMessageError :: "ErrorCode \<Rightarrow> ('m, 'd, 'a) channel_scheme \<Rightarrow> ('m, 'd, 'a) channel_scheme outcome" where
  "Channel_OnMessageError c s =
     bind_outcome (set_all (error_number CLIENT_CANCEL_BY_ERROR) (ch_send s) s) (\<lambda>s.
     bind_outcome (set_all (error_number c) (ch_wait s) (s\<lparr>ch_send := []\<rparr>)) (\<lambda>s.
     bind_outcome (set_all (error_number c) (ch_done s) (s\<lparr>ch_wait := []\<rparr>)) (\<lambda>s.
       Done ((ModEventAsync True True (s\<lparr>ch_done := []\<rparr>))\<lparr>ss_close_when_empty := True\<rparr>))))"

definition SendToServer :: "'m codec \<Rightarrow> nat \<Rightarrow> nat \<Rightarrow> ('m, 'd, 'a) channel_scheme \<Rightarrow>
    (int \<times> ('m, 'd, 'a) channel_scheme) outcome" where
  "SendToServer co dbs a s =
     bind_outcome (call_at a s) (\<lambda>cntl.
     case (cc_method cntl, ct_request cntl) of
       (Some name, Some m) \<Rightarrow>
         let (seq, s) = GenerateSeq s;
             s = call_put a (cntl\<lparr>ct_seq := seq\<rparr>) s;
             h = SetSeq seq (SetPath (''/'' @ name) (HttpRequestHeader_Reset (st_reqheader s)));
             fail = (\<lambda>c s. bind_outcome (Channel_OnMessageError c s) (\<lambda>s.
               bind_outcome (set_status (error_number c) a s) (\<lambda>s. Done (- 1, s))))
         in (case begin_packet dbs (ss_writebuf s) of
               (b, None) \<Rightarrow> fail SERVER_WRIEBUFFER_FULL (s\<lparr>ss_writebuf := b, st_reqheader := h\<rparr>)
             | (b, Some (packetStart, bodyStart)) \<Rightarrow>
                 (case Option.bind (co_serialize co m) (\<lambda>d. zero_copy_write (length d) b d) of
                    None \<Rightarrow> fail SERVER_RES_SERIA_FAILED (s\<lparr>ss_writebuf := b\<lparr>writepos := packetStart\<rparr>, st_reqheader := h\<rparr>)
                  | Some b \<Rightarrow>
                      let h = SetContentLength (packet_length b bodyStart) h in
                      bind_outcome (put_header (HttpRequest_lines h) packetStart b) (\<lambda>b.
                        Done (0, ModEventAsync True True
                          (call_put a (cntl\<lparr>ct_seq := seq, ct_req_pack_size := packet_length b packetStart\<rparr>)
                            (s\<lparr>ss_writebuf := b, st_reqheader := h\<rparr>))))))
     | _ \<Rightarrow> Fault)"

text \<open>\<open>sendcall.pop\<close>, \<open>SendToServer\<close>, \<open>waitcall.push\<close>; \<open>between\<close> is what stands between the last two.\<close>

definition send_next :: "'m codec \<Rightarrow> nat \<Rightarrow> (('m, 'd, 'a) channel_scheme \<Rightarrow> ('m, 'd, 'a) channel_scheme) \<Rightarrow>
    ('m, 'd, 'a) channel_scheme \<Rightarrow> ('m, 'd, 'a) channel_scheme outcome" where
  "send_next co dbs between s =
     (case ch_send s of
        [] \<Rightarrow> Done s
      | a # as \<Rightarrow> bind_outcome (SendToServer co dbs a (s\<lparr>ch_send := as\<rparr>)) (\<lambda>(_, s).
          let s = between s in Done (s\<lparr>ch_wait := ch_wait s @ [a]\<rparr>)))"

definition Channel_OnWriteable :: "'m codec \<Rightarrow> nat \<Rightarrow> ('m, 'd, 'a) channel_scheme \<Rightarrow> ('m, 'd, 'a) channel_scheme outcome" where
  "Channel_OnWriteable co dbs s =
     (if ch_send s = [] then Done s
      else if ch_wait s = [] \<and> ch_done s = [] then send_next co dbs (\<lambda>s. s) s
      else Done s)"

text \<open>The loop of \<open>OnMessageSended\<close>; \<open>buffer_size\<close> is an \<open>int32_t\<close>, the sizes are \<open>uint32_t\<close>.\<close>

partial_function (option) sended_loop :: "options \<Rightarrow> int \<Rightarrow> ('m, 'd) channel \<Rightarrow> ('m, 'd) channel outcome option" where
  "sended_loop opt n s =
     (case ch_wait s of
        [] \<Rightarrow> Some (Done s)
      | a # as \<Rightarrow>
          if n \<le> 0 then Some (Done s)
          else (case ch_calls s a of
            None \<Rightarrow> Some Fault
          | Some c \<Rightarrow>
              let c = c\<lparr>ct_req_send_size := ct_req_send_size c + word_of_int n\<rparr>; s = call_put a c s in
              if ct_req_pack_size c \<le> ct_req_send_size c
              then sended_loop opt (sint (ct_req_send_size c - ct_req_pack_size c))
                     (post_task (Set_read_timeout (read_timeout_sec opt))
                       (s\<lparr>ch_wait := as, ch_done := ch_done s @ [a]\<rparr>))
              else sended_loop opt n s))"

definition Channel_OnMessageSended :: "options \<Rightarrow> int \<Rightarrow> ('m, 'd) channel \<Rightarrow> ('m, 'd) channel outcome" where
  "Channel_OnMessageSended opt n s = bind_outcome (ended (sended_loop opt n s)) (\<lambda>r. r)"

definition Channel_OnMessageRecived :: "'m codec \<Rightarrow> options \<Rightarrow> nat \<Rightarrow> int \<Rightarrow> ('m, 'd, 'a) channel_scheme \<Rightarrow>
    ('m, 'd, 'a) channel_scheme outcome" where
  "Channel_OnMessageRecived co opt dbs n s =
     (let s = post_task Del_read_timeout s in
      case ch_done s of
        [] \<Rightarrow> Done s
      | a # as \<Rightarrow>
          bind_outcome (call_at a (s\<lparr>ch_done := as\<rparr>)) (\<lambda>cntl.
          let s = s\<lparr>ch_done := as, ss_readbuf := ReadBuffer_BeginPacket (ss_readbuf s)\<rparr> in
          bind_outcome
            (if GetContentLength (st_resheader s) > 0
             then (case ct_response cntl of
                     None \<Rightarrow> Fault
                   | Some _ \<Rightarrow>
                       let (m, k) = co_parse co (content (ss_readbuf s)) in
                       bind_outcome (ended (zero_copy_read k (ss_readbuf s) k)) (\<lambda>(_, b).
                         let s = s\<lparr>ss_readbuf := b\<rparr> in
                         case m of
                           None \<Rightarrow> Done (False, s)
                         | Some m \<Rightarrow> Done (True, call_put a (cntl\<lparr>ct_response := Some m\<rparr>) s)))
             else Done (True, s))
            (\<lambda>(ok, s).
              if \<not> ok
              then bind_outcome (Channel_OnMessageError SERVER_REQ_PARSER_FAILED
                       (s\<lparr>st_resheader := HttpReponseHeader_Reset (st_resheader s)\<rparr>))
                     (set_status (error_number SERVER_REQ_PARSER_FAILED) a)
              else bind_outcome (set_status (sint (rs_status (st_resheader s))) a (run_done (cc_done cntl) s)) (\<lambda>s.
                     send_next co dbs (post_task (Set_write_timeout (write_timeout_sec opt)))
                       (s\<lparr>st_resheader := HttpReponseHeader_Reset (st_resheader s)\<rparr>)))))"

definition OnSendTimeout :: "('m, 'd, 'a) channel_scheme \<Rightarrow> ('m, 'd, 'a) channel_scheme outcome" where
  "OnSendTimeout = Channel_OnMessageError CLIENT_SEND_TIMEOUT"

definition OnRecvTimeout :: "('m, 'd, 'a) channel_scheme \<Rightarrow> ('m, 'd, 'a) channel_scheme outcome" where
  "OnRecvTimeout = Channel_OnMessageError CLIENT_RECV_TIMEOUT"

definition Channel_OnClose :: "('m, 'd, 'a) channel_scheme \<Rightarrow> ('m, 'd, 'a) channel_scheme outcome" where
  "Channel_OnClose s =
     bind_outcome (if ch_send s \<noteq> [] \<or> ch_wait s \<noteq> [] \<or> ch_done s \<noteq> [] then Channel_OnMessageError CLIENT_CANCEL_BY_CLOSE s else Done s)
       (\<lambda>s. bind_outcome (ss_ReleaseRef s) (\<lambda>s. Done (s\<lparr>ch_deleted := True\<rparr>)))"

text \<open>A call of the user with the controller \<open>a\<close>; the wait of a call without a closure is not part of it.\<close>

definition CallMethod :: "string \<Rightarrow> nat \<Rightarrow> 'm \<Rightarrow> 'm \<Rightarrow> 'd option \<Rightarrow> ('m, 'd, 'a) channel_scheme \<Rightarrow>
    ('m, 'd, 'a) channel_scheme outcome" where
  "CallMethod name a request response d s =
     (if \<not> ch_stream s \<or> cs_status s = CLIENT_CONNECT_FAIL
      then bind_outcome (set_status (error_number CLIENT_CONNECT_FAIL) a s) (\<lambda>s. Done (run_done d s))
      else bind_outcome (call_at a s) (\<lambda>c.
        Done (ModEventAsync True True (call_put a
          (c\<lparr>ct_request := Some request, ct_response := Some response, cc_method := Some name, cc_done := d\<rparr>)
          (s\<lparr>ch_send := ch_send s @ [a]\<rparr>)))))"

text \<open>\<open>ret\<close> and \<open>inprogress\<close> describe the system's \<open>connect\<close>, \<open>final\<close> the status after \<open>Wait\<close>.\<close>

definition Channel_Connect :: "int \<Rightarrow> bool \<Rightarrow> ErrorCode \<Rightarrow> ('m, 'd, 'a) channel_scheme \<Rightarrow> int \<times> ('m, 'd, 'a) channel_scheme" where
  "Channel_Connect ret inprogress final s =
     (let (c, s) = ConnectStream_Connect ret inprogress (s\<lparr>ch_stream := True, ss_refs := ss_refs s + 1\<rparr>) in
      if c = CLIENT_CONNECT_OK then (0, AddEventASync True False s)
      else if c \<noteq> CLIENT_CONNECT_IPROCESS then (- 1, s\<lparr>ch_stream := False\<rparr>)
      else (if final = CLIENT_CONNECT_OK then 0 else - 1, (AddEventASync True True s)\<lparr>cs_status := final\<rparr>))"

definition Channel_Close :: "('m, 'd, 'a) channel_scheme \<Rightarrow> ('m, 'd, 'a) channel_scheme" where
  "Channel_Close s =
     (if \<not> ss_isClosed s then ModEventAsync True True (s\<lparr>ss_close_when_empty := True\<rparr>) else s)"

text \<open>The closures that \<open>Connect\<close> sets: none for \<open>handerMessageError\<close>.\<close>

definition client_hooks :: "'m codec \<Rightarrow> options \<Rightarrow> nat \<Rightarrow> (('m, 'd) channel \<Rightarrow> string \<times> string) \<Rightarrow> ('m, 'd) channel hooks" where
  "client_hooks co opt dbs names =
     \<lparr>hk_connected = None, hk_readable = None, hk_writeable = Some (Channel_OnWriteable co dbs),
      hk_close = Some Channel_OnClose, hk_readTimeOut = Some OnRecvTimeout, hk_writeTimeOut = Some OnSendTimeout,
      hk_messageError = None, hk_messageRecived = Some (Channel_OnMessageRecived co opt dbs),
      hk_messageSended = Some (Channel_OnMessageSended opt), hk_getnames = names\<rparr>"

definition client_event :: "'m codec \<Rightarrow> options \<Rightarrow> nat \<Rightarrow> (('m, 'd) channel \<Rightarrow> string \<times> string) \<Rightarrow> 32 word \<Rightarrow>
    ('m, 'd) channel \<Rightarrow> ('m, 'd) channel outcome" where
  "client_event co opt dbs names =
     OnEvent (client_hooks co opt dbs names) (ConnectStream_methods (client_hooks co opt dbs names) dbs)"

section \<open>Calls are conserved\<close>

text \<open>\<open>A\<close> are the calls handed to \<open>CallMethod\<close>: each is queued once or has been given its status once.
  At most one call is on its way.\<close>

definition queued :: "('m, 'd, 'a) channel_scheme \<Rightarrow> nat list" where
  "queued s = ch_send s @ ch_wait s @ ch_done s"

definition completed :: "('m, 'd, 'a) channel_scheme \<Rightarrow> nat list" where
  "completed s = map fst (ch_log s)"

definition calls_ok :: "nat set \<Rightarrow> ('m, 'd, 'a) channel_scheme \<Rightarrow> bool" where
  "calls_ok A s \<longleftrightarrow> distinct (queued s @ completed s) \<and> set (queued s @ completed s) = A
     \<and> A \<subseteq> dom (ch_calls s) \<and> length (ch_wait s) + length (ch_done s) \<le> 1"

definition statused :: "int \<Rightarrow> nat list \<Rightarrow> (nat \<rightharpoonup> ('m, 'd) client_controller) \<Rightarrow> nat \<rightharpoonup> ('m, 'd) client_controller" where
  "statused st as m = (\<lambda>a. if a \<in> set as then map_option (client_SetStatus st) (m a) else m a)"

lemma dom_statused [simp]: "dom (statused st as m) = dom m"
  by (auto simp: statused_def split: if_splits)

lemma statused_Cons: "m a = Some c \<Longrightarrow> statused st as (m(a \<mapsto> client_SetStatus st c)) = statused st (a # as) m"
  by (auto simp: statused_def fun_eq_iff client_SetStatus_def)

lemma set_all_eq:
  "set_all st as s = (if set as \<subseteq> dom (ch_calls s)
     then Done (s\<lparr>ch_calls := statused st as (ch_calls s), ch_log := ch_log s @ map (\<lambda>a. (a, st)) as\<rparr>) else Fault)"
proof (induction as arbitrary: s)
  case (Cons a as)
  show ?case
  proof (cases "ch_calls s a")
    case (Some c)
    have "dom ((ch_calls s)(a \<mapsto> client_SetStatus st c)) = dom (ch_calls s)" using Some by auto
    then show ?thesis using Cons.IH Some by (simp add: set_status_def call_at_def statused_Cons domI del: dom_fun_upd fun_upd_apply)
  qed (auto simp: set_status_def call_at_def)
qed (simp add: statused_def)

definition cancel_log :: "ErrorCode \<Rightarrow> ('m, 'd, 'a) channel_scheme \<Rightarrow> (nat \<times> int) list" where
  "cancel_log c s = map (\<lambda>a. (a, error_number CLIENT_CANCEL_BY_ERROR)) (ch_send s)
     @ map (\<lambda>a. (a, error_number c)) (ch_wait s @ ch_done s)"

definition cancelled :: "ErrorCode \<Rightarrow> ('m, 'd, 'a) channel_scheme \<Rightarrow> ('m, 'd, 'a) channel_scheme" where
  "cancelled c s = s\<lparr>ch_send := [], ch_wait := [], ch_done := [],
     ch_calls := statused (error_number c) (ch_done s) (statused (error_number c) (ch_wait s)
       (statused (error_number CLIENT_CANCEL_BY_ERROR) (ch_send s) (ch_calls s))),
     ch_log := ch_log s @ cancel_log c s, ss_posted := ss_posted s @ [Mod_event True True], ss_close_when_empty := True\<rparr>"

lemma OnMessageError_eq:
  "Channel_OnMessageError c s = (if set (queued s) \<subseteq> dom (ch_calls s) then Done (cancelled c s) else Fault)"
  by (auto simp: Channel_OnMessageError_def set_all_eq cancelled_def cancel_log_def post_task_def queued_def)

lemma calls_ok_queued: "calls_ok A s \<Longrightarrow> set (queued s) \<subseteq> dom (ch_calls s)"
  by (auto simp: calls_ok_def)

lemma cancelled_ok: "calls_ok A s \<Longrightarrow> calls_ok A (cancelled c s)"
  by (auto simp: cancelled_def calls_ok_def queued_def completed_def cancel_log_def comp_def)

theorem OnMessageError_completes:
  assumes "calls_ok A s"
  shows "\<exists>t. Channel_OnMessageError c s = Done t \<and> calls_ok A t \<and> queued t = [] \<and> set (completed t) = A \<and> ch_ran t = ch_ran s"
  using calls_ok_queued [OF assms] cancelled_ok [OF assms, of c]
  by (auto simp: OnMessageError_eq queued_def cancelled_def calls_ok_def)

lemma set_status_eq:
  "set_status st a s = (case ch_calls s a of None \<Rightarrow> Fault
     | Some c \<Rightarrow> Done (s\<lparr>ch_calls := (ch_calls s)(a \<mapsto> client_SetStatus st c), ch_log := ch_log s @ [(a, st)]\<rparr>))"
  by (simp add: set_status_def call_at_def split: option.split)

text \<open>What sending a request may change.\<close>

definition sent :: "('m, 'd, 'a) channel_scheme \<Rightarrow> ('m, 'd, 'a) channel_scheme \<Rightarrow> bool" where
  "sent s t \<longleftrightarrow> ch_send t = ch_send s \<and> ch_wait t = ch_wait s \<and> ch_done t = ch_done s \<and> ch_log t = ch_log s
     \<and> ch_ran t = ch_ran s \<and> dom (ch_calls t) = dom (ch_calls s) \<and> ss_close_when_empty t = ss_close_when_empty s"

definition chan_frame :: "('m, 'd, 'a) channel_scheme \<Rightarrow> ('m, 'd, 'a) channel_scheme \<Rightarrow> bool" where
  "chan_frame s t \<longleftrightarrow> ss_isClosed t = ss_isClosed s \<and> dels t = dels s \<and> ss_readbuf t = ss_readbuf s \<and> ss_refs t = ss_refs s"

lemma SendToServer_frame:
  "ends_in (\<lambda>(r, t). chan_frame s t \<and> (r = 0 \<and> sent s t \<and> a \<in> dom (ch_calls s) \<or> r = - 1 \<and> ss_close_when_empty t)) (SendToServer co dbs a s)"
  unfolding SendToServer_def Let_def
  by (auto simp: OnMessageError_eq set_status_eq call_at_def call_put_def GenerateSeq_def cancelled_def chan_frame_def sent_def post_task_def dels_def Let_def
      intro!: ends_in_intros split: option.splits prod.splits if_splits)

definition after_send :: "nat \<Rightarrow> nat list \<Rightarrow> ('m, 'd, 'a) channel_scheme \<Rightarrow> ('m, 'd, 'a) channel_scheme \<Rightarrow> bool" where
  "after_send a as s t \<longleftrightarrow> chan_frame s t \<and> (ss_close_when_empty t \<or>
     (ch_send t = as \<and> ch_wait t = ch_wait s @ [a] \<and> ch_done t = ch_done s \<and> ch_log t = ch_log s
      \<and> ch_ran t = ch_ran s \<and> dom (ch_calls t) = dom (ch_calls s) \<and> ss_close_when_empty t = ss_close_when_empty s))"

definition harmless :: "(('m, 'd, 'a) channel_scheme \<Rightarrow> ('m, 'd, 'a) channel_scheme) \<Rightarrow> bool" where
  "harmless f \<longleftrightarrow> (\<forall>s. sent s (f s) \<and> chan_frame s (f s))"

lemma harmless [simp]: "harmless (\<lambda>s. s)" "harmless (post_task (Set_write_timeout k))"
  by (simp_all add: harmless_def sent_def chan_frame_def post_task_def dels_def)

lemma send_next_frame:
  assumes "ch_send s = a # as" "harmless f"
  shows "ends_in (after_send a as s) (send_next co dbs f s)"
proof -
  have "after_send a as s (f t\<lparr>ch_wait := ch_wait (f t) @ [a]\<rparr>)"
    if "SendToServer co dbs a (s\<lparr>ch_send := as\<rparr>) = Done (r, t)" for r t
  proof -
    have "sent t (f t)" "chan_frame t (f t)" using assms(2) by (auto simp: harmless_def)
    then show ?thesis using ends_inD [OF SendToServer_frame that]
      by (auto simp: after_send_def chan_frame_def sent_def dels_def)
  qed
  then show ?thesis by (auto simp: send_next_def assms(1) Let_def intro!: ends_in_intros)
qed

lemma send_next_quiet: "harmless f \<Longrightarrow> ends_in (chan_frame s) (send_next co dbs f s)"
proof (cases "ch_send s")
  case (Cons a as)
  assume "harmless f"
  show ?thesis by (rule ends_in_mono [OF send_next_frame [OF Cons \<open>harmless f\<close>]]) (simp add: after_send_def)
qed (simp add: send_next_def ends_in_def chan_frame_def)

lemma after_send_ok:
  assumes "after_send a as s t" "ch_send s = a # as" "calls_ok A s" "ch_wait s = []" "ch_done s = []"
  shows "ss_close_when_empty t \<or> calls_ok A t \<and> set (queued t) = set (queued s) \<and> completed t = completed s
     \<and> ch_wait t = [a]"
proof (cases "ss_close_when_empty t")
  case False
  then have t: "ch_send t = as" "ch_wait t = [a]" "ch_done t = []" "ch_log t = ch_log s" "dom (ch_calls t) = dom (ch_calls s)"
    using assms by (auto simp: after_send_def)
  then show ?thesis using assms(2-5) by (simp add: calls_ok_def queued_def completed_def)
qed simp

lemma send_next_ok:
  assumes "harmless f" "calls_ok A s" "ch_wait s = []" "ch_done s = []"
  shows "ends_in (\<lambda>t. ss_close_when_empty t \<or> calls_ok A t \<and> set (queued t) = set (queued s) \<and> completed t = completed s
     \<and> (ch_send s \<noteq> [] \<longrightarrow> ch_wait t = [hd (ch_send s)])) (send_next co dbs f s)"
proof (cases "ch_send s")
  case (Cons a as)
  show ?thesis
    by (rule ends_in_mono [OF send_next_frame [OF Cons assms(1)]])
      (use after_send_ok [OF _ Cons assms(2-4)] Cons in simp)
qed (use assms in \<open>simp add: send_next_def ends_in_def\<close>)

lemma OnWriteable_ok:
  assumes "calls_ok A s"
  shows "ends_in (\<lambda>t. ss_close_when_empty t \<or> calls_ok A t) (Channel_OnWriteable co dbs s)"
  unfolding Channel_OnWriteable_def
  using assms by (auto intro!: ends_in_intros ends_in_mono [OF send_next_ok [OF _ assms]])

lemma CallMethod_ok:
  assumes "calls_ok A s" "a \<notin> A" "a \<in> dom (ch_calls s)"
  shows "\<exists>t. CallMethod name a req res d s = Done t \<and> calls_ok (insert a A) t \<and> a \<in> set (queued t @ completed t)"
proof -
  obtain c where "ch_calls s a = Some c" using assms(3) by auto
  then show ?thesis using assms
    by (auto simp: CallMethod_def set_status_eq call_at_def call_put_def calls_ok_def queued_def completed_def post_task_def
        run_done_def split: option.split)
qed

section \<open>The answer to a call\<close>

definition answered :: "nat \<Rightarrow> ('m, 'd, 'a) channel_scheme \<Rightarrow> ('m, 'd, 'a) channel_scheme \<Rightarrow> bool" where
  "answered a s t \<longleftrightarrow> ch_send t = ch_send s \<and> ch_wait t = ch_wait s \<and> ch_done s = a # ch_done t
     \<and> completed t = completed s @ [a] \<and> dom (ch_calls t) = dom (ch_calls s)"

lemma answered_ok:
  "answered a s t \<Longrightarrow> calls_ok A s \<Longrightarrow> calls_ok A t \<and> ch_wait t = [] \<and> ch_done t = []"
  by (cases "ch_done t") (auto simp: answered_def calls_ok_def queued_def)

lemma OnMessageRecived_ok:
  assumes ok: "calls_ok A s"
  shows "ends_in (\<lambda>t. ss_close_when_empty t \<or> calls_ok A t \<and> (\<forall>a \<in> set (ch_done s). a \<in> set (completed t)))
    (Channel_OnMessageRecived co opt dbs n s)"
proof (cases "ch_done s")
  case Nil
  then show ?thesis using ok
    by (simp add: Channel_OnMessageRecived_def Let_def ends_in_def calls_ok_def queued_def completed_def post_task_def)
next
  case (Cons a as)
  define Q where "Q t \<longleftrightarrow> ss_close_when_empty t \<or> calls_ok A t \<and> a \<in> set (completed t)" for t :: "('a, 'b, 'c) channel_scheme"
  have n: "ends_in Q (send_next co dbs f u)" if "answered a s u" "harmless f" for u f
    using answered_ok [OF that(1) ok] that
    by (intro ends_in_mono [OF send_next_ok [OF that(2), of A]]) (auto simp: answered_def Q_def)
  have c: "ss_close_when_empty t \<Longrightarrow> Q t" for t by (simp add: Q_def)
  have "as = []" using ok Cons by (simp add: calls_ok_def)
  then have "ends_in Q (Channel_OnMessageRecived co opt dbs n s)"
    unfolding Channel_OnMessageRecived_def Let_def
    by (auto simp: Cons call_at_def set_status_eq OnMessageError_eq cancelled_def call_put_def answered_def completed_def
        run_done_def post_task_def intro!: ends_in_intros n c split: option.splits prod.splits if_splits)
  then show ?thesis using Cons \<open>as = []\<close> by (simp add: Q_def ends_in_def)
qed

text \<open>The frame of the handlers of the stream.\<close>

lemma chan_frame_quiet: "chan_frame s t \<Longrightarrow> quiet s t"
  by (simp add: chan_frame_def quiet_def)

definition read_frame :: "nat \<Rightarrow> ('m, 'd, 'a) channel_scheme \<Rightarrow> ('m, 'd, 'a) channel_scheme \<Rightarrow> bool" where
  "read_frame dbs s t \<longleftrightarrow> quiet s t \<and> (receiving dbs (ss_readbuf s) \<longrightarrow>
     receiving dbs (ss_readbuf t) \<and> length (content (ss_readbuf t)) \<le> length (content (ss_readbuf s)))"

lemma channel_received_frame:
  "ends_in (read_frame dbs s) (Channel_OnMessageRecived co opt dbs n s)"
proof -
  let ?b0 = "ReadBuffer_BeginPacket (ss_readbuf s)"
  have B: "receiving dbs ?b0 = receiving dbs (ss_readbuf s)" "content ?b0 = content (ss_readbuf s)"
    by (simp_all add: ReadBuffer_BeginPacket_def content_def receiving_def wf_buf_def)
  have R: "receiving dbs (ss_readbuf s) \<longrightarrow> receiving dbs b \<and> length (content b) \<le> length (content (ss_readbuf s))"
    if "zero_copy_read k ?b0 k = Some (d, b)" for k d b
  proof
    assume r: "receiving dbs (ss_readbuf s)"
    then have "wf_buf ?b0" "uniform dbs (que ?b0)" using B by (simp_all add: receiving_def)
    from zero_copy_read_takes [OF this order_refl, of k]
    show "receiving dbs b \<and> length (content b) \<le> length (content (ss_readbuf s))"
      using that B r by (auto simp: receiving_def)
  qed
  define Q where "Q t \<longleftrightarrow> read_frame dbs s t" for t
  have n: "ends_in Q (send_next co dbs f u)" if "read_frame dbs s u" "harmless f" for u f
    by (rule ends_in_mono [OF send_next_quiet [OF that(2)]])
      (use that in \<open>auto simp: chan_frame_def read_frame_def quiet_def Q_def\<close>)
  have c: "read_frame dbs s t \<Longrightarrow> Q t" for t by (simp add: Q_def)
  have "ends_in Q (Channel_OnMessageRecived co opt dbs n s)"
    unfolding Channel_OnMessageRecived_def Let_def
    by (auto simp: call_at_def set_status_eq OnMessageError_eq cancelled_def call_put_def read_frame_def quiet_def dels_def
        run_done_def post_task_def ended_def B intro!: ends_in_intros n c split: option.splits prod.splits if_splits list.splits
        dest!: R)
  then show ?thesis by (simp add: Q_def ends_in_def)
qed

section \<open>What is counted as sent\<close>

text \<open>The loop adds the same \<open>buffer_size\<close> again and again until the size of the packet is reached: any
  part of a request that is sent counts as the whole.\<close>

lemma word_plus_small:
  fixes w :: "32 word"
  assumes "unat w < 2 ^ 31" "0 < n" "n < 2 ^ 31"
  shows "unat (w + word_of_int n) = unat w + nat n"
proof -
  have "unat (word_of_int n :: 32 word) = nat n"
    using assms(2,3) by (simp add: unat_eq_nat_uint uint_word_of_int)
  moreover have "nat n < 2 ^ 31" using assms(3) by simp
  ultimately show ?thesis using assms(1) by (simp add: unat_plus_if')
qed

lemma sended_loop_Nil: "ch_wait s = [] \<Longrightarrow> sended_loop opt n s = Some (Done s)"
  by (simp add: sended_loop.simps)

lemma sended_loop_one:
  assumes "ch_wait s = [a]" "ch_calls s a = Some c" "unat (ct_req_pack_size c) < 2 ^ 31"
    and "unat (ct_req_send_size c) < 2 ^ 31" "0 < n" "n < 2 ^ 31"
  shows "\<exists>k. sended_loop opt n s = Some (Done (s\<lparr>ch_calls := (ch_calls s)(a \<mapsto> c\<lparr>ct_req_send_size := k\<rparr>), ch_wait := [],
      ch_done := ch_done s @ [a], ss_posted := ss_posted s @ [Set_read_timeout (read_timeout_sec opt)]\<rparr>))
    \<and> ct_req_pack_size c \<le> k"
  using assms(1-4)
proof (induction "unat (ct_req_pack_size c) - unat (ct_req_send_size c)" arbitrary: s c rule: less_induct)
  case less
  let ?k = "ct_req_send_size c + word_of_int n"
  let ?s = "s\<lparr>ch_calls := (ch_calls s)(a \<mapsto> c\<lparr>ct_req_send_size := ?k\<rparr>)\<rparr>"
  have k: "unat ?k = unat (ct_req_send_size c) + nat n"
    by (rule word_plus_small) (use less.prems assms(5,6) in auto)
  show ?case
  proof (cases "ct_req_pack_size c \<le> ?k")
    case True
    then show ?thesis using less.prems assms(5)
      by (intro exI [of _ ?k], subst sended_loop.simps) (simp add: sended_loop_Nil call_put_def post_task_def Let_def)
  next
    case False
    then have lt: "unat ?k < unat (ct_req_pack_size c)" by (simp add: word_le_nat_alt not_le)
    have step: "sended_loop opt n s = sended_loop opt n ?s"
      using less.prems assms(5) False by (subst sended_loop.simps) (simp add: call_put_def Let_def)
    have "\<exists>j. sended_loop opt n ?s = Some (Done (?s\<lparr>ch_calls := (ch_calls ?s)(a \<mapsto> c\<lparr>ct_req_send_size := ?k, ct_req_send_size := j\<rparr>), ch_wait := [],
      ch_done := ch_done ?s @ [a], ss_posted := ss_posted ?s @ [Set_read_timeout (read_timeout_sec opt)]\<rparr>))
      \<and> ct_req_pack_size (c\<lparr>ct_req_send_size := ?k\<rparr>) \<le> j"
      by (rule less.hyps) (use k lt assms(5) less.prems in auto)
    then show ?thesis using step by auto
  qed
qed

theorem OnMessageSended_ok:
  assumes ok: "calls_ok A s" and n: "n < 2 ^ 31"
    and sz: "\<And>a c. a \<in> set (ch_wait s) \<Longrightarrow> ch_calls s a = Some c \<Longrightarrow>
      unat (ct_req_pack_size c) < 2 ^ 31 \<and> unat (ct_req_send_size c) < 2 ^ 31"
  shows "\<exists>t. Channel_OnMessageSended opt n s = Done t \<and> calls_ok A t \<and> completed t = completed s
    \<and> (0 < n \<longrightarrow> ch_wait t = [] \<and> ch_done t = ch_done s @ ch_wait s)"
proof (cases "0 < n \<and> ch_wait s \<noteq> []")
  case False
  then have "Channel_OnMessageSended opt n s = Done s"
    by (cases "ch_wait s") (auto simp: Channel_OnMessageSended_def sended_loop.simps)
  then show ?thesis using ok False by (cases "ch_wait s") auto
next
  case True
  then obtain a where a: "ch_wait s = [a]" "ch_done s = []" using ok
    by (cases "ch_wait s") (auto simp: calls_ok_def)
  then have "a \<in> A" using ok by (auto simp: calls_ok_def queued_def)
  then obtain c where c: "ch_calls s a = Some c" using ok by (auto simp: calls_ok_def)
  obtain k where k: "sended_loop opt n s = Some (Done (s\<lparr>ch_calls := (ch_calls s)(a \<mapsto> c\<lparr>ct_req_send_size := k\<rparr>), ch_wait := [],
      ch_done := ch_done s @ [a], ss_posted := ss_posted s @ [Set_read_timeout (read_timeout_sec opt)]\<rparr>))"
    using sended_loop_one [OF a(1) c] sz [OF _ c] a(1) n True by auto
  show ?thesis using ok a c k by (auto simp: Channel_OnMessageSended_def calls_ok_def queued_def completed_def)
qed

lemma sended_loop_quiet:
  assumes "sended_loop opt n s = Some r"
  shows "ends_in (quiet s) r"
proof (rule sended_loop.raw_induct [OF _ assms])
  fix f opt n r and s :: "('a, 'b) channel"
  assume IH: "\<And>opt n s r. f opt n s = Some r \<Longrightarrow> ends_in (quiet s) r"
    and r: "(case ch_wait s of [] \<Rightarrow> Some (Done s)
      | a # as \<Rightarrow>
          if n \<le> 0 then Some (Done s)
          else (case ch_calls s a of
            None \<Rightarrow> Some Fault
          | Some c \<Rightarrow>
              let c = c\<lparr>ct_req_send_size := ct_req_send_size c + word_of_int n\<rparr>; s = call_put a c s in
              if ct_req_pack_size c \<le> ct_req_send_size c
              then f opt (sint (ct_req_send_size c - ct_req_pack_size c))
                     (post_task (Set_read_timeout (read_timeout_sec opt))
                       (s\<lparr>ch_wait := as, ch_done := ch_done s @ [a]\<rparr>))
              else f opt n s)) = Some r"
  have to: "ends_in (quiet s) r" if "quiet s u" "f opt m u = Some r" for u m
    using IH [OF that(2)] that(1) by (simp add: ends_in_def quiet_def)
  have q: "quiet s (call_put a c s)"
    "quiet s (post_task (Set_read_timeout k) (call_put a c s\<lparr>ch_wait := as, ch_done := ds\<rparr>))" for a c k as ds
    by (simp_all add: quiet_def call_put_def post_task_def dels_def)
  show "ends_in (quiet s) r" using r to [OF q(1)] to [OF q(2)]
    by (auto simp: Let_def ends_in_intros(1) ends_in_def quiet_def split: list.splits if_splits option.splits)
qed

lemma OnMessageSended_quiet: "ends_in (quiet s) (Channel_OnMessageSended opt n s)"
  using sended_loop_quiet [of opt n s]
  by (cases "sended_loop opt n s") (auto simp: Channel_OnMessageSended_def ends_in_intros(1))

section \<open>The channel as a stream and as a handler of messages\<close>

lemma channel_error_quiet: "ends_in (quiet s) (Channel_OnMessageError c s)"
  by (simp add: OnMessageError_eq ends_in_def quiet_def cancelled_def dels_def)

lemma OnClose_quiet: "ends_in (quiet s) (Channel_OnClose s)"
  by (auto simp: Channel_OnClose_def ss_ReleaseRef_def OnMessageError_eq cancelled_def quiet_def dels_def intro!: ends_in_intros)

lemma OnWriteable_quiet: "ends_in (quiet s) (Channel_OnWriteable co dbs s)"
  unfolding Channel_OnWriteable_def
  by (auto intro!: ends_in_intros ends_in_mono [OF send_next_quiet chan_frame_quiet]) (auto simp: quiet_def)

lemma channel_once:
  "once (Channel_OnMessageRecived co opt dbs n)" "once (Channel_OnMessageSended opt n)" "once Channel_OnClose"
  "once (Channel_OnWriteable co dbs)" "once OnRecvTimeout" "once OnSendTimeout"
  unfolding OnRecvTimeout_def OnSendTimeout_def
proof -
  have "ends_in (quiet s) (Channel_OnMessageRecived co opt dbs n s)" for s
    by (rule ends_in_mono [OF channel_received_frame]) (simp add: read_frame_def)
  then show "once (Channel_OnMessageRecived co opt dbs n)" by (rule quiet_once(1))
qed (rule quiet_once(1), rule channel_error_quiet OnClose_quiet OnWriteable_quiet OnMessageSended_quiet)+

interpretation client_stream: connect_class "client_hooks co opt dbs names" dbs for co opt dbs names
  by unfold_locales (auto simp: client_hooks_def intro: channel_once)

interpretation client_handler: packet_handler dbs "Channel_OnMessageRecived co opt dbs" for co opt dbs
  by unfold_locales (drule ends_inD [OF channel_received_frame], simp add: read_frame_def)

text \<open>No closure is set for the errors of the stream: a response that cannot be parsed calls the null pointer.\<close>

theorem malformed_response_faults:
  assumes "wf_buf (ss_readbuf s)" "total (que (ss_readbuf s)) < 2 ^ 31"
    and "parse_bytes res_turn (buffer_cells (ss_readbuf s)) (st_resheader s) = Done (HTTP_PARSER_FAIL, h, k)"
  shows "ConnectStream_OnRecived (client_hooks co opt dbs names) dbs n s = Fault"
  by (rule OnRecived_Fault(2))
    (simp add: ConnectStream_turn_bytes [OF assms] Let_def fail_with_def run_error_def client_hooks_def)

section \<open>A request on its way\<close>

definition request_header :: "string \<Rightarrow> http_request \<Rightarrow> http_request" where
  "request_header name r = SetPath (''/'' @ name) (HttpRequestHeader_Reset r)"

lemma request_header_order:
  "SetPath (CHR ''/'' # name) (HttpRequestHeader_Reset r) = request_header name r"
  by (simp add: request_header_def)

text \<open>The names of methods that fit into the token buffer of the parser.\<close>

definition name_ok :: "string \<Rightarrow> bool" where
  "name_ok name \<longleftrightarrow> name \<noteq> [] \<and> length name < 253 \<and> set name \<inter> {NUL, CR, SP} = {}"

lemma name_ok_plain: "name_ok name \<Longrightarrow> plain (''/'' @ name)"
  by (auto simp: name_ok_def plain_def MAX_KEY_LEN_def)

lemma request_header_ok: "name_ok name \<Longrightarrow> request_ok (request_header name r)"
  by (simp add: request_ok_def name_ok_def header_ok_def smap_ok_def request_header_def SetPath_def
      HttpRequestHeader_Reset_def HttpHeader_Reset_def plain_def MAX_KEY_LEN_def)

lemma request_header_fields:
  fixes n s r name
  defines "h \<equiv> SetContentLength n (SetSeq s (request_header name r))"
  shows "h_version h = ''HTTP/1.1''" "rq_path h = ''/'' @ name" "rq_method h = ''POST''"
    "h_headers h = [(Content_Length_key, dec_str (unat n)), (Seq_key, dec_str (unat s))]"
  by (simp_all add: h_def SetContentLength_def SetSeq_def request_header_def SetHeader_def SetPath_def HttpRequestHeader_Reset_def
      HttpHeader_Reset_def Content_Length_key_def Seq_key_def less_char_def)

lemma request_header_length:
  assumes "name_ok name"
  shows "length (concat (HttpRequest_lines (SetContentLength n (SetSeq s (request_header name r))))) < MAX_HEADER_SIZE"
proof -
  let ?cut = "takeWhile (\<lambda>c. c \<noteq> NUL)"
  have n: "length (dec_str (unat n)) \<le> 10" by (rule length_dec_str) (use unsigned_less [of n, where ?'a = nat] in simp_all)
  have s: "length (dec_str (unat s)) \<le> 20" by (rule length_dec_str) (use unsigned_less [of s, where ?'a = nat] in simp_all)
  have cut: "length (?cut xs) \<le> length xs" for xs by (rule List.length_takeWhile_le)
  have "length (?cut (dec_str (unat n))) \<le> 10" using cut [of "dec_str (unat n)"] n by linarith
  moreover have "length (?cut (dec_str (unat s))) \<le> 20" using cut [of "dec_str (unat s)"] s by linarith
  moreover have "length (?cut name) \<le> 255" using cut [of name] assms by (simp add: name_ok_def)
  ultimately show ?thesis
    by (simp add: HttpRequest_lines_def header_lines_def request_header_fields cstr_simps dec_str_no_NUL MAX_HEADER_SIZE_def)
      (simp add: Content_Length_key_def Seq_key_def c_str_def)
qed

definition request_bytes :: "string \<Rightarrow> 64 word \<Rightarrow> http_request \<Rightarrow> string \<Rightarrow> string" where
  "request_bytes name seq r body =
     concat (HttpRequest_lines (SetContentLength (word_of_nat (length body)) (SetSeq seq (request_header name r)))) @ body"

theorem SendToServer_writes:
  assumes c: "ch_calls s a = Some c" "cc_method c = Some name" "ct_request c = Some m" "name_ok name"
    and b: "idle dbs (ss_writebuf s)" "it_pos (writepos (ss_writebuf s)) + MAX_HEADER_SIZE \<le> dbs" "dbs < 2 ^ 31"
    and m: "co_serialize co m = Some body" "length body + dbs < length (que (ss_writebuf s)) * dbs"
  defines "seq \<equiv> scast (ch_seq s + 1)"
  shows "\<exists>t n. SendToServer co dbs a s = Done (0, t) \<and> sent s t \<and> chan_frame s t \<and> wf_buf (ss_writebuf t)
    \<and> content (ss_writebuf t) = request_bytes name seq (st_reqheader s) body
    \<and> ch_calls t a = Some (c\<lparr>ct_seq := seq, ct_req_pack_size := n\<rparr>)
    \<and> n = word_of_nat (length (content (ss_writebuf t))) \<and> st_resheader t = st_resheader s"
proof -
  let ?h = "SetContentLength (word_of_nat (length body)) (SetSeq seq (request_header name (st_reqheader s)))"
  let ?ts = "HttpRequest_lines ?h" and ?w = "writepos (ss_writebuf s)"
  have ts: "?ts \<noteq> []" "concat ?ts \<noteq> []" "length (concat ?ts) < MAX_HEADER_SIZE"
    using request_header_length [OF c(4)] by (auto simp: HttpRequest_lines_def header_lines_def)
  obtain b1 bs b2 b3 where p: "begin_packet dbs (ss_writebuf s) = (b1, Some (?w, bs))"
    "zero_copy_write (length body) b1 body = Some b2" "it_diff (que b2) (writepos b2) bs = int (length body)"
    "put_header ?ts ?w b2 = Done b3" "wf_buf b3" "content b3 = concat ?ts @ body"
    "it_diff (que b3) (writepos b3) ?w = int (length (concat ?ts @ body))" "list_all (\<lambda>p. length (pbuf p) = dbs) (que b3)"
    using packet_written [OF b(1,2) m(2) ts] by auto
  have l: "packet_length b2 bs = word_of_nat (length body)"
    "packet_length b3 ?w = word_of_nat (length (concat ?ts @ body))"
    unfolding packet_length_def p(3,7) by simp_all
  let ?c = "c\<lparr>ct_seq := seq, ct_req_pack_size := word_of_nat (length (concat ?ts @ body))\<rparr>"
  let ?t = "ModEventAsync True True (call_put a ?c ((call_put a (c\<lparr>ct_seq := seq\<rparr>) (s\<lparr>ch_seq := ch_seq s + 1\<rparr>))
    \<lparr>ss_writebuf := b3, st_reqheader := ?h\<rparr>))"
  have "SendToServer co dbs a s = Done (0, ?t)"
    using c(1-3) p(4) m(1)
    by (simp add: SendToServer_def call_at_def GenerateSeq_def Let_def call_put_def seq_def [symmetric] request_header_order
      p(1,2) l del: length_append)
  then show ?thesis using p(5,6) c(1)
    by (intro exI [of _ ?t] exI [of _ "word_of_nat (length (concat ?ts @ body))"])
      (auto simp: sent_def chan_frame_def call_put_def post_task_def dels_def request_bytes_def)
qed

text \<open>A request that cannot be written: its call gets its status, but is queued as sent and gets another
  when the connection closes.\<close>

theorem failed_send_completes_twice:
  assumes q: "ch_send s = [a]" "ch_wait s = []" "ch_done s = []"
    and c: "ch_calls s a = Some c" "cc_method c = Some name" "ct_request c = Some m" "ss_refs s \<noteq> 1"
    and f: "co_serialize co m = None \<or> snd (begin_packet dbs (ss_writebuf s)) = None"
  shows "\<exists>t u. Channel_OnWriteable co dbs s = Done t \<and> ch_wait t = [a] \<and> completed t = completed s @ [a]
    \<and> Channel_OnClose t = Done u \<and> completed u = completed s @ [a, a]"
proof -
  have "\<exists>t. SendToServer co dbs a (s\<lparr>ch_send := []\<rparr>) = Done (- 1, t) \<and> ch_send t = [] \<and> ch_wait t = [] \<and> ch_done t = []
      \<and> completed t = completed s @ [a] \<and> dom (ch_calls t) = dom (ch_calls s) \<and> ss_refs t = ss_refs s"
  proof (cases "begin_packet dbs (ss_writebuf s)")
    case (Pair b r)
    have dom: "dom ((ch_calls s)(a \<mapsto> x)) = dom (ch_calls s)" for x using c(1) by auto
    have n: "co_serialize co m = None" if "r = Some x" for x using f Pair that by simp
    show ?thesis
      using q c Pair n
      by (cases r)
        (auto simp: SendToServer_def call_at_def GenerateSeq_def Let_def call_put_def OnMessageError_eq queued_def cancelled_def
          set_status_eq completed_def cancel_log_def statused_def dom split: if_splits)
  qed
  then obtain t where t: "SendToServer co dbs a (s\<lparr>ch_send := []\<rparr>) = Done (- 1, t)" "ch_send t = []" "ch_wait t = []" "ch_done t = []"
      "completed t = completed s @ [a]" "dom (ch_calls t) = dom (ch_calls s)" "ss_refs t = ss_refs s" by blast
  have w: "Channel_OnWriteable co dbs s = Done (t\<lparr>ch_wait := [a]\<rparr>)"
    using q t by (simp add: Channel_OnWriteable_def send_next_def Let_def)
  have "a \<in> dom (ch_calls t)" using t(6) c(1) by auto
  then have "\<exists>u. Channel_OnClose (t\<lparr>ch_wait := [a]\<rparr>) = Done u \<and> completed u = completed s @ [a, a]"
    using t c(4) by (auto simp: Channel_OnClose_def OnMessageError_eq queued_def cancelled_def cancel_log_def completed_def ss_ReleaseRef_def)
  then show ?thesis using w t(5) by (auto simp: completed_def)
qed

theorem response_completes:
  assumes q: "ch_done s = [a]" "ch_send s = []" and c: "ch_calls s a = Some c" "ct_response c = Some r"
    and rb: "receiving dbs (ss_readbuf s)"
    and p: "co_parse co (content (ss_readbuf s)) = (Some m, length (content (ss_readbuf s)))"
    and l: "0 < GetContentLength (st_resheader s)"
  defines "st \<equiv> sint (rs_status (st_resheader s))"
  shows "\<exists>t. Channel_OnMessageRecived co opt dbs n s = Done t
    \<and> isEmpty (ss_readbuf t) \<and> que (ss_readbuf t) = que (ss_readbuf s) \<and> writepos (ss_readbuf t) = writepos (ss_readbuf s)
    \<and> ch_done t = [] \<and> ch_send t = [] \<and> ch_wait t = ch_wait s \<and> ch_log t = ch_log s @ [(a, st)]
    \<and> ch_calls t = (ch_calls s)(a \<mapsto> client_SetStatus st (c\<lparr>ct_response := Some m\<rparr>))
    \<and> ch_ran t = ch_ran s @ (case cc_done c of None \<Rightarrow> [] | Some d \<Rightarrow> [d])
    \<and> ss_close_when_empty t = ss_close_when_empty s"
proof -
  let ?all = "length (content (ss_readbuf s))"
  let ?b0 = "ReadBuffer_BeginPacket (ss_readbuf s)"
  have B: "content ?b0 = content (ss_readbuf s)" "que ?b0 = que (ss_readbuf s)" "writepos ?b0 = writepos (ss_readbuf s)"
    "wf_buf ?b0" "uniform dbs (que ?b0)"
    using rb by (simp_all add: ReadBuffer_BeginPacket_def content_def receiving_def wf_buf_def)
  obtain b where b: "zero_copy_read ?all ?b0 ?all = Some (content (ss_readbuf s), b)" "wf_buf b" "content b = []"
    "que b = que (ss_readbuf s)" "writepos b = writepos (ss_readbuf s)"
    using zero_copy_read_takes [OF B(4,5) order_refl, of ?all] B by auto
  have e: "isEmpty b" using content_Nil_iff [OF b(2)] b(3) by simp
  show ?thesis using q c p l b e B(1)
    by (auto simp: Channel_OnMessageRecived_def Let_def call_at_def call_put_def set_status_eq run_done_def send_next_def
      post_task_def st_def split: option.splits)
qed

section \<open>Runs of a channel\<close>

text \<open>The operations that drive a channel: calls of the user with controllers of their own, and the events
  of its stream. Steps in which a request could not be written are left out: they mark the connection to be
  closed.\<close>

inductive chan_step :: "'m codec \<Rightarrow> options \<Rightarrow> nat \<Rightarrow> nat set \<times> ('m, 'd) channel \<Rightarrow> nat set \<times> ('m, 'd) channel \<Rightarrow> bool"
  for co opt dbs where
  call: "a \<notin> A \<Longrightarrow> CallMethod name a req res d s = Done t \<Longrightarrow> chan_step co opt dbs (A, s) (insert a A, t)"
| writeable: "Channel_OnWriteable co dbs s = Done t \<Longrightarrow> \<not> ss_close_when_empty t \<Longrightarrow> chan_step co opt dbs (A, s) (A, t)"
| sended: "n < 2 ^ 31 \<Longrightarrow> (\<And>a c. a \<in> set (ch_wait s) \<Longrightarrow> ch_calls s a = Some c \<Longrightarrow>
      unat (ct_req_pack_size c) < 2 ^ 31 \<and> unat (ct_req_send_size c) < 2 ^ 31) \<Longrightarrow>
    Channel_OnMessageSended opt n s = Done t \<Longrightarrow> chan_step co opt dbs (A, s) (A, t)"
| recived: "Channel_OnMessageRecived co opt dbs n s = Done t \<Longrightarrow> \<not> ss_close_when_empty t \<Longrightarrow> chan_step co opt dbs (A, s) (A, t)"
| failed: "Channel_OnMessageError c s = Done t \<Longrightarrow> chan_step co opt dbs (A, s) (A, t)"

lemma chan_step_ok:
  assumes "chan_step co opt dbs (A, s) (B, t)" "calls_ok A s"
  shows "calls_ok B t \<and> A \<subseteq> B"
  using assms
proof (cases rule: chan_step.cases)
  case (call a name req res d)
  then have "a \<in> dom (ch_calls s)"
    by (auto simp: CallMethod_def set_status_def call_at_def split: if_splits option.splits)
  then show ?thesis using CallMethod_ok [OF assms(2) call(2), of name req res d] call(1,3) by auto
next
  case writeable
  then show ?thesis using ends_inD [OF OnWriteable_ok [OF assms(2)] writeable(2)] by simp
next
  case (sended n)
  then show ?thesis using OnMessageSended_ok [OF assms(2) sended(2,3), where opt = opt] by auto
next
  case (recived n)
  then show ?thesis using ends_inD [OF OnMessageRecived_ok [OF assms(2)] recived(2)] by simp
next
  case (failed c)
  then show ?thesis using OnMessageError_completes [OF assms(2), of c] by auto
qed

lemma chan_run_ok:
  assumes "rtranclp (chan_step co opt dbs) (A, s) (B, t)" "calls_ok A s"
  shows "calls_ok B t \<and> A \<subseteq> B"
  using assms
proof (induction "(B, t)" arbitrary: B t rule: rtranclp_induct)
  case (step y)
  then show ?case using chan_step_ok [of co opt dbs "fst y" "snd y" B t] by (cases y) auto
qed simp

end
