(* ===== verification/Rpc_Call.thy ===== *)
theory Rpc_Call
  imports Rpc_Channel Server_Connect
begin

text \<open>
  A whole call: the request that \<open>RpcChannelImpl\<close> writes is received, dispatched and answered by
  \<open>ServerConnect\<close>, and the answer completes the call.
\<close>

section \<open>The client writes\<close>

lemma request_bytes_length: "name_ok name \<Longrightarrow> length (request_bytes name seq r body) < MAX_HEADER_SIZE + length body"
  using request_header_length [of name "word_of_nat (length body)" seq r] by (simp add: request_bytes_def)

lemma request_bytes_ne: "request_bytes name seq r body \<noteq> []"
  by (simp add: request_bytes_def HttpRequest_lines_def)

theorem request_sent:
  assumes q: "ch_send s = [a]" "ch_wait s = []" "ch_done s = []"
    and c: "ch_calls s a = Some c" "cc_method c = Some name" "ct_request c = Some m" "name_ok name" "ct_req_send_size c = 0"
    and wb: "idle dbs (ss_writebuf s)" "it_pos (writepos (ss_writebuf s)) + MAX_HEADER_SIZE \<le> dbs" "dbs < 2 ^ 31"
    and m: "co_serialize co m = Some body" "length body + dbs < length (que (ss_writebuf s)) * dbs"
      "MAX_HEADER_SIZE + length body < 2 ^ 31"
  defines "seq \<equiv> scast (ch_seq s + 1)"
  shows "\<exists>t t1 k n. Channel_OnWriteable co dbs s = Done t \<and> content (ss_writebuf t) = request_bytes name seq (st_reqheader s) body
    \<and> Channel_OnMessageSended opt (int (length (content (ss_writebuf t)))) t = Done t1
    \<and> ch_send t1 = [] \<and> ch_wait t1 = [] \<and> ch_done t1 = [a] \<and> ch_log t1 = ch_log s \<and> ch_ran t1 = ch_ran s
    \<and> ch_calls t1 a = Some (c\<lparr>ct_seq := seq, ct_req_pack_size := k, ct_req_send_size := n\<rparr>)
    \<and> ss_readbuf t1 = ss_readbuf s \<and> st_resheader t1 = st_resheader s \<and> ss_close_when_empty t1 = ss_close_when_empty s"
proof -
  let ?s = "s\<lparr>ch_send := []\<rparr>" and ?w = "request_bytes name seq (st_reqheader s) body"
  obtain t n where t: "SendToServer co dbs a ?s = Done (0, t)" "sent ?s t" "chan_frame ?s t"
    "content (ss_writebuf t) = ?w" "ch_calls t a = Some (c\<lparr>ct_seq := seq, ct_req_pack_size := n\<rparr>)"
    "n = word_of_nat (length (content (ss_writebuf t)))" "st_resheader t = st_resheader s"
    using SendToServer_writes [of ?s a c name m dbs co body] c wb m unfolding seq_def by auto
  let ?t = "t\<lparr>ch_wait := [a]\<rparr>"
  have w: "Channel_OnWriteable co dbs s = Done ?t"
    using q t(1,2) by (simp add: Channel_OnWriteable_def send_next_def Let_def sent_def)
  have l: "length ?w < 2 ^ 31" using request_bytes_length [OF c(4), of seq "st_reqheader s" body] m(3) by linarith
  then have n: "unat n = length ?w" using t(4,6) by (simp add: unsigned_of_nat take_bit_nat_eq_self)
  have n31: "unat n < 2 ^ 31" using n l by simp
  have pos: "0 < int (length ?w)" using request_bytes_ne by simp
  have li: "int (length ?w) < 2 ^ 31" using l by simp
  obtain k where "sended_loop opt (int (length ?w)) ?t = Some (Done (?t\<lparr>ch_calls := (ch_calls ?t)
      (a \<mapsto> c\<lparr>ct_seq := seq, ct_req_pack_size := n, ct_req_send_size := k\<rparr>), ch_wait := [],
      ch_done := ch_done ?t @ [a], ss_posted := ss_posted ?t @ [Set_read_timeout (read_timeout_sec opt)]\<rparr>))"
    using sended_loop_one [of ?t a "c\<lparr>ct_seq := seq, ct_req_pack_size := n\<rparr>" "int (length ?w)" opt] n31 pos li t(5) c(5) by auto
  then have "Channel_OnMessageSended opt (int (length (content (ss_writebuf ?t)))) ?t = Done (?t\<lparr>ch_calls := (ch_calls ?t)
      (a \<mapsto> c\<lparr>ct_seq := seq, ct_req_pack_size := n, ct_req_send_size := k\<rparr>), ch_wait := [],
      ch_done := ch_done ?t @ [a], ss_posted := ss_posted ?t @ [Set_read_timeout (read_timeout_sec opt)]\<rparr>)"
    using t(4) by (simp add: Channel_OnMessageSended_def)
  then show ?thesis using w t q
    by (intro exI conjI) (assumption | simp add: sent_def chan_frame_def)+
qed
section \<open>The server answers\<close>

lemma header_text_request:
  assumes "name_ok name" "length body < 2 ^ 31"
  shows "header_text (concat (HttpRequest_lines (SetContentLength (word_of_nat (length body)) (SetSeq seq (request_header name r)))))
    (HttpRequestHeader_Reset r') (\<lambda>h. (rq_path h = CHR ''/'' # name \<and> GetSeq h = seq) \<and> GetContentLength h = int (length body))"
  unfolding header_text_def
proof (intro allI impI)
  fix xs ys :: "(iter \<times> char) list"
  let ?n = "word_of_nat (length body) :: 32 word"
  assume xs: "map snd xs = concat (HttpRequest_lines (SetContentLength ?n (SetSeq seq (request_header name r))))"
  have n: "unat ?n = length body" using assms(2) by (simp add: unsigned_of_nat take_bit_nat_eq_self)
  then have "unat ?n < 2 ^ 31" using assms(2) by simp
  note R = request_fields_arrive [OF request_header_ok [OF assms(1)] this xs, of ys r']
  have "length (concat (HttpRequest_lines (SetContentLength ?n (SetSeq seq (request_header name r))))) = length xs"
    by (simp flip: xs)
  moreover have "rq_path (request_header name r) = CHR ''/'' # name" by (simp add: request_header_def SetPath_def)
  ultimately show "\<exists>h. parse_bytes req_turn (xs @ ys) (HttpRequestHeader_Reset r') = Done (HTTP_PASER_FINISH, h,
      length (concat (HttpRequest_lines (SetContentLength ?n (SetSeq seq (request_header name r)))))) \<and>
      (rq_path h = CHR ''/'' # name \<and> GetSeq h = seq) \<and> GetContentLength h = int (length body)"
    using R n by metis
qed

definition response_bytes :: "64 word \<Rightarrow> http_response \<Rightarrow> string \<Rightarrow> string" where
  "response_bytes seq r body =
     concat (HttpReponse_lines (SetContentLength (word_of_nat (length body)) (SetSeq seq (server_header r)))) @ body"

theorem request_served:
  assumes name: "name_ok name" and len: "length body < 2 ^ 31" "length body + 1 < total (que (ss_readbuf s))"
    and rb: "receiving dbs (ss_readbuf s)" "content (ss_readbuf s) = []" "st_reqheader s = HttpRequestHeader_Reset r'"
    and find: "sv_find sv name = (True, Some svc, Some md)" and parse: "sv_parse sv svc md body = (Some m, length body)"
    and call: "sv_call sv svc md m (fresh_call seq m) = (res, c)" "\<not> Failed c"
    and ser: "sv_serialize sv res = Some out" "length out + dbs < length (que (ss_writebuf s)) * dbs"
    and wb: "idle dbs (ss_writebuf s)" "it_pos (writepos (ss_writebuf s)) + MAX_HEADER_SIZE \<le> dbs" "dbs < 2 ^ 31"
    and none: "sc_pending s = []" "\<not> ss_close_when_empty s"
    and a: "arrived (request_bytes name seq r body) s s1"
  shows "\<exists>t. MessageStream_OnRecived (server_hooks sv addr dbs names) dbs (int (length (request_bytes name seq r body))) s1 = Done (0, t)
    \<and> isEmpty (ss_readbuf t) \<and> content (ss_writebuf t) = response_bytes (ct_seq c) (st_resheader s) out
    \<and> sc_pending t = [sc_next s]"
proof -
  let ?hdr = "concat (HttpRequest_lines (SetContentLength (word_of_nat (length body)) (SetSeq seq (request_header name r))))"
  let ?hk = "server_hooks sv addr dbs names"
  have np: "\<not> isParsed (st_reqheader s)" using rb(3) by (simp add: isParsed_def HttpRequestHeader_Reset_def HttpHeader_Reset_def)
  note H = header_text_request [OF name len(1), of seq r r', folded rb(3)]
  obtain b h where e: "MessageStream_turn ?hk dbs (int (length (?hdr @ body))) s1 =
      handle_packet ?hk dbs (\<lambda>s. s\<lparr>st_reqheader := HttpRequestHeader_Reset (st_reqheader s)\<rparr>) (int (length body))
        (s1\<lparr>ss_readbuf := b, st_reqheader := h\<rparr>)"
    and b: "receiving dbs b" "content b = body" and h: "rq_path h = CHR ''/'' # name" "GetSeq h = seq"
    using whole_event [OF rb(1,2) np H len(2) a [unfolded request_bytes_def], of ?hk] by blast
  let ?u = "s1\<lparr>ss_readbuf := b, st_reqheader := h\<rparr>"
  have s1: "s1 = s\<lparr>ss_readbuf := ss_readbuf s1\<rparr>" using a by (auto simp: arrived_def)
  have u: "ss_writebuf ?u = ss_writebuf s" "sc_pending ?u = []" "st_resheader ?u = st_resheader s" "sc_next ?u = sc_next s"
    "ss_close_when_empty ?u = False" "ss_readbuf ?u = b" "st_reqheader ?u = h"
    using none by (subst s1, simp)+
  have "\<exists>t. ServerConnect_OnMessageRecived sv addr dbs (int (length body)) ?u = Done t
    \<and> isEmpty (ss_readbuf t) \<and> que (ss_readbuf t) = que b \<and> writepos (ss_readbuf t) = writepos b
    \<and> wf_buf (ss_writebuf t) \<and> content (ss_writebuf t) = response_bytes (ct_seq c) (st_resheader s) out
    \<and> sc_pending t = [sc_next s] \<and> \<not> ss_close_when_empty t"
    using request_answered [of ?u name sv svc md dbs m res c out addr "int (length body)", unfolded u]
      h name find b parse call ser wb by (auto simp: name_ok_def response_bytes_def)
  then obtain t where t: "ServerConnect_OnMessageRecived sv addr dbs (int (length body)) ?u = Done t"
    "isEmpty (ss_readbuf t)" "que (ss_readbuf t) = que b" "writepos (ss_readbuf t) = writepos b"
    "content (ss_writebuf t) = response_bytes (ct_seq c) (st_resheader s) out"
    "sc_pending t = [sc_next s]" "\<not> ss_close_when_empty t" by blast
  let ?r = "\<lambda>s. s\<lparr>st_reqheader := HttpRequestHeader_Reset (st_reqheader s)\<rparr>"
  have "handle_packet ?hk dbs ?r (int (length body)) ?u = Done (Return 0, ?r t)"
    by (rule handle_packet_all [where f = "ServerConnect_OnMessageRecived sv addr dbs"])
      (use t b in \<open>simp_all add: server_hooks_def\<close>)
  then have "MessageStream_OnRecived ?hk dbs (int (length (?hdr @ body))) s1 = Done (0, ?r t)"
    using e by (intro OnRecived_Return(1)) simp
  then show ?thesis using t by (intro exI [of _ "?r t"]) (simp add: request_bytes_def)
qed

section \<open>The client receives\<close>

theorem response_received:
  assumes len: "0 < length body" "length body < 2 ^ 31" "length body + 1 < total (que (ss_readbuf s))"
    and rb: "receiving dbs (ss_readbuf s)" "content (ss_readbuf s) = []" "st_resheader s = HttpReponseHeader_Reset r'"
    and q: "ch_done s = [a]" "ch_send s = []" and c: "ch_calls s a = Some c" "ct_response c = Some m0"
    and p: "co_parse co body = (Some m, length body)" and open_: "\<not> ss_close_when_empty s"
    and a: "arrived (response_bytes seq r body) s s1"
  shows "\<exists>t. ConnectStream_OnRecived (client_hooks co opt dbs names) dbs (int (length (response_bytes seq r body))) s1 = Done (0, t)
    \<and> ch_done t = [] \<and> ch_send t = [] \<and> ch_wait t = ch_wait s \<and> ch_log t = ch_log s @ [(a, error_number OK)]
    \<and> ch_calls t = (ch_calls s)(a \<mapsto> client_SetStatus (error_number OK) (c\<lparr>ct_response := Some m\<rparr>))
    \<and> ch_ran t = ch_ran s @ (case cc_done c of None \<Rightarrow> [] | Some d \<Rightarrow> [d])
    \<and> isEmpty (ss_readbuf t)"
proof -
  let ?n = "word_of_nat (length body) :: 32 word"
  let ?hdr = "concat (HttpReponse_lines (SetContentLength ?n (SetSeq seq (server_header r))))"
  let ?hk = "client_hooks co opt dbs names"
  note A = arrivedD [OF a rb(1)]
  have wf: "wf_buf (ss_readbuf s1)" using A(2) by (simp add: receiving_def)
  have m1: "map snd (buffer_cells (ss_readbuf s1)) = ?hdr @ body"
    using buffer_cells_snd [OF wf] A(3) rb(2) by (simp add: response_bytes_def)
  obtain xs ys where xy: "buffer_cells (ss_readbuf s1) = xs @ ys" "map snd xs = ?hdr" using map_append_split m1 by metis
  have n: "unat ?n = length body" using len(2) by (simp add: unsigned_of_nat take_bit_nat_eq_self)
  then have n31: "unat ?n < 2 ^ 31" using len(2) by simp
  have h1: "st_resheader s1 = HttpReponseHeader_Reset r'" using a rb(3) by (auto simp: arrived_def)
  have lx: "length xs = length ?hdr" using xy(2) by (metis length_map)
  have st: "rs_status (server_header r) = 200" by (simp add: server_header_def SetHeader_def SetStatus_def)
  obtain h where h: "parse_bytes res_turn (buffer_cells (ss_readbuf s1)) (st_resheader s1) = Done (HTTP_PASER_FINISH, h, length ?hdr)"
    "rs_status h = 200" "GetContentLength h = int (length body)"
    using response_fields_arrive [OF server_header_ok n31 xy(2), of ys r'] xy(1) h1 n lx st by metis
  have np: "isParsed (st_resheader s1) \<Longrightarrow> body_mark (ss_readbuf s1) (st_resheader s1)"
    using h1 by (simp add: isParsed_def HttpReponseHeader_Reset_def HttpHeader_Reset_def)
  have d: "drop (length ?hdr) (content (ss_readbuf s1)) = body" using A(3) rb(2) by (simp add: response_bytes_def)
  let ?b = "read_n (ss_readbuf s1) (length ?hdr)"
  let ?u = "s1\<lparr>ss_readbuf := ?b, st_resheader := h\<rparr>"
  let ?r = "\<lambda>s. s\<lparr>st_resheader := HttpReponseHeader_Reset (st_resheader s)\<rparr>"
  have e: "ConnectStream_turn ?hk dbs (int (length (?hdr @ body))) s1 = handle_packet ?hk dbs ?r (int (length body)) ?u"
    and b: "receiving dbs ?b" "content ?b = body"
    using ConnectStream_complete(1) [OF A(2) np h(1), unfolded d, where hk = ?hk and n = "int (length (?hdr @ body))"]
      ConnectStream_complete(2,3) [OF A(2) np h(1), unfolded d] len A(4) h(3) by simp_all
  have s1: "s1 = s\<lparr>ss_readbuf := ss_readbuf s1\<rparr>" using a by (auto simp: arrived_def)
  have u: "ch_done ?u = [a]" "ch_send ?u = []" "ch_calls ?u = ch_calls s" "ch_wait ?u = ch_wait s" "ch_log ?u = ch_log s"
    "ch_ran ?u = ch_ran s" "ss_close_when_empty ?u = False" "ss_readbuf ?u = ?b" "st_resheader ?u = h"
    using q open_ by (subst s1, simp)+
  have "sint (rs_status h) = error_number OK" using h(2) by simp
  then obtain t where t: "Channel_OnMessageRecived co opt dbs (int (length body)) ?u = Done t"
    "isEmpty (ss_readbuf t)" "que (ss_readbuf t) = que ?b" "writepos (ss_readbuf t) = writepos ?b"
    "ch_done t = []" "ch_send t = []" "ch_wait t = ch_wait s" "ch_log t = ch_log s @ [(a, error_number OK)]"
    "ch_calls t = (ch_calls s)(a \<mapsto> client_SetStatus (error_number OK) (c\<lparr>ct_response := Some m\<rparr>))"
    "ch_ran t = ch_ran s @ (case cc_done c of None \<Rightarrow> [] | Some d \<Rightarrow> [d])" "\<not> ss_close_when_empty t"
    using response_completes [of ?u a c m0 dbs co m opt "int (length body)", unfolded u] c b p len(1) h(3) by auto
  have "handle_packet ?hk dbs ?r (int (length body)) ?u = Done (Return 0, ?r t)"
    by (rule handle_packet_all [where f = "Channel_OnMessageRecived co opt dbs"])
      (use t b in \<open>simp_all add: client_hooks_def\<close>)
  then have "ConnectStream_OnRecived ?hk dbs (int (length (?hdr @ body))) s1 = Done (0, ?r t)"
    using e by (intro OnRecived_Return(2)) simp
  then show ?thesis using t by (intro exI [of _ "?r t"]) (simp add: response_bytes_def)
qed

section \<open>The whole call\<close>

definition client_idle :: "nat \<Rightarrow> ('m, 'd) channel \<Rightarrow> bool" where
  "client_idle dbs s \<longleftrightarrow> ch_wait s = [] \<and> ch_done s = [] \<and> \<not> ss_close_when_empty s
     \<and> idle dbs (ss_writebuf s) \<and> it_pos (writepos (ss_writebuf s)) + MAX_HEADER_SIZE \<le> dbs
     \<and> receiving dbs (ss_readbuf s) \<and> content (ss_readbuf s) = [] \<and> (\<exists>r. st_resheader s = HttpReponseHeader_Reset r)"

definition server_idle :: "nat \<Rightarrow> 'm server_connect \<Rightarrow> bool" where
  "server_idle dbs s \<longleftrightarrow> sc_pending s = [] \<and> \<not> ss_close_when_empty s
     \<and> idle dbs (ss_writebuf s) \<and> it_pos (writepos (ss_writebuf s)) + MAX_HEADER_SIZE \<le> dbs
     \<and> receiving dbs (ss_readbuf s) \<and> content (ss_readbuf s) = [] \<and> (\<exists>r. st_reqheader s = HttpRequestHeader_Reset r)"

text \<open>The room that a message needs in a buffer of \<open>n\<close> pieces.\<close>

definition fits :: "nat \<Rightarrow> nat \<Rightarrow> string \<Rightarrow> bool" where
  "fits dbs n body \<longleftrightarrow> length body + dbs < n * dbs \<and> MAX_HEADER_SIZE + length body < 2 ^ 31"

theorem call_answered:
  assumes s: "client_idle dbs s" "ch_send s = [a]"
    and c: "ch_calls s a = Some c" "cc_method c = Some name" "ct_request c = Some m" "ct_response c = Some m0"
      "name_ok name" "ct_req_send_size c = 0"
    and u: "server_idle dbs u" and dbs: "0 < dbs" "dbs < 2 ^ 31"
    and req: "co_serialize co m = Some body" "fits dbs (length (que (ss_writebuf s))) body" "fits dbs (length (que (ss_readbuf u))) body"
    and find: "sv_find sv name = (True, Some svc, Some md)" and parse: "sv_parse sv svc md body = (Some m', length body)"
    and call: "sv_call sv svc md m' (fresh_call (scast (ch_seq s + 1)) m') = (res, d)" "\<not> Failed d"
    and ser: "sv_serialize sv res = Some out" "fits dbs (length (que (ss_writebuf u))) out" "fits dbs (length (que (ss_readbuf s))) out"
    and got: "co_parse co out = (Some res', length out)" "0 < length out"
  shows "\<exists>t t1. Channel_OnWriteable co dbs s = Done t
    \<and> Channel_OnMessageSended opt (int (length (content (ss_writebuf t)))) t = Done t1
    \<and> (\<forall>u1. arrived (content (ss_writebuf t)) u u1 \<longrightarrow>
        (\<exists>v. MessageStream_OnRecived (server_hooks sv addr dbs names) dbs (int (length (content (ss_writebuf t)))) u1 = Done (0, v)
         \<and> (\<forall>t2. arrived (content (ss_writebuf v)) t1 t2 \<longrightarrow>
             (\<exists>w c'. ConnectStream_OnRecived (client_hooks co opt dbs names') dbs (int (length (content (ss_writebuf v)))) t2 = Done (0, w)
              \<and> queued w = [] \<and> ch_log w = ch_log s @ [(a, error_number OK)]
              \<and> ch_calls w a = Some c' \<and> ct_response c' = Some res' \<and> ct_status c' = error_number OK
              \<and> ch_ran w = ch_ran s @ (case cc_done c of None \<Rightarrow> [] | Some f \<Rightarrow> [f])))))"
proof -
  obtain rs where S: "ch_wait s = []" "ch_done s = []" "\<not> ss_close_when_empty s" "idle dbs (ss_writebuf s)"
    "it_pos (writepos (ss_writebuf s)) + MAX_HEADER_SIZE \<le> dbs" "receiving dbs (ss_readbuf s)" "content (ss_readbuf s) = []"
    "st_resheader s = HttpReponseHeader_Reset rs" using s(1) by (auto simp: client_idle_def)
  obtain ru where U: "sc_pending u = []" "\<not> ss_close_when_empty u" "idle dbs (ss_writebuf u)"
    "it_pos (writepos (ss_writebuf u)) + MAX_HEADER_SIZE \<le> dbs" "receiving dbs (ss_readbuf u)" "content (ss_readbuf u) = []"
    "st_reqheader u = HttpRequestHeader_Reset ru" using u by (auto simp: server_idle_def)
  have tot: "length b + 1 < total (que x)" "length b < 2 ^ 31" "length b + dbs < length (que x) * dbs"
    if "fits dbs (length (que x)) b" "receiving dbs x" for b and x :: read_buffer
    using that dbs(1) receiving_total [OF that(2)] by (auto simp: fits_def)
  have f: "length b + dbs < n * dbs" "MAX_HEADER_SIZE + length b < 2 ^ 31" if "fits dbs n b" for b n
    using that by (auto simp: fits_def)
  let ?seq = "scast (ch_seq s + 1) :: 64 word"
  obtain t t1 k n where t: "Channel_OnWriteable co dbs s = Done t"
    "content (ss_writebuf t) = request_bytes name ?seq (st_reqheader s) body"
    "Channel_OnMessageSended opt (int (length (content (ss_writebuf t)))) t = Done t1"
    and t1: "ch_send t1 = []" "ch_wait t1 = []" "ch_done t1 = [a]" "ch_log t1 = ch_log s" "ch_ran t1 = ch_ran s"
    "ch_calls t1 a = Some (c\<lparr>ct_seq := ?seq, ct_req_pack_size := k, ct_req_send_size := n\<rparr>)"
    "ss_readbuf t1 = ss_readbuf s" "st_resheader t1 = st_resheader s" "ss_close_when_empty t1 = ss_close_when_empty s"
    using request_sent [OF s(2) S(1,2) c(1-3,5,6) S(4,5) dbs(2) req(1) f [OF req(2)], of opt] by blast
  let ?c = "c\<lparr>ct_seq := ?seq, ct_req_pack_size := k, ct_req_send_size := n\<rparr>"
  show ?thesis
  proof (rule exI [of _ t], rule exI [of _ t1], rule conjI [OF t(1)], rule conjI [OF t(3)], rule allI, rule impI)
    fix u1 assume "arrived (content (ss_writebuf t)) u u1"
    then have u1: "arrived (request_bytes name ?seq (st_reqheader s) body) u u1" by (simp add: t(2))
    obtain v where v: "MessageStream_OnRecived (server_hooks sv addr dbs names) dbs
        (int (length (content (ss_writebuf t)))) u1 = Done (0, v)"
      "content (ss_writebuf v) = response_bytes (ct_seq d) (st_resheader u) out"
      using request_served [OF c(5) tot(2,1) [OF req(3) U(5)] U(5-7) find parse call ser(1) f(1) [OF ser(2)] U(3,4) dbs(2) U(1,2) u1,
        of addr names] t(2) by auto
    show "\<exists>v. MessageStream_OnRecived (server_hooks sv addr dbs names) dbs (int (length (content (ss_writebuf t)))) u1 = Done (0, v)
         \<and> (\<forall>t2. arrived (content (ss_writebuf v)) t1 t2 \<longrightarrow>
             (\<exists>w c'. ConnectStream_OnRecived (client_hooks co opt dbs names') dbs (int (length (content (ss_writebuf v)))) t2 = Done (0, w)
              \<and> queued w = [] \<and> ch_log w = ch_log s @ [(a, error_number OK)]
              \<and> ch_calls w a = Some c' \<and> ct_response c' = Some res' \<and> ct_status c' = error_number OK
              \<and> ch_ran w = ch_ran s @ (case cc_done c of None \<Rightarrow> [] | Some f \<Rightarrow> [f])))" 
    proof (intro exI [of _ v] conjI allI impI v(1))
      fix t2 assume a2: "arrived (content (ss_writebuf v)) t1 t2"
      have rr: "ct_response ?c = Some m0" using c(4) by simp
      note F = response_received [where s = t1 and c = ?c, unfolded t1(7-9), OF got(2) tot(2,1) [OF ser(3) S(6)] S(6-8) t1(3,1,6) rr got(1)
        S(3) a2 [unfolded v(2)], folded v(2), of opt names']
      show "\<exists>w c'. ConnectStream_OnRecived (client_hooks co opt dbs names') dbs (int (length (content (ss_writebuf v)))) t2 = Done (0, w)
        \<and> queued w = [] \<and> ch_log w = ch_log s @ [(a, error_number OK)]
        \<and> ch_calls w a = Some c' \<and> ct_response c' = Some res' \<and> ct_status c' = error_number OK
        \<and> ch_ran w = ch_ran s @ (case cc_done c of None \<Rightarrow> [] | Some f \<Rightarrow> [f])"
        using F t1 by (auto simp: queued_def client_SetStatus_def)
    qed
  qed
qed

end
