(* ===== verification/Rbtree.thy ===== *)
theory Rbtree
  imports Prelude
begin

text \<open>
  The red-black tree of the timers (\<open>common/ngx_rbtree.h\<close>, \<open>common/ngx_rbtree.cpp\<close>): nodes with parent
  pointers in a store, a sentinel for the leaves, rotations, insertion and deletion.

  A pointer is an address or null. The branches of the code for left and right are mirror images;
  each pair of them is one definition with the side as an argument.
\<close>

section \<open>Nodes\<close>

datatype side = Lft | Rgt

fun opp :: "side \<Rightarrow> side" where
  "opp Lft = Rgt"
| "opp Rgt = Lft"

record 'a rb_node =
  rb_key :: "64 word"
  rb_red :: bool
  rb_data :: "nat option"
  rb_left :: "'a option"
  rb_right :: "'a option"
  rb_parent :: "'a option"

type_synonym 'a rb_heap = "'a \<rightharpoonup> 'a rb_node"

text \<open>The root pointer of a tree and the store.\<close>

type_synonym 'a rb_state = "'a option \<times> 'a rb_heap"

fun child :: "side \<Rightarrow> 'a rb_node \<Rightarrow> 'a option" where
  "child Lft n = rb_left n"
| "child Rgt n = rb_right n"

fun set_child :: "side \<Rightarrow> 'a option \<Rightarrow> 'a rb_node \<Rightarrow> 'a rb_node" where
  "set_child Lft p n = n\<lparr>rb_left := p\<rparr>"
| "set_child Rgt p n = n\<lparr>rb_right := p\<rparr>"

text \<open>\<open>p->f\<close> and the assignment to fields of \<open>*p\<close>.\<close>

definition rd :: "('a rb_node \<Rightarrow> 'b) \<Rightarrow> 'a option \<Rightarrow> 'a rb_heap \<Rightarrow> 'b outcome" where
  "rd f p h = (case Option.bind p h of None \<Rightarrow> Fault | Some n \<Rightarrow> Done (f n))"

definition wr :: "'a option \<Rightarrow> ('a rb_node \<Rightarrow> 'a rb_node) \<Rightarrow> 'a rb_heap \<Rightarrow> 'a rb_heap outcome" where
  "wr p f h = (case p of None \<Rightarrow> Fault | Some a \<Rightarrow>
     (case h a of None \<Rightarrow> Fault | Some n \<Rightarrow> Done (h(a \<mapsto> f n))))"

abbreviation ngx_rbt_red :: "'a option \<Rightarrow> 'a rb_heap \<Rightarrow> 'a rb_heap outcome" where
  "ngx_rbt_red p \<equiv> wr p (rb_red_update (\<lambda>_. True))"

abbreviation ngx_rbt_black :: "'a option \<Rightarrow> 'a rb_heap \<Rightarrow> 'a rb_heap outcome" where
  "ngx_rbt_black p \<equiv> wr p (rb_red_update (\<lambda>_. False))"

abbreviation ngx_rbt_is_red :: "'a option \<Rightarrow> 'a rb_heap \<Rightarrow> bool outcome" where
  "ngx_rbt_is_red \<equiv> rd rb_red"

definition ngx_rbt_copy_color :: "'a option \<Rightarrow> 'a option \<Rightarrow> 'a rb_heap \<Rightarrow> 'a rb_heap outcome" where
  "ngx_rbt_copy_color n1 n2 h = bind_outcome (rd rb_red n2 h) (\<lambda>c. wr n1 (rb_red_update (\<lambda>_. c)) h)"

text \<open>\<open>p->parent->parent\<close>.\<close>

definition grand :: "'a option \<Rightarrow> 'a rb_heap \<Rightarrow> 'a option outcome" where
  "grand p h = bind_outcome (rd rb_parent p h) (\<lambda>q. rd rb_parent q h)"

section \<open>Operations\<close>

text \<open>\<open>ngx_rbtree_left_rotate\<close> is \<open>rotate Lft\<close>, \<open>ngx_rbtree_right_rotate\<close> is \<open>rotate Rgt\<close>.\<close>

definition rotate :: "side \<Rightarrow> 'a option \<Rightarrow> 'a option \<Rightarrow> 'a rb_state \<Rightarrow> 'a rb_state outcome" where
  "rotate d sentinel node s = (case s of (root, h) \<Rightarrow>
     bind_outcome (rd (child (opp d)) node h) (\<lambda>temp.
     bind_outcome (rd (child d) temp h) (\<lambda>b.
     bind_outcome (wr node (set_child (opp d) b) h) (\<lambda>h.
     bind_outcome (rd (child d) temp h) (\<lambda>b.
     bind_outcome (if b \<noteq> sentinel then wr b (rb_parent_update (\<lambda>_. node)) h else Done h) (\<lambda>h.
     bind_outcome (rd rb_parent node h) (\<lambda>p.
     bind_outcome (wr temp (rb_parent_update (\<lambda>_. p)) h) (\<lambda>h.
     bind_outcome
       (if node = root then Done (temp, h)
        else bind_outcome (rd rb_parent node h) (\<lambda>p. bind_outcome (rd (child d) p h) (\<lambda>x.
          bind_outcome (wr p (set_child (if node = x then d else opp d) temp) h) (\<lambda>h. Done (root, h))))) (\<lambda>(root, h).
     bind_outcome (wr temp (set_child d node) h) (\<lambda>h.
     bind_outcome (wr node (rb_parent_update (\<lambda>_. temp)) h) (\<lambda>h. Done (root, h))))))))))))"

text \<open>The end of an iteration of \<open>ngx_rbtree_insert\<close> with a black uncle: the parent takes the place of the
  grandparent.\<close>

definition raise_parent :: "side \<Rightarrow> 'a option \<Rightarrow> 'a option \<Rightarrow> 'a rb_state \<Rightarrow> 'a rb_state outcome" where
  "raise_parent d sentinel node s = (case s of (root, h) \<Rightarrow>
     bind_outcome (bind_outcome (rd rb_parent node h) (\<lambda>p. ngx_rbt_black p h)) (\<lambda>h.
     bind_outcome (bind_outcome (grand node h) (\<lambda>g. ngx_rbt_red g h)) (\<lambda>h.
     bind_outcome (grand node h) (\<lambda>g. rotate (opp d) sentinel g (root, h)))))"

text \<open>One iteration of the loop of \<open>ngx_rbtree_insert\<close> where the parent is the \<open>d\<close> child of the grandparent;
  the result is \<open>node\<close>.\<close>

definition insert_fix :: "side \<Rightarrow> 'a option \<Rightarrow> 'a option \<Rightarrow> 'a rb_state \<Rightarrow> ('a option \<times> 'a rb_state) outcome" where
  "insert_fix d sentinel node s = (case s of (root, h) \<Rightarrow>
     bind_outcome (bind_outcome (grand node h) (\<lambda>g. rd (child (opp d)) g h)) (\<lambda>temp.
     bind_outcome (ngx_rbt_is_red temp h) (\<lambda>red.
       if red then
         bind_outcome (bind_outcome (rd rb_parent node h) (\<lambda>p. ngx_rbt_black p h)) (\<lambda>h.
         bind_outcome (ngx_rbt_black temp h) (\<lambda>h.
         bind_outcome (bind_outcome (grand node h) (\<lambda>g. ngx_rbt_red g h)) (\<lambda>h.
         bind_outcome (grand node h) (\<lambda>g. Done (g, (root, h))))))
       else
         bind_outcome (bind_outcome (rd rb_parent node h) (\<lambda>p. rd (child (opp d)) p h)) (\<lambda>x.
         bind_outcome
           (if node = x
            then bind_outcome (rd rb_parent node h) (\<lambda>p.
              bind_outcome (rotate d sentinel p (root, h)) (\<lambda>s. Done (p, s)))
            else Done (node, (root, h))) (\<lambda>(node, s).
         bind_outcome (raise_parent d sentinel node s) (\<lambda>s. Done (node, s)))))))"

text \<open>The test of the loop and its body; \<open>None\<close> when the test fails.\<close>

definition insert_turn :: "'a option \<Rightarrow> 'a option \<Rightarrow> 'a rb_state \<Rightarrow> ('a option \<times> 'a rb_state) option outcome" where
  "insert_turn sentinel node s = (case s of (root, h) \<Rightarrow>
     if node = root then Done None
     else bind_outcome (rd rb_parent node h) (\<lambda>p.
       bind_outcome (ngx_rbt_is_red p h) (\<lambda>red.
         if \<not> red then Done None
         else bind_outcome (bind_outcome (grand node h) (\<lambda>g. rd rb_left g h)) (\<lambda>x.
           bind_outcome (insert_fix (if p = x then Lft else Rgt) sentinel node s) (\<lambda>r. Done (Some r))))))"

partial_function (option) insert_loop :: "'a option \<Rightarrow> 'a option \<Rightarrow> 'a rb_state \<Rightarrow> 'a rb_state outcome option" where
  "insert_loop sentinel node s =
     (case insert_turn sentinel node s of
        Fault \<Rightarrow> Some Fault
      | Done None \<Rightarrow> Some (Done s)
      | Done (Some (node, s)) \<Rightarrow> insert_loop sentinel node s)"

text \<open>The loop of \<open>ngx_rbtree_insert_value\<close>: the last node and the side where the new one goes.\<close>

partial_function (option) descend :: "(64 word \<Rightarrow> 64 word \<Rightarrow> bool) \<Rightarrow> 'a option \<Rightarrow> 64 word \<Rightarrow> 'a option \<Rightarrow> 'a rb_heap \<Rightarrow>
    ('a option \<times> side) outcome option" where
  "descend before sentinel k temp h =
     (case bind_outcome (rd rb_key temp h) (\<lambda>k'. let d = (if before k k' then Lft else Rgt) in
             bind_outcome (rd (child d) temp h) (\<lambda>p. Done (d, p))) of
        Fault \<Rightarrow> Some Fault
      | Done (d, p) \<Rightarrow> if p = sentinel then Some (Done (temp, d)) else descend before sentinel k p h)"

definition insert_value :: "(64 word \<Rightarrow> 64 word \<Rightarrow> bool) \<Rightarrow> 'a option \<Rightarrow> 'a option \<Rightarrow> 'a option \<Rightarrow> 'a rb_heap \<Rightarrow>
    'a rb_heap outcome option" where
  "insert_value before temp node sentinel h =
     (case rd rb_key node h of
        Fault \<Rightarrow> Some Fault
      | Done k \<Rightarrow> map_option (\<lambda>r. bind_outcome r (\<lambda>(temp, d).
          bind_outcome (wr temp (set_child d node) h) (\<lambda>h.
            wr node (\<lambda>n. n\<lparr>rb_parent := temp, rb_left := sentinel, rb_right := sentinel, rb_red := True\<rparr>) h)))
          (descend before sentinel k temp h))"

definition ngx_rbtree_insert_value :: "'a option \<Rightarrow> 'a option \<Rightarrow> 'a option \<Rightarrow> 'a rb_heap \<Rightarrow> 'a rb_heap outcome option" where
  "ngx_rbtree_insert_value = insert_value (<)"

text \<open>The difference of the keys is cast to a 32 bit \<open>int\<close>.\<close>

definition ngx_rbtree_insert_timer_value :: "'a option \<Rightarrow> 'a option \<Rightarrow> 'a option \<Rightarrow> 'a rb_heap \<Rightarrow> 'a rb_heap outcome option" where
  "ngx_rbtree_insert_timer_value = insert_value (\<lambda>k k'. sint (ucast (k - k') :: 32 word) < 0)"

definition ngx_rbtree_insert :: "('a option \<Rightarrow> 'a option \<Rightarrow> 'a option \<Rightarrow> 'a rb_heap \<Rightarrow> 'a rb_heap outcome option) \<Rightarrow>
    'a option \<Rightarrow> 'a option \<Rightarrow> 'a rb_state \<Rightarrow> 'a rb_state outcome option" where
  "ngx_rbtree_insert tree_insert sentinel node s = (case s of (root, h) \<Rightarrow>
     if root = sentinel
     then Some (bind_outcome (wr node (\<lambda>n. n\<lparr>rb_parent := None, rb_left := sentinel, rb_right := sentinel, rb_red := False\<rparr>) h)
       (\<lambda>h. Done (node, h)))
     else (case tree_insert root node sentinel h of
         None \<Rightarrow> None
       | Some Fault \<Rightarrow> Some Fault
       | Some (Done h) \<Rightarrow> map_option (\<lambda>r. bind_outcome r (\<lambda>(root, h).
           bind_outcome (ngx_rbt_black root h) (\<lambda>h. Done (root, h)))) (insert_loop sentinel node (root, h))))"

partial_function (option) ngx_rbtree_min :: "'a option \<Rightarrow> 'a option \<Rightarrow> 'a rb_heap \<Rightarrow> 'a option outcome option" where
  "ngx_rbtree_min root sentinel h =
     (case rd rb_left root h of
        Fault \<Rightarrow> Some Fault
      | Done x \<Rightarrow> if x \<noteq> sentinel then ngx_rbtree_min x sentinel h else Some (Done root))"

text \<open>Deletion. Which node leaves the tree: \<open>temp\<close> and \<open>subst\<close>.\<close>

definition delete_choose :: "'a option \<Rightarrow> 'a option \<Rightarrow> 'a rb_heap \<Rightarrow> ('a option \<times> 'a option) outcome option" where
  "delete_choose sentinel node h =
     (case bind_outcome (rd rb_left node h) (\<lambda>l. bind_outcome (rd rb_right node h) (\<lambda>r. Done (l, r))) of
        Fault \<Rightarrow> Some Fault
      | Done (l, r) \<Rightarrow>
          if l = sentinel then Some (Done (r, node))
          else if r = sentinel then Some (Done (l, node))
          else map_option (\<lambda>m. bind_outcome m (\<lambda>subst.
            bind_outcome (rd rb_left subst h) (\<lambda>x.
              if x \<noteq> sentinel then Done (x, subst)
              else bind_outcome (rd rb_right subst h) (\<lambda>x. Done (x, subst))))) (ngx_rbtree_min r sentinel h))"

text \<open>\<open>subst\<close> takes the place of \<open>node\<close>.\<close>

definition replace_node :: "'a option \<Rightarrow> 'a option \<Rightarrow> 'a option \<Rightarrow> 'a rb_state \<Rightarrow> 'a rb_state outcome" where
  "replace_node sentinel node subst s = (case s of (root, h) \<Rightarrow>
     bind_outcome (bind_outcome (rd rb_left node h) (\<lambda>x. wr subst (rb_left_update (\<lambda>_. x)) h)) (\<lambda>h.
     bind_outcome (bind_outcome (rd rb_right node h) (\<lambda>x. wr subst (rb_right_update (\<lambda>_. x)) h)) (\<lambda>h.
     bind_outcome (bind_outcome (rd rb_parent node h) (\<lambda>x. wr subst (rb_parent_update (\<lambda>_. x)) h)) (\<lambda>h.
     bind_outcome (ngx_rbt_copy_color subst node h) (\<lambda>h.
     bind_outcome
       (if node = root then Done (subst, h)
        else bind_outcome (rd rb_parent node h) (\<lambda>p. bind_outcome (rd rb_left p h) (\<lambda>x.
          bind_outcome (wr p (set_child (if node = x then Lft else Rgt) subst) h) (\<lambda>h. Done (root, h))))) (\<lambda>(root, h).
     bind_outcome (bind_outcome (rd rb_left subst h) (\<lambda>x.
       if x \<noteq> sentinel then wr x (rb_parent_update (\<lambda>_. subst)) h else Done h)) (\<lambda>h.
     bind_outcome (bind_outcome (rd rb_right subst h) (\<lambda>x.
       if x \<noteq> sentinel then wr x (rb_parent_update (\<lambda>_. subst)) h else Done h)) (\<lambda>h. Done (root, h)))))))))"

definition delete_unlink :: "'a option \<Rightarrow> 'a option \<Rightarrow> 'a option \<Rightarrow> 'a option \<Rightarrow> 'a rb_state \<Rightarrow> 'a rb_state outcome" where
  "delete_unlink sentinel node subst temp s = (case s of (root, h) \<Rightarrow>
     bind_outcome (rd rb_parent subst h) (\<lambda>p.
     bind_outcome (rd rb_left p h) (\<lambda>x.
     bind_outcome (wr p (set_child (if subst = x then Lft else Rgt) temp) h) (\<lambda>h.
     bind_outcome (rd rb_parent subst h) (\<lambda>p.
       if subst = node
       then bind_outcome (wr temp (rb_parent_update (\<lambda>_. p)) h) (\<lambda>h. Done (root, h))
       else bind_outcome (wr temp (rb_parent_update (\<lambda>_. if p = node then subst else p)) h) (\<lambda>h.
         replace_node sentinel node subst (root, h)))))))"

definition clear_node :: "'a rb_node \<Rightarrow> 'a rb_node" where
  "clear_node n = n\<lparr>rb_left := None, rb_right := None, rb_parent := None, rb_key := 0\<rparr>"

text \<open>\<open>temp->parent->right\<close> (for the side \<open>Lft\<close>) and its mirror image.\<close>

definition sibling :: "side \<Rightarrow> 'a option \<Rightarrow> 'a rb_heap \<Rightarrow> 'a option outcome" where
  "sibling d temp h = bind_outcome (rd rb_parent temp h) (\<lambda>p. rd (child (opp d)) p h)"

text \<open>The three parts of an iteration of the fix-up, \<open>temp\<close> being the \<open>d\<close> child of its parent: a red sibling is
  rotated away; a red nephew on the near side is brought to the far side; the far nephew is used up.\<close>

definition black_sibling :: "side \<Rightarrow> 'a option \<Rightarrow> 'a option \<Rightarrow> 'a rb_state \<Rightarrow> ('a option \<times> 'a rb_state) outcome" where
  "black_sibling d sentinel temp s = (case s of (root, h) \<Rightarrow>
     bind_outcome (sibling d temp h) (\<lambda>w.
     bind_outcome (ngx_rbt_is_red w h) (\<lambda>red.
       if red then
         bind_outcome (ngx_rbt_black w h) (\<lambda>h.
         bind_outcome (bind_outcome (rd rb_parent temp h) (\<lambda>p. ngx_rbt_red p h)) (\<lambda>h.
         bind_outcome (bind_outcome (rd rb_parent temp h) (\<lambda>p. rotate d sentinel p (root, h))) (\<lambda>(root, h).
         bind_outcome (sibling d temp h) (\<lambda>w. Done (w, (root, h))))))
       else Done (w, (root, h)))))"

definition far_nephew :: "side \<Rightarrow> 'a option \<Rightarrow> 'a option \<Rightarrow> 'a option \<Rightarrow> 'a rb_state \<Rightarrow> ('a option \<times> 'a rb_state) outcome" where
  "far_nephew d sentinel temp w s = (case s of (root, h) \<Rightarrow>
     bind_outcome (bind_outcome (rd (child (opp d)) w h) (\<lambda>x. ngx_rbt_is_red x h)) (\<lambda>red.
       if \<not> red then
         bind_outcome (bind_outcome (rd (child d) w h) (\<lambda>x. ngx_rbt_black x h)) (\<lambda>h.
         bind_outcome (ngx_rbt_red w h) (\<lambda>h.
         bind_outcome (rotate (opp d) sentinel w (root, h)) (\<lambda>(root, h).
         bind_outcome (sibling d temp h) (\<lambda>w. Done (w, (root, h))))))
       else Done (w, (root, h))))"

definition raise_sibling :: "side \<Rightarrow> 'a option \<Rightarrow> 'a option \<Rightarrow> 'a option \<Rightarrow> 'a rb_state \<Rightarrow> ('a option \<times> 'a rb_state) outcome" where
  "raise_sibling d sentinel temp w s = (case s of (root, h) \<Rightarrow>
     bind_outcome (bind_outcome (rd rb_parent temp h) (\<lambda>p. ngx_rbt_copy_color w p h)) (\<lambda>h.
     bind_outcome (bind_outcome (rd rb_parent temp h) (\<lambda>p. ngx_rbt_black p h)) (\<lambda>h.
     bind_outcome (bind_outcome (rd (child (opp d)) w h) (\<lambda>x. ngx_rbt_black x h)) (\<lambda>h.
     bind_outcome (bind_outcome (rd rb_parent temp h) (\<lambda>p. rotate d sentinel p (root, h))) (\<lambda>(root, h).
       Done (root, (root, h)))))))"

text \<open>\<open>ngx_rbt_is_black(w->left) && ngx_rbt_is_black(w->right)\<close>.\<close>

definition black_children :: "'a option \<Rightarrow> 'a rb_heap \<Rightarrow> bool outcome" where
  "black_children w h =
     bind_outcome (bind_outcome (rd rb_left w h) (\<lambda>x. ngx_rbt_is_red x h)) (\<lambda>red.
       if red then Done False
       else bind_outcome (bind_outcome (rd rb_right w h) (\<lambda>x. ngx_rbt_is_red x h)) (\<lambda>red. Done (\<not> red)))"

definition delete_fix_black :: "side \<Rightarrow> 'a option \<Rightarrow> 'a option \<Rightarrow> 'a option \<Rightarrow> 'a rb_state \<Rightarrow> ('a option \<times> 'a rb_state) outcome" where
  "delete_fix_black d sentinel temp w s = (case s of (root, h) \<Rightarrow>
     bind_outcome (black_children w h) (\<lambda>black.
       if black then bind_outcome (ngx_rbt_red w h) (\<lambda>h.
         bind_outcome (rd rb_parent temp h) (\<lambda>p. Done (p, (root, h))))
       else bind_outcome (far_nephew d sentinel temp w (root, h)) (\<lambda>(w, s).
         raise_sibling d sentinel temp w s)))"

definition delete_fix :: "side \<Rightarrow> 'a option \<Rightarrow> 'a option \<Rightarrow> 'a rb_state \<Rightarrow> ('a option \<times> 'a rb_state) outcome" where
  "delete_fix d sentinel temp s =
     bind_outcome (black_sibling d sentinel temp s) (\<lambda>(w, s). delete_fix_black d sentinel temp w s)"

definition delete_turn :: "'a option \<Rightarrow> 'a option \<Rightarrow> 'a rb_state \<Rightarrow> ('a option \<times> 'a rb_state) option outcome" where
  "delete_turn sentinel temp s = (case s of (root, h) \<Rightarrow>
     if temp = root then Done None
     else bind_outcome (ngx_rbt_is_red temp h) (\<lambda>red.
       if red then Done None
       else bind_outcome (bind_outcome (rd rb_parent temp h) (\<lambda>p. rd rb_left p h)) (\<lambda>x.
         bind_outcome (delete_fix (if temp = x then Lft else Rgt) sentinel temp s) (\<lambda>r. Done (Some r)))))"

partial_function (option) delete_loop :: "'a option \<Rightarrow> 'a option \<Rightarrow> 'a rb_state \<Rightarrow> ('a option \<times> 'a rb_state) outcome option" where
  "delete_loop sentinel temp s =
     (case delete_turn sentinel temp s of
        Fault \<Rightarrow> Some Fault
      | Done None \<Rightarrow> Some (Done (temp, s))
      | Done (Some (temp, s)) \<Rightarrow> delete_loop sentinel temp s)"

definition ngx_rbtree_delete :: "'a option \<Rightarrow> 'a option \<Rightarrow> 'a rb_state \<Rightarrow> 'a rb_state outcome option" where
  "ngx_rbtree_delete sentinel node s = (case s of (root, h) \<Rightarrow>
     (case delete_choose sentinel node h of
        None \<Rightarrow> None
      | Some Fault \<Rightarrow> Some Fault
      | Some (Done (temp, subst)) \<Rightarrow>
          if subst = root
          then Some (bind_outcome (ngx_rbt_black temp h) (\<lambda>h.
            bind_outcome (wr node clear_node h) (\<lambda>h. Done (temp, h))))
          else (case bind_outcome (ngx_rbt_is_red subst h) (\<lambda>red.
                bind_outcome (delete_unlink sentinel node subst temp (root, h)) (\<lambda>(root, h).
                bind_outcome (wr node clear_node h) (\<lambda>h. Done (red, (root, h))))) of
              Fault \<Rightarrow> Some Fault
            | Done (red, s) \<Rightarrow>
                if red then Some (Done s)
                else map_option (\<lambda>r. bind_outcome r (\<lambda>(temp, (root, h)).
                  bind_outcome (ngx_rbt_black temp h) (\<lambda>h. Done (root, h)))) (delete_loop sentinel temp s))))"

section \<open>Trees in the store\<close>

type_synonym 'a entry = "'a \<times> 64 word \<times> nat option"

datatype 'a rbt = Lf | Nd "'a rbt" bool "'a entry" "'a rbt"

definition nd :: "side \<Rightarrow> 'a rbt \<Rightarrow> bool \<Rightarrow> 'a entry \<Rightarrow> 'a rbt \<Rightarrow> 'a rbt" where
  "nd d t c e s = (case d of Lft \<Rightarrow> Nd t c e s | Rgt \<Rightarrow> Nd s c e t)"

fun red :: "'a rbt \<Rightarrow> bool" where
  "red Lf = False"
| "red (Nd l c e r) = c"

fun addrs :: "'a rbt \<Rightarrow> 'a list" where
  "addrs Lf = []"
| "addrs (Nd l c e r) = addrs l @ fst e # addrs r"

definition holds :: "'a rb_heap \<Rightarrow> bool \<Rightarrow> 'a entry \<Rightarrow> 'a rb_node \<Rightarrow> bool" where
  "holds h c e n \<longleftrightarrow> h (fst e) = Some n \<and> rb_key n = fst (snd e) \<and> rb_data n = snd (snd e) \<and> rb_red n = c"

text \<open>The tree at \<open>x\<close>, the parent of its root being one of \<open>P\<close>: what stands in the parent field of the root
  of a whole tree is never used.\<close>

fun tree :: "'a rb_heap \<Rightarrow> 'a option \<Rightarrow> 'a option set \<Rightarrow> 'a option \<Rightarrow> 'a rbt \<Rightarrow> bool" where
  "tree h S P x Lf \<longleftrightarrow> x = S"
| "tree h S P x (Nd l c e r) \<longleftrightarrow> x = Some (fst e) \<and> (\<exists>n. holds h c e n \<and> rb_parent n \<in> P
     \<and> tree h S {Some (fst e)} (rb_left n) l \<and> tree h S {Some (fst e)} (rb_right n) r)"

text \<open>A place in a tree: the nodes above it, innermost first, each with the side on which the place lies
  and its other subtree.\<close>

type_synonym 'a frames = "(side \<times> bool \<times> 'a entry \<times> 'a rbt) list"

fun up :: "'a frames \<Rightarrow> 'a option set" where
  "up [] = UNIV"
| "up ((d, c, e, s) # fs) = {Some (fst e)}"

fun path :: "'a rb_heap \<Rightarrow> 'a option \<Rightarrow> 'a option \<Rightarrow> 'a option \<Rightarrow> 'a frames \<Rightarrow> bool" where
  "path h S r x [] \<longleftrightarrow> x = r"
| "path h S r x ((d, c, e, s) # fs) \<longleftrightarrow> (\<exists>n. holds h c e n \<and> rb_parent n \<in> up fs \<and> child d n = x
     \<and> tree h S {Some (fst e)} (child (opp d) n) s) \<and> path h S r (Some (fst e)) fs"

fun paddrs :: "'a frames \<Rightarrow> 'a list" where
  "paddrs [] = []"
| "paddrs ((d, c, e, s) # fs) = fst e # addrs s @ paddrs fs"

fun plug :: "'a rbt \<Rightarrow> 'a frames \<Rightarrow> 'a rbt" where
  "plug t [] = t"
| "plug t ((d, c, e, s) # fs) = plug (nd d t c e s) fs"

definition at_place :: "'a \<Rightarrow> 'a rb_state \<Rightarrow> 'a option \<Rightarrow> 'a rbt \<Rightarrow> 'a frames \<Rightarrow> bool" where
  "at_place z s x t fs \<longleftrightarrow> tree (snd s) (Some z) (up fs) x t \<and> path (snd s) (Some z) (fst s) x fs
     \<and> distinct (z # addrs t @ paddrs fs) \<and> (\<exists>n. snd s z = Some n \<and> \<not> rb_red n)"


section \<open>Basic facts\<close>

lemma opp_opp [simp]: "opp (opp d) = d" "opp d \<noteq> d" "d \<noteq> opp d" "opp c = opp d \<longleftrightarrow> c = d"
  by (cases d; cases c; simp)+

lemma opp_cases: "c = d \<or> c = opp d"
  by (cases d; cases c; simp)

lemma child_set_child [simp]:
  "child d (set_child d p n) = p" "child (opp d) (set_child d p n) = child (opp d) n"
  "child d (set_child (opp d) p n) = child d n"
  "rb_key (set_child d p n) = rb_key n" "rb_data (set_child d p n) = rb_data n"
  "rb_red (set_child d p n) = rb_red n" "rb_parent (set_child d p n) = rb_parent n"
  by (cases d; simp)+

lemma child_update [simp]:
  "child d (n\<lparr>rb_parent := p\<rparr>) = child d n" "child d (n\<lparr>rb_red := c\<rparr>) = child d n"
  "child d (n\<lparr>rb_key := k\<rparr>) = child d n" "child d (n\<lparr>rb_data := e\<rparr>) = child d n"
  by (cases d; simp)+

lemma rd_Some [simp]: "h a = Some n \<Longrightarrow> rd f (Some a) h = Done (f n)"
  by (simp add: rd_def)

lemma wr_Some [simp]: "h a = Some n \<Longrightarrow> wr (Some a) f h = Done (h(a \<mapsto> f n))"
  by (simp add: wr_def)

lemma addrs_nd: "set (addrs (nd d t c e s)) = insert (fst e) (set (addrs t) \<union> set (addrs s))"
  "distinct (addrs (nd d t c e s)) \<longleftrightarrow> distinct (fst e # addrs t @ addrs s)"
  by (cases d; auto simp: nd_def)+

lemma red_nd [simp]: "red (nd d t c e s) = c"
  by (cases d) (simp_all add: nd_def)

lemma nd_eq: "Nd l c e r = nd Lft l c e r" "nd (opp d) t c e s = nd d s c e t"
  by (cases d; simp add: nd_def)+

lemma nd_exists: "t \<noteq> Lf \<Longrightarrow> \<exists>l c e r. t = nd d l c e r"
  by (cases t; cases d) (auto simp: nd_def)

lemma tree_nd: "tree h S P x (nd d t c e s) \<longleftrightarrow> x = Some (fst e) \<and> (\<exists>n. holds h c e n \<and> rb_parent n \<in> P
     \<and> tree h S {Some (fst e)} (child d n) t \<and> tree h S {Some (fst e)} (child (opp d) n) s)"
  by (cases d) (auto simp: nd_def)

lemma tree_root: "tree h S P x t \<Longrightarrow> x = S \<or> (\<exists>a \<in> set (addrs t). x = Some a)"
  by (cases t) auto

lemma tree_cong: "(\<And>q. q \<in> set (addrs t) \<Longrightarrow> h' q = h q) \<Longrightarrow> tree h S P x t \<Longrightarrow> tree h' S P x t"
proof (induction t arbitrary: P x)
  case (Nd l c e r)
  from Nd.prems(2) obtain n where n: "x = Some (fst e)" "holds h c e n" "rb_parent n \<in> P"
    "tree h S {Some (fst e)} (rb_left n) l" "tree h S {Some (fst e)} (rb_right n) r" by auto
  have "holds h' c e n" using n(2) Nd.prems(1) [of "fst e"] by (simp add: holds_def)
  moreover have "tree h' S {Some (fst e)} (rb_left n) l" using Nd.IH(1) [OF _ n(4)] Nd.prems(1) by simp
  moreover have "tree h' S {Some (fst e)} (rb_right n) r" using Nd.IH(2) [OF _ n(5)] Nd.prems(1) by simp
  ultimately show ?case using n(1,3) by auto
qed simp

lemma path_cong: "(\<And>q. q \<in> set (paddrs fs) \<Longrightarrow> h' q = h q) \<Longrightarrow> path h S r x fs \<Longrightarrow> path h' S r x fs"
proof (induction fs arbitrary: x)
  case (Cons f fs)
  obtain d c e s where f: "f = (d, c, e, s)" by (cases f)
  obtain n where n: "holds h c e n" "rb_parent n \<in> up fs" "child d n = x" "tree h S {Some (fst e)} (child (opp d) n) s"
    "path h S r (Some (fst e)) fs" using Cons.prems(2) f by auto
  have "holds h' c e n" using n(1) Cons.prems(1) [of "fst e"] f by (simp add: holds_def)
  moreover have "tree h' S {Some (fst e)} (child (opp d) n) s" using tree_cong [OF _ n(4)] Cons.prems(1) f by auto
  moreover have "path h' S r (Some (fst e)) fs" using Cons.IH [OF _ n(5)] Cons.prems(1) f by auto
  ultimately show ?case using n f by auto
qed simp

text \<open>A subtree gets a new parent.\<close>

lemma tree_reparent:
  assumes "tree h S P x t" "x \<noteq> S" "distinct (addrs t)"
  shows "\<exists>b n. x = Some b \<and> b \<in> set (addrs t) \<and> h b = Some n \<and>
    (\<forall>h'. h' b = Some (n\<lparr>rb_parent := p\<rparr>) \<longrightarrow> (\<forall>q \<in> set (addrs t) - {b}. h' q = h q) \<longrightarrow> tree h' S {p} x t)"
proof (cases t)
  case Lf
  then show ?thesis using assms(1,2) by simp
next
  case (Nd l c e r)
  then obtain n where n: "x = Some (fst e)" "holds h c e n" "rb_parent n \<in> P"
    "tree h S {Some (fst e)} (rb_left n) l" "tree h S {Some (fst e)} (rb_right n) r" using assms(1) by auto
  have d: "fst e \<notin> set (addrs l)" "fst e \<notin> set (addrs r)" using assms(3) Nd by auto
  have "tree h' S {p} x t" if h': "h' (fst e) = Some (n\<lparr>rb_parent := p\<rparr>)" "\<forall>q \<in> set (addrs t) - {fst e}. h' q = h q" for h'
  proof -
    have "tree h' S {Some (fst e)} (rb_left n) l" by (rule tree_cong [OF _ n(4)]) (use h' d Nd in auto)
    moreover have "tree h' S {Some (fst e)} (rb_right n) r" by (rule tree_cong [OF _ n(5)]) (use h' d Nd in auto)
    ultimately show ?thesis using n(1,2) h'(1) Nd by (auto simp: holds_def)
  qed
  then show ?thesis using n Nd by (intro exI [of _ "fst e"] exI [of _ n]) (auto simp: holds_def)
qed

lemma path_root: "path h S r x fs \<Longrightarrow> fs \<noteq> [] \<Longrightarrow> \<exists>a \<in> set (paddrs fs). r = Some a"
proof (induction fs arbitrary: x)
  case (Cons f fs)
  then show ?case by (cases f; cases fs) auto
qed simp

text \<open>Moving the place.\<close>

lemma at_up:
  assumes "at_place z s x t ((d, c, e, u) # fs)"
  shows "at_place z s (Some (fst e)) (nd d t c e u) fs" "rd (child d) (Some (fst e)) (snd s) = Done x"
proof -
  obtain n where n: "holds (snd s) c e n" "rb_parent n \<in> up fs" "child d n = x"
    "tree (snd s) (Some z) {Some (fst e)} (child (opp d) n) u" using assms by (auto simp: at_place_def)
  show "at_place z s (Some (fst e)) (nd d t c e u) fs"
    using assms n by (auto simp: at_place_def tree_nd addrs_nd)
  show "rd (child d) (Some (fst e)) (snd s) = Done x" using n by (simp add: holds_def)
qed

lemma at_down:
  assumes "at_place z s x (nd d t c e u) fs"
  shows "\<exists>y. rd (child d) x (snd s) = Done y \<and> at_place z s y t ((d, c, e, u) # fs)"
proof -
  obtain n where n: "x = Some (fst e)" "holds (snd s) c e n" "rb_parent n \<in> up fs"
    "tree (snd s) (Some z) {Some (fst e)} (child d n) t" "tree (snd s) (Some z) {Some (fst e)} (child (opp d) n) u"
    using assms by (auto simp: at_place_def tree_nd)
  then show ?thesis using assms
    by (intro exI [of _ "child d n"]) (auto simp: at_place_def addrs_nd holds_def)
qed

lemma at_facts:
  assumes "at_place z s x t fs"
  shows "rd rb_red x (snd s) = Done (red t)" "x = Some z \<longleftrightarrow> t = Lf" "fs \<noteq> [] \<Longrightarrow> x \<noteq> fst s"
    "fs = [] \<Longrightarrow> x = fst s" "t \<noteq> Lf \<Longrightarrow> fs = (d, c, e, u) # gs \<Longrightarrow> rd rb_parent x (snd s) = Done (Some (fst e))"
proof -
  note A = assms [unfolded at_place_def]
  show "rd rb_red x (snd s) = Done (red t)" using A by (cases t) (auto simp: holds_def)
  show "x = Some z \<longleftrightarrow> t = Lf" using A by (cases t) auto
  show "fs \<noteq> [] \<Longrightarrow> x \<noteq> fst s" using A tree_root [of "snd s" "Some z" "up fs" x t] path_root [of "snd s" "Some z" "fst s" x fs]
    by auto
  show "fs = [] \<Longrightarrow> x = fst s" using A by simp
  show "t \<noteq> Lf \<Longrightarrow> fs = (d, c, e, u) # gs \<Longrightarrow> rd rb_parent x (snd s) = Done (Some (fst e))"
    using A by (cases t) (auto simp: holds_def)
qed

text \<open>Rotations. The store changes at addresses of the tree only.\<close>

definition same_off :: "'a set \<Rightarrow> 'a rb_heap \<Rightarrow> 'a rb_heap \<Rightarrow> bool" where
  "same_off A h h' \<longleftrightarrow> (\<forall>q. q \<notin> A \<longrightarrow> h' q = h q)"

lemma same_off_refl [simp]: "same_off A h h"
  by (simp add: same_off_def)

lemma same_off_trans: "same_off A h h' \<Longrightarrow> same_off A h' h'' \<Longrightarrow> same_off A h h''"
  by (simp add: same_off_def)

lemma same_off_upd [simp]: "a \<in> A \<Longrightarrow> same_off A h (h(a := v))"
  by (simp add: same_off_def)

definition place_addrs :: "'a rbt \<Rightarrow> 'a frames \<Rightarrow> 'a set" where
  "place_addrs t fs = set (addrs t @ paddrs fs)"

lemma place_addrs_simps [simp]:
  "place_addrs (nd d t c e u) fs = insert (fst e) (set (addrs t) \<union> set (addrs u) \<union> set (paddrs fs))"
  "place_addrs t ((d, c, e, u) # fs) = insert (fst e) (set (addrs t) \<union> set (addrs u) \<union> set (paddrs fs))"
  "place_addrs Lf fs = set (paddrs fs)"
  by (auto simp: place_addrs_def addrs_nd)

text \<open>The pointer to a place is replaced: in the frame above it, or at the root.\<close>

lemma path_relink:
  assumes "path h S r x fs" "distinct (paddrs fs)"
  shows "if fs = [] then True
    else \<exists>d c e u gs n. fs = (d, c, e, u) # gs \<and> h (fst e) = Some n \<and> child d n = x
      \<and> (child (opp d) n = S \<or> (\<exists>b \<in> set (addrs u). child (opp d) n = Some b))
      \<and> (\<forall>h' y. h' (fst e) = Some (set_child d y n) \<longrightarrow> (\<forall>q \<in> set (paddrs fs) - {fst e}. h' q = h q) \<longrightarrow> path h' S r y fs)"
proof (cases fs)
  case (Cons f gs)
  obtain d c e u where f: "f = (d, c, e, u)" by (cases f)
  obtain n where n: "holds h c e n" "rb_parent n \<in> up gs" "child d n = x" "tree h S {Some (fst e)} (child (opp d) n) u"
    "path h S r (Some (fst e)) gs" using assms(1) Cons f by auto
  have dis: "fst e \<notin> set (addrs u)" "fst e \<notin> set (paddrs gs)" using assms(2) Cons f by auto
  have "path h' S r y fs"
    if h': "h' (fst e) = Some (set_child d y n)" "\<forall>q \<in> set (paddrs fs) - {fst e}. h' q = h q" for h' y
  proof -
    have "tree h' S {Some (fst e)} (child (opp d) n) u" by (rule tree_cong [OF _ n(4)]) (use h' dis Cons f in auto)
    moreover have "path h' S r (Some (fst e)) gs" by (rule path_cong [OF _ n(5)]) (use h' dis Cons f in auto)
    ultimately show ?thesis using n(1,2) h'(1) Cons f by (auto simp: holds_def)
  qed
  moreover have "child (opp d) n = S \<or> (\<exists>b \<in> set (addrs u). child (opp d) n = Some b)" using tree_root [OF n(4)] by auto
  ultimately show ?thesis using n Cons f
    by (simp, intro exI [of _ d] exI [of _ c] exI [of _ e] exI [of _ u] exI [of _ gs] exI [of _ n]) (auto simp: holds_def)
qed simp

lemma rotate_place:
  assumes "at_place z (r, h) x (nd d a c e (nd d b c' e' g)) fs"
  shows "\<exists>r' h'. rotate d (Some z) x (r, h) = Done (r', h')
    \<and> at_place z (r', h') (Some (fst e')) (nd d (nd d a c e b) c' e' g) fs
    \<and> same_off (place_addrs (nd d a c e (nd d b c' e' g)) fs) h h'"
proof -
  let ?e = "fst e" and ?f = "fst e'"
  obtain n m where n: "x = Some ?e" "holds h c e n" "rb_parent n \<in> up fs" "tree h (Some z) {Some ?e} (child d n) a"
      "child (opp d) n = Some ?f"
    and m: "holds h c' e' m" "rb_parent m = Some ?e" "tree h (Some z) {Some ?f} (child d m) b"
      "tree h (Some z) {Some ?f} (child (opp d) m) g"
    using assms by (auto simp: at_place_def tree_nd)
  have p: "path h (Some z) r x fs" and z: "\<exists>n. h z = Some n \<and> \<not> rb_red n"
    and dis: "distinct (z # ?e # ?f # addrs a @ addrs b @ addrs g @ paddrs fs)"
    using assms by (auto simp: at_place_def addrs_nd)
  have hn: "h ?e = Some n" "h ?f = Some m" using n m by (auto simp: holds_def)
  have ne: "?e \<noteq> ?f" "?f \<noteq> ?e" using dis by auto
  let ?n1 = "set_child (opp d) (child d m) n"
  let ?h1 = "h(?e \<mapsto> ?n1)"
  \<comment> \<open>the inner subtree\<close>
  define h2 where "h2 = (if child d m = Some z then ?h1
    else ?h1(the (child d m) \<mapsto> (the (h (the (child d m))))\<lparr>rb_parent := Some ?e\<rparr>))"
  have B: "(if child d m \<noteq> Some z then wr (child d m) (rb_parent_update (\<lambda>_. x)) ?h1 else Done ?h1) = Done h2
    \<and> (\<forall>q. q \<notin> set (addrs b) \<longrightarrow> h2 q = ?h1 q) \<and> (\<forall>h'. (\<forall>q \<in> set (addrs b). h' q = h2 q) \<longrightarrow> tree h' (Some z) {Some ?e} (child d m) b)"
  proof (cases "child d m = Some z")
    case True
    then have "b = Lf" using m(3) dis tree_root [OF m(3)] by (cases b) auto
    then show ?thesis using True m(3) by (simp add: h2_def)
  next
    case False
    have "distinct (addrs b)" using dis by simp
    from tree_reparent [OF m(3) False this, of "Some ?e"] obtain b0 nb where
      b0: "child d m = Some b0" "b0 \<in> set (addrs b)" "h b0 = Some nb"
      "\<And>h'. h' b0 = Some (nb\<lparr>rb_parent := Some ?e\<rparr>) \<Longrightarrow> \<forall>q \<in> set (addrs b) - {b0}. h' q = h q \<Longrightarrow> tree h' (Some z) {Some ?e} (child d m) b"
      by blast
    have "b0 \<noteq> ?e" "?e \<notin> set (addrs b)" using b0(2) dis by auto
    then show ?thesis using False b0 n(1) by (auto simp: h2_def)
  qed
  have h2: "h2 ?e = Some ?n1" "h2 ?f = Some m" using B hn ne dis by auto
  let ?h3 = "h2(?f \<mapsto> m\<lparr>rb_parent := rb_parent n\<rparr>)"
  \<comment> \<open>the pointer from above\<close>
  define rt where "rt = (if fs = [] then Some ?f else r)"
  have "\<exists>h4. (if x = r then Done (Some ?f, ?h3)
        else bind_outcome (rd rb_parent x ?h3) (\<lambda>p. bind_outcome (rd (child d) p ?h3) (\<lambda>y.
          bind_outcome (wr p (set_child (if x = y then d else opp d) (Some ?f)) ?h3) (\<lambda>h. Done (r, h))))) = Done (rt, h4)
      \<and> (\<forall>q. q \<notin> set (paddrs fs) \<longrightarrow> h4 q = ?h3 q) \<and> (\<forall>h'. (\<forall>q \<in> set (paddrs fs). h' q = h4 q) \<longrightarrow> path h' (Some z) rt (Some ?f) fs)"
  proof (cases "fs = []")
    case True
    then show ?thesis using p by (intro exI [of _ ?h3]) (auto simp: rt_def)
  next
    case False
    have "distinct (paddrs fs)" using dis by simp
    from path_relink [OF p this] False obtain d0 c0 e0 u gs n0 where
      f: "fs = (d0, c0, e0, u) # gs" "h (fst e0) = Some n0" "child d0 n0 = x"
      "child (opp d0) n0 = Some z \<or> (\<exists>b \<in> set (addrs u). child (opp d0) n0 = Some b)"
      "\<And>h' y. h' (fst e0) = Some (set_child d0 y n0) \<Longrightarrow> \<forall>q \<in> set (paddrs fs) - {fst e0}. h' q = h q \<Longrightarrow> path h' (Some z) r y fs"
      by auto
    have xr: "x \<noteq> r" using at_facts(3) [OF assms False] by simp
    have pe: "rb_parent n = Some (fst e0)" using n(3) f(1) by simp
    have off: "\<And>q. q \<in> set (paddrs fs) \<Longrightarrow> ?h3 q = h q"
    proof -
      fix q assume "q \<in> set (paddrs fs)"
      then have "q \<noteq> ?f" "q \<noteq> ?e" "q \<notin> set (addrs b)" using dis by auto
      then show "?h3 q = h q" using B by simp
    qed
    then have h0: "?h3 (fst e0) = Some n0" using f(1,2) by simp
    have "child (opp d0) n0 \<noteq> x" using f(1,4) n(1) dis by auto
    then have side: "(if x = child d n0 then d else opp d) = d0" using f(3) opp_cases [of d d0] by auto
    let ?h4 = "?h3(fst e0 \<mapsto> set_child d0 (Some ?f) n0)"
    have par: "rd rb_parent x ?h3 = Done (Some (fst e0))" using n(1) h2(1) ne pe by simp
    have "bind_outcome (rd rb_parent x ?h3) (\<lambda>p. bind_outcome (rd (child d) p ?h3) (\<lambda>y.
          bind_outcome (wr p (set_child (if x = y then d else opp d) (Some ?f)) ?h3) (\<lambda>h. Done (r, h)))) = Done (r, ?h4)"
      unfolding par by (simp only: bind_outcome.simps rd_Some [where h = ?h3 and a = "fst e0", OF h0] side wr_Some [where h = ?h3 and a = "fst e0", OF h0])
    moreover have "path h' (Some z) r (Some ?f) fs" if "\<forall>q \<in> set (paddrs fs). h' q = ?h4 q" for h'
      by (rule f(5)) (use that off f(1) in auto)
    ultimately show ?thesis using xr False f(1) by (intro exI [of _ ?h4]) (simp add: rt_def)
  qed
  then obtain h4 where h4: "(if x = r then Done (Some ?f, ?h3)
        else bind_outcome (rd rb_parent x ?h3) (\<lambda>p. bind_outcome (rd (child d) p ?h3) (\<lambda>y.
          bind_outcome (wr p (set_child (if x = y then d else opp d) (Some ?f)) ?h3) (\<lambda>h. Done (r, h))))) = Done (rt, h4)"
    "\<And>q. q \<notin> set (paddrs fs) \<Longrightarrow> h4 q = ?h3 q" "\<And>h'. \<forall>q \<in> set (paddrs fs). h' q = h4 q \<Longrightarrow> path h' (Some z) rt (Some ?f) fs"
    by blast
  have h4n: "h4 ?e = Some ?n1" "h4 ?f = Some (m\<lparr>rb_parent := rb_parent n\<rparr>)" using h4(2) h2 ne dis by auto
  let ?n' = "?n1\<lparr>rb_parent := Some ?f\<rparr>" and ?m' = "set_child d (Some ?e) (m\<lparr>rb_parent := rb_parent n\<rparr>)"
  let ?h' = "h4(?f \<mapsto> ?m', ?e \<mapsto> ?n')"
  have off: "?h' q = h q" if "q \<notin> {?e, ?f} \<union> set (addrs b) \<union> set (paddrs fs)" for q
    using that B h4(2) by simp
  have run: "rotate d (Some z) x (r, h) = Done (rt, ?h')"
    unfolding rotate_def using n(1) hn ne B h2 h4(1) h4n n(5) by simp
  have "tree ?h' (Some z) {Some ?e} (child d n) a" by (rule tree_cong [OF _ n(4)], rule off) (use dis in auto)
  moreover have "tree ?h' (Some z) {Some ?f} (child (opp d) m) g" by (rule tree_cong [OF _ m(4)], rule off) (use dis in auto)
  moreover have "tree ?h' (Some z) {Some ?e} (child d m) b"
  proof -
    have "\<forall>q \<in> set (addrs b). ?h' q = h2 q"
    proof
      fix q assume "q \<in> set (addrs b)"
      then have "q \<noteq> ?e" "q \<noteq> ?f" "q \<notin> set (paddrs fs)" using dis by auto
      then show "?h' q = h2 q" using h4(2) by simp
    qed
    then show ?thesis using B by blast
  qed
  ultimately have "tree ?h' (Some z) (up fs) (Some ?f) (nd d (nd d a c e b) c' e' g)"
    using n(2,3) m(1) ne by (auto simp: tree_nd holds_def)
  moreover have "path ?h' (Some z) rt (Some ?f) fs" by (rule h4(3)) (use dis in auto)
  moreover have "?h' z = h z" by (rule off) (use dis in auto)
  ultimately have "at_place z (rt, ?h') (Some ?f) (nd d (nd d a c e b) c' e' g) fs"
    using z dis by (auto simp: at_place_def addrs_nd)
  moreover have "same_off (place_addrs (nd d a c e (nd d b c' e' g)) fs) h ?h'"
    unfolding same_off_def by (intro allI impI off) (auto simp: addrs_nd)
  ultimately show ?thesis using run by blast
qed

section \<open>Abstract trees\<close>

fun entries :: "'a rbt \<Rightarrow> 'a entry list" where
  "entries Lf = []"
| "entries (Nd l c e r) = entries l @ e # entries r"

fun pre :: "'a frames \<Rightarrow> 'a entry list" where
  "pre [] = []"
| "pre ((d, c, e, s) # fs) = pre fs @ (case d of Lft \<Rightarrow> [] | Rgt \<Rightarrow> entries s @ [e])"

fun post :: "'a frames \<Rightarrow> 'a entry list" where
  "post [] = []"
| "post ((d, c, e, s) # fs) = (case d of Lft \<Rightarrow> e # entries s | Rgt \<Rightarrow> []) @ post fs"

fun paint :: "bool \<Rightarrow> 'a rbt \<Rightarrow> 'a rbt" where
  "paint c Lf = Lf"
| "paint c (Nd l c' e r) = Nd l c e r"

text \<open>No red node has a red child, and every path to a leaf has \<open>n\<close> black nodes.\<close>

fun black_height :: "nat \<Rightarrow> 'a rbt \<Rightarrow> bool" where
  "black_height n Lf \<longleftrightarrow> n = 0"
| "black_height n (Nd l c e r) \<longleftrightarrow> (if c then \<not> red l \<and> \<not> red r \<and> black_height n l \<and> black_height n r else 0 < n \<and> black_height (n - 1) l \<and> black_height (n - 1) r)"

definition rb_tree :: "'a rbt \<Rightarrow> bool" where
  "rb_tree t \<longleftrightarrow> \<not> red t \<and> (\<exists>n. black_height n t)"

text \<open>The frames make a red-black tree of any tree of black height \<open>n\<close> whose root, if red, has no red parent.\<close>

fun redtop :: "'a frames \<Rightarrow> bool" where
  "redtop [] = True"
| "redtop ((d, c, e, s) # fs) = c"

fun pok :: "nat \<Rightarrow> 'a frames \<Rightarrow> bool" where
  "pok n [] = True"
| "pok n ((d, c, e, s) # fs) \<longleftrightarrow> black_height n s \<and> (c \<longrightarrow> \<not> red s \<and> \<not> redtop fs) \<and> pok (if c then n else Suc n) fs"

lemma addrs_entries: "addrs t = map fst (entries t)"
  by (induction t) auto

lemma entries_plug: "entries (plug t fs) = pre fs @ entries t @ post fs"
proof (induction fs arbitrary: t)
  case (Cons f fs)
  then show ?case by (cases f) (auto simp: nd_def split: side.splits)
qed simp

lemma entries_nd: "entries (nd d t c e s) = (case d of Lft \<Rightarrow> entries t @ e # entries s | Rgt \<Rightarrow> entries s @ e # entries t)"
  by (cases d) (simp_all add: nd_def)

lemma paint_nd [simp]: "paint c (nd d t c' e s) = nd d t c e s"
  by (cases d) (simp_all add: nd_def)

lemma paint_simps [simp]: "entries (paint c t) = entries t" "red (paint c t) \<longleftrightarrow> c \<and> t \<noteq> Lf" "addrs (paint c t) = addrs t"
  "paint c t = Lf \<longleftrightarrow> t = Lf"
  by (cases t; simp)+

lemma ok_nd [simp]: "black_height n (nd d t c e s) \<longleftrightarrow>
  (if c then \<not> red t \<and> \<not> red s \<and> black_height n t \<and> black_height n s else 0 < n \<and> black_height (n - 1) t \<and> black_height (n - 1) s)"
  by (cases d) (auto simp: nd_def)

lemma nd_not_Lf [simp]: "nd d t c e s \<noteq> Lf"
  by (cases d) (simp_all add: nd_def)

lemma ok_paint: "red t \<Longrightarrow> black_height n t \<Longrightarrow> black_height (Suc n) (paint False t)"
  by (cases t) auto

lemma plug_ok: "rb_tree (plug t fs) \<longleftrightarrow> (\<exists>n. black_height n t \<and> pok n fs) \<and> (red t \<longrightarrow> \<not> redtop fs)"
proof (induction fs arbitrary: t)
  case (Cons f fs)
  obtain d c e s where f: "f = (d, c, e, s)" by (cases f)
  show ?case unfolding f plug.simps Cons.IH
    by (cases c) (auto intro: exI [of _ "Suc n" for n] simp: gr0_conv_Suc)
qed (auto simp: rb_tree_def)

lemma place_addrs_plug: "place_addrs t fs = fst ` set (entries (plug t fs))"
proof (induction fs arbitrary: t)
  case Nil
  then show ?case by (simp add: place_addrs_def addrs_entries)
next
  case (Cons f fs)
  obtain d c e s where f: "f = (d, c, e, s)" by (cases f)
  have "place_addrs t (f # fs) = place_addrs (nd d t c e s) fs" by (auto simp: f)
  then show ?case using Cons by (simp add: f)
qed

lemma at_plug: "at_place z s x t fs \<Longrightarrow> at_place z s (fst s) (plug t fs) []"
proof (induction fs arbitrary: x t)
  case Nil
  then show ?case by (auto simp: at_place_def)
next
  case (Cons f fs)
  obtain d c e u where "f = (d, c, e, u)" by (cases f)
  then show ?case using Cons.IH at_up(1) Cons.prems by fastforce
qed

lemma at_color:
  assumes "at_place z (r, h) x t fs" "t \<noteq> Lf"
  shows "\<exists>h1. wr x (rb_red_update (\<lambda>_. c)) h = Done h1 \<and> at_place z (r, h1) x (paint c t) fs \<and> same_off (place_addrs t fs) h h1"
proof -
  obtain l c' e u where t: "t = Nd l c' e u" using assms(2) by (cases t) auto
  obtain n where n: "x = Some (fst e)" "holds h c' e n" "rb_parent n \<in> up fs"
    "tree h (Some z) {Some (fst e)} (rb_left n) l" "tree h (Some z) {Some (fst e)} (rb_right n) u"
    "path h (Some z) r x fs" "\<exists>n. h z = Some n \<and> \<not> rb_red n"
    and dis: "distinct (z # fst e # addrs l @ addrs u @ paddrs fs)"
    using assms(1) t by (auto simp: at_place_def)
  let ?h = "h(fst e \<mapsto> n\<lparr>rb_red := c\<rparr>)"
  have "tree ?h (Some z) {Some (fst e)} (rb_left n) l" by (rule tree_cong [OF _ n(4)]) (use dis in auto)
  moreover have "tree ?h (Some z) {Some (fst e)} (rb_right n) u" by (rule tree_cong [OF _ n(5)]) (use dis in auto)
  moreover have "path ?h (Some z) r x fs" by (rule path_cong [OF _ n(6)]) (use dis in auto)
  ultimately have "at_place z (r, ?h) x (paint c t) fs"
    using n dis t by (auto simp: at_place_def holds_def)
  moreover have "wr x (rb_red_update (\<lambda>_. c)) h = Done ?h" using n(1,2) by (simp add: holds_def)
  moreover have "same_off (place_addrs t fs) h ?h" using t by (simp add: place_addrs_def)
  ultimately show ?thesis by blast
qed

section \<open>Insertion\<close>

text \<open>One iteration on places: the uncle is red, or one or two rotations end the loop.\<close>

inductive ins_fixed :: "'a rbt \<Rightarrow> 'a frames \<Rightarrow> 'a rbt \<Rightarrow> 'a frames \<Rightarrow> bool" where
  recolour: "red u \<Longrightarrow> ins_fixed t ((d1, True, p, s) # (d, c, g, u) # gs)
    (nd d (nd d1 t False p s) True g (paint False u)) gs"
| outer: "\<not> red u \<Longrightarrow> ins_fixed t ((d, True, p, s) # (d, c, g, u) # gs) t ((d, False, p, nd d s True g u) # gs)"
| inner: "\<not> red u \<Longrightarrow> ins_fixed (nd d t1 b a t2) ((opp d, True, p, s) # (d, c, g, u) # gs)
    (nd d s True p t1) ((d, False, a, nd d t2 True g u) # gs)"

lemma at_color_up:
  assumes "at_place z (r, h) x t ((d, c, e, u) # fs)"
  shows "\<exists>h1. wr (Some (fst e)) (rb_red_update (\<lambda>_. c')) h = Done h1 \<and> at_place z (r, h1) x t ((d, c', e, u) # fs)
    \<and> same_off (place_addrs t ((d, c, e, u) # fs)) h h1"
proof -
  note U = at_up [OF assms]
  obtain h1 where h1: "wr (Some (fst e)) (rb_red_update (\<lambda>_. c')) h = Done h1"
    "at_place z (r, h1) (Some (fst e)) (nd d t c' e u) fs" "same_off (place_addrs (nd d t c e u) fs) h h1"
    using at_color [OF U(1), of c'] by auto
  obtain y where y: "rd (child d) (Some (fst e)) h1 = Done y" "at_place z (r, h1) y t ((d, c', e, u) # fs)"
    using at_down [OF h1(2)] by auto
  have "rd (child d) (Some (fst e)) h = Done x" using U(2) by simp
  moreover have "rd (child d) (Some (fst e)) h1 = rd (child d) (Some (fst e)) h"
    using h1(1) by (auto simp: wr_def rd_def split: option.splits)
  ultimately have "y = x" using y(1) by simp
  then show ?thesis using h1 y by (intro exI [of _ h1]) auto
qed

lemma grand_place: "at_place z s x t ((d1, c1, p, u1) # (d, c, g, u) # gs) \<Longrightarrow> t \<noteq> Lf \<Longrightarrow> grand x (snd s) = Done (Some (fst g))"
  using at_facts(5) [of z s x t] at_facts(5) [OF at_up(1), of z s x t d1 c1 p u1] by (simp add: grand_def)

lemma at_outer_rotation:
  assumes "at_place z (r, h) x t ((d, c, p, s) # (d, c', g, u) # gs)"
  shows "\<exists>r' h'. rotate (opp d) (Some z) (Some (fst g)) (r, h) = Done (r', h')
    \<and> at_place z (r', h') x t ((d, c, p, nd d s c' g u) # gs)
    \<and> same_off (place_addrs t ((d, c, p, s) # (d, c', g, u) # gs)) h h'"
proof -
  note P = at_up [OF assms] note G = at_up [OF P(1)]
  have "nd d (nd d t c p s) c' g u = nd (opp d) u c' g (nd (opp d) s c p t)" by (cases d) (simp_all add: nd_def)
  with G(1) have "at_place z (r, h) (Some (fst g)) (nd (opp d) u c' g (nd (opp d) s c p t)) gs" by simp
  from rotate_place [OF this] obtain r' h' where R: "rotate (opp d) (Some z) (Some (fst g)) (r, h) = Done (r', h')"
    "at_place z (r', h') (Some (fst p)) (nd (opp d) (nd (opp d) u c' g s) c p t) gs"
    "same_off (place_addrs (nd (opp d) u c' g (nd (opp d) s c p t)) gs) h h'" by blast
  have "nd (opp d) (nd (opp d) u c' g s) c p t = nd d t c p (nd d s c' g u)" by (cases d) (simp_all add: nd_def)
  with R(2) obtain y where y: "rd (child d) (Some (fst p)) h' = Done y" "at_place z (r', h') y t ((d, c, p, nd d s c' g u) # gs)"
    using at_down [of z "(r', h')" "Some (fst p)" d t c p] by auto
  have "y = x"
  proof (cases "t = Lf")
    case True
    then show ?thesis using at_facts(2) [OF y(2)] at_facts(2) [OF assms] by simp
  next
    case False
    then obtain l b e w where "t = Nd l b e w" by (cases t) auto
    then show ?thesis using y(2) assms by (simp add: at_place_def)
  qed
  moreover have "place_addrs (nd (opp d) u c' g (nd (opp d) s c p t)) gs = place_addrs t ((d, c, p, s) # (d, c', g, u) # gs)"
    by (auto simp: addrs_nd)
  ultimately show ?thesis using R y(2) by auto
qed

lemma at_sibling:
  assumes "at_place z s x t ((d1, c1, p, v) # (d, c, g, u) # gs)"
  shows "\<exists>y. rd (child (opp d)) (Some (fst g)) (snd s) = Done y
    \<and> at_place z s y u ((opp d, c, g, nd d1 t c1 p v) # gs)"
proof -
  have "nd d (nd d1 t c1 p v) c g u = nd (opp d) u c g (nd d1 t c1 p v)" by (cases d) (simp_all add: nd_def)
  then show ?thesis using at_down [of z s "Some (fst g)" "opp d" u c g] at_up(1) [OF at_up(1) [OF assms]] by simp
qed

lemma at_color_up2:
  assumes "at_place z (r, h) x t ((d1, c1, p, s) # (d, c, g, u) # gs)" "t \<noteq> Lf"
  shows "\<exists>h1. wr (Some (fst g)) (rb_red_update (\<lambda>_. c')) h = Done h1
    \<and> at_place z (r, h1) x t ((d1, c1, p, s) # (d, c', g, u) # gs)
    \<and> same_off (place_addrs t ((d1, c1, p, s) # (d, c, g, u) # gs)) h h1"
proof -
  from at_color_up [OF at_up(1) [OF assms(1)], of c'] obtain h1 where
    h1: "wr (Some (fst g)) (rb_red_update (\<lambda>_. c')) h = Done h1"
    "at_place z (r, h1) (Some (fst p)) (nd d1 t c1 p s) ((d, c', g, u) # gs)"
    "same_off (place_addrs (nd d1 t c1 p s) ((d, c, g, u) # gs)) h h1" by auto
  obtain v where v: "at_place z (r, h1) v t ((d1, c1, p, s) # (d, c', g, u) # gs)"
    using at_down [OF h1(2)] by auto
  then have "v = x" using assms by (cases t) (auto simp: at_place_def)
  moreover have "place_addrs (nd d1 t c1 p s) ((d, c, g, u) # gs) = place_addrs t ((d1, c1, p, s) # (d, c, g, u) # gs)"
    by (auto simp: addrs_nd)
  ultimately show ?thesis using h1 v by auto
qed

lemma raise_parent_place:
  assumes "at_place z (r, h) x t ((d, c, p, s) # (d, c', g, u) # gs)" "t \<noteq> Lf"
  shows "\<exists>r' h'. raise_parent d (Some z) x (r, h) = Done (r', h')
    \<and> at_place z (r', h') x t ((d, False, p, nd d s True g u) # gs)
    \<and> same_off (place_addrs t ((d, c, p, s) # (d, c', g, u) # gs)) h h'"
proof -
  let ?A = "place_addrs t ((d, c, p, s) # (d, c', g, u) # gs)"
  have par: "rd rb_parent x h = Done (Some (fst p))" using at_facts(5) [OF assms(1,2)] by simp
  obtain h2 where h2: "wr (Some (fst p)) (rb_red_update (\<lambda>_. False)) h = Done h2"
    "at_place z (r, h2) x t ((d, False, p, s) # (d, c', g, u) # gs)" "same_off ?A h h2"
    using at_color_up [OF assms(1), of False] by auto
  have gra2: "grand x h2 = Done (Some (fst g))" using grand_place [OF h2(2) assms(2)] by simp
  obtain h3 where h3: "wr (Some (fst g)) (rb_red_update (\<lambda>_. True)) h2 = Done h3"
    "at_place z (r, h3) x t ((d, False, p, s) # (d, True, g, u) # gs)" "same_off ?A h2 h3"
    using at_color_up2 [OF h2(2) assms(2), of True] by auto
  have gra3: "grand x h3 = Done (Some (fst g))" using grand_place [OF h3(2) assms(2)] by simp
  obtain r' h' where R': "rotate (opp d) (Some z) (Some (fst g)) (r, h3) = Done (r', h')"
    "at_place z (r', h') x t ((d, False, p, nd d s True g u) # gs)" "same_off ?A h3 h'"
    using at_outer_rotation [OF h3(2)] by auto
  have "raise_parent d (Some z) x (r, h) = Done (r', h')"
    using par h2(1) gra2 h3(1) gra3 R'(1) by (simp add: raise_parent_def)
  moreover have "same_off ?A h h'" by (rule same_off_trans [OF same_off_trans [OF h2(3) h3(3)] R'(3)])
  ultimately show ?thesis using R'(2) by blast
qed

lemma insert_fix_red:
  assumes "at_place z (r, h) x t ((d1, True, p, s) # (d, c, g, u) # gs)" "t \<noteq> Lf" "red u"
  shows "\<exists>h'. insert_fix d (Some z) x (r, h) = Done (Some (fst g), (r, h'))
    \<and> at_place z (r, h') (Some (fst g)) (nd d (nd d1 t False p s) True g (paint False u)) gs
    \<and> same_off (place_addrs t ((d1, True, p, s) # (d, c, g, u) # gs)) h h'"
proof -
  let ?A = "place_addrs t ((d1, True, p, s) # (d, c, g, u) # gs)"
  note at = assms(1)
  have uL: "u \<noteq> Lf" using assms(3) by auto
  have par: "rd rb_parent x h = Done (Some (fst p))" using at_facts(5) [OF at assms(2)] by simp
  have gra: "grand x h = Done (Some (fst g))" using grand_place [OF at assms(2)] by simp
  obtain y where y: "rd (child (opp d)) (Some (fst g)) h = Done y" "at_place z (r, h) y u ((opp d, c, g, nd d1 t True p s) # gs)"
    using at_sibling [OF at] by auto
  obtain h1 where h1: "wr (Some (fst p)) (rb_red_update (\<lambda>_. False)) h = Done h1"
    "at_place z (r, h1) x t ((d1, False, p, s) # (d, c, g, u) # gs)" "same_off ?A h h1"
    using at_color_up [OF at, of False] by auto
  obtain y1 where y1: "at_place z (r, h1) y1 u ((opp d, c, g, nd d1 t False p s) # gs)" using at_sibling [OF h1(2)] by auto
  have "y1 = y" using y(2) y1 uL by (cases u) (auto simp: at_place_def)
  then obtain h2 where h2: "wr y (rb_red_update (\<lambda>_. False)) h1 = Done h2"
    "at_place z (r, h2) y (paint False u) ((opp d, c, g, nd d1 t False p s) # gs)" "same_off ?A h1 h2"
    using at_color [OF y1 uL, of False] by (auto simp: place_addrs_def addrs_nd insert_commute Un_commute Un_left_commute)
  have "nd (opp d) (paint False u) c g (nd d1 t False p s) = nd d (nd d1 t False p s) c g (paint False u)"
    by (cases d) (simp_all add: nd_def)
  then have g2: "at_place z (r, h2) (Some (fst g)) (nd d (nd d1 t False p s) c g (paint False u)) gs"
    using at_up(1) [OF h2(2)] by simp
  have again: "at_place z (r, h') x t ((d1, False, p, s) # (d, c', g, paint False u) # gs)"
    if G: "at_place z (r, h') (Some (fst g)) (nd d (nd d1 t False p s) c' g (paint False u)) gs" for h' c'
  proof -
    obtain w where w: "at_place z (r, h') w (nd d1 t False p s) ((d, c', g, paint False u) # gs)" using at_down [OF G] by auto
    obtain v where v: "at_place z (r, h') v t ((d1, False, p, s) # (d, c', g, paint False u) # gs)" using at_down [OF w] by auto
    have "v = x" using v at assms(2) by (cases t) (auto simp: at_place_def)
    then show ?thesis using v by simp
  qed
  obtain h3 where h3: "wr (Some (fst g)) (rb_red_update (\<lambda>_. True)) h2 = Done h3"
    "at_place z (r, h3) x t ((d1, False, p, s) # (d, True, g, paint False u) # gs)" "same_off ?A h2 h3"
    using at_color_up2 [OF again [OF g2] assms(2), of True] by auto
  have gra23: "grand x h2 = Done (Some (fst g))" "grand x h3 = Done (Some (fst g))"
    using grand_place [OF again [OF g2] assms(2)] grand_place [OF h3(2) assms(2)] by simp_all
  have "insert_fix d (Some z) x (r, h) = Done (Some (fst g), (r, h3))"
    using par gra y(1) at_facts(1) [OF y(2)] assms(3) h1(1) h2(1) h3(1) gra23 by (simp add: insert_fix_def)
  moreover have "at_place z (r, h3) (Some (fst g)) (nd d (nd d1 t False p s) True g (paint False u)) gs"
    using at_up(1) [OF at_up(1) [OF h3(2)]] by simp
  ultimately show ?thesis using same_off_trans [OF same_off_trans [OF h1(3) h2(3)] h3(3)] by blast
qed

text \<open>The test that decides between one and two rotations.\<close>

lemma parent_side:
  assumes "at_place z s x t ((d1, c, p, u) # gs)" "t \<noteq> Lf"
  shows "\<exists>q. rd (child d) (Some (fst p)) (snd s) = Done q \<and> (x = q \<longleftrightarrow> d1 = d)"
proof (cases "d1 = d")
  case True
  then show ?thesis using at_up(2) [OF assms(1)] by simp
next
  case False
  then have d: "d = opp d1" using opp_cases by metis
  obtain n where n: "snd s (fst p) = Some n" "tree (snd s) (Some z) {Some (fst p)} (child (opp d1) n) u"
    using assms(1) by (auto simp: at_place_def holds_def)
  have "child (opp d1) n \<noteq> x" using tree_root [OF n(2)] assms by (cases t) (auto simp: at_place_def)
  then show ?thesis using n(1) d by (intro exI [of _ "child (opp d1) n"]) simp
qed

lemma insert_fix_place:
  assumes "at_place z (r, h) x t fs" "fs = (d1, True, p, s) # (d, c, g, u) # gs" "t \<noteq> Lf"
  shows "\<exists>x' r' h' t' fs'. insert_fix d (Some z) x (r, h) = Done (x', (r', h')) \<and> at_place z (r', h') x' t' fs'
    \<and> ins_fixed t fs t' fs' \<and> same_off (place_addrs t fs) h h'"
proof (cases "red u")
  case True
  then show ?thesis using insert_fix_red [OF assms(1) [unfolded assms(2)] assms(3) True] ins_fixed.recolour [OF True]
    unfolding assms(2) by blast
next
  case False
  note at = assms(1) [unfolded assms(2)]
  have par: "rd rb_parent x h = Done (Some (fst p))" using at_facts(5) [OF at assms(3)] by simp
  have gra: "grand x h = Done (Some (fst g))" using grand_place [OF at assms(3)] by simp
  obtain y where y: "rd (child (opp d)) (Some (fst g)) h = Done y" "ngx_rbt_is_red y h = Done False"
    using at_sibling [OF at] at_facts(1) False by fastforce
  obtain q where q: "rd (child (opp d)) (Some (fst p)) h = Done q" "x = q \<longleftrightarrow> d1 = opp d"
    using parent_side [OF at assms(3), of "opp d"] by auto
  show ?thesis
  proof (cases "d1 = opp d")
    case True
    obtain t1 b a t2 where t: "t = nd d t1 b a t2" using nd_exists [OF assms(3)] by blast
    have "at_place z (r, h) (Some (fst p)) (nd d s True p (nd d t1 b a t2)) ((d, c, g, u) # gs)"
      using at_up(1) [OF at] unfolding True t nd_eq(2) .
    from rotate_place [OF this] obtain r1 h1 where R: "rotate d (Some z) (Some (fst p)) (r, h) = Done (r1, h1)"
      "at_place z (r1, h1) (Some (fst a)) (nd d (nd d s True p t1) b a t2) ((d, c, g, u) # gs)"
      "same_off (place_addrs (nd d s True p (nd d t1 b a t2)) ((d, c, g, u) # gs)) h h1" by blast
    obtain w where w: "at_place z (r1, h1) w (nd d s True p t1) ((d, b, a, t2) # (d, c, g, u) # gs)"
      using at_down [OF R(2)] by auto
    then have "w = Some (fst p)" by (cases d) (simp_all add: at_place_def nd_def)
    with w raise_parent_place [OF w nd_not_Lf] obtain r' h' where
      R': "raise_parent d (Some z) (Some (fst p)) (r1, h1) = Done (r', h')"
      "at_place z (r', h') (Some (fst p)) (nd d s True p t1) ((d, False, a, nd d t2 True g u) # gs)"
      "same_off (place_addrs (nd d s True p t1) ((d, b, a, t2) # (d, c, g, u) # gs)) h1 h'" by auto
    have "insert_fix d (Some z) x (r, h) = Done (Some (fst p), (r', h'))"
      using par gra y q True R(1) R'(1) by (simp add: insert_fix_def)
    moreover have "place_addrs (nd d s True p (nd d t1 b a t2)) ((d, c, g, u) # gs) = place_addrs t fs"
      "place_addrs (nd d s True p t1) ((d, b, a, t2) # (d, c, g, u) # gs) = place_addrs t fs" using t by (auto simp: assms(2) addrs_nd)
    then have "same_off (place_addrs t fs) h h'" using R(3) R'(3) same_off_trans by metis
    ultimately show ?thesis using R'(2) ins_fixed.inner [OF False, of d t1 b a t2 p s c g gs] assms(2) t True by blast
  next
    case d: False
    then have d1: "d1 = d" using opp_cases by metis
    from raise_parent_place [OF at [unfolded d1] assms(3)] obtain r' h' where
      R': "raise_parent d (Some z) x (r, h) = Done (r', h')" "at_place z (r', h') x t ((d, False, p, nd d s True g u) # gs)"
      "same_off (place_addrs t fs) h h'" using assms(2) d1 by auto
    have "insert_fix d (Some z) x (r, h) = Done (x, (r', h'))"
      using par gra y q d R'(1) by (simp add: insert_fix_def)
    then show ?thesis using R'(2,3) ins_fixed.outer [OF False, of t d p s c g gs] assms(2) d1 by blast
  qed
qed

subsection \<open>The loop\<close>

lemma child_fields: "child Lft = rb_left" "child Rgt = rb_right"
  by (rule ext, simp)+

lemma paint_black: "\<not> red t \<Longrightarrow> paint False t = t"
  by (cases t) auto

lemma ins_fixed_entries: "ins_fixed t fs t' fs' \<Longrightarrow> entries (plug t' fs') = entries (plug t fs)"
  by (induction rule: ins_fixed.induct) (auto simp: entries_plug entries_nd split: side.splits)

lemma ins_fixed_shorter: "ins_fixed t fs t' fs' \<Longrightarrow> length fs' < length fs"
  by (induction rule: ins_fixed.induct) auto

lemma ins_fixed_ok:
  "ins_fixed t fs t' fs' \<Longrightarrow> red t \<Longrightarrow> black_height n t \<Longrightarrow> pok n fs \<Longrightarrow> red t' \<and> (\<exists>m. black_height m t' \<and> pok m fs')"
proof (induction rule: ins_fixed.induct)
  case (recolour u t d1 p s d c g gs)
  then show ?case using ok_paint [of u n] by (auto intro!: exI [of _ "Suc n"])
next
  case (outer u t d p s c g gs)
  then show ?case by (auto intro!: exI [of _ n])
next
  case (inner u d t1 b a t2 s p c g gs)
  then show ?case by (auto intro!: exI [of _ n])
qed

lemma insert_turn_place:
  assumes "at_place z (r, h) x t fs" "red t" "pok n fs"
  shows "insert_turn (Some z) x (r, h) = Done None \<and> (fs = [] \<or> \<not> redtop fs)
    \<or> (\<exists>x' s' t' fs'. insert_turn (Some z) x (r, h) = Done (Some (x', s')) \<and> at_place z s' x' t' fs' \<and> ins_fixed t fs t' fs'
       \<and> same_off (place_addrs t fs) h (snd s'))"
proof (cases fs)
  case Nil
  then show ?thesis using at_facts(4) [OF assms(1)] by (simp add: insert_turn_def)
next
  case (Cons f gs)
  obtain d1 c1 p u1 where f: "fs = (d1, c1, p, u1) # gs" using Cons by (cases f) auto
  have t: "t \<noteq> Lf" using assms(2) by auto
  have x: "x \<noteq> r" using at_facts(3) [OF assms(1)] Cons by simp
  note at = assms(1) [unfolded f]
  have par: "rd rb_parent x h = Done (Some (fst p))" using at_facts(5) [OF at t] by simp
  have red: "ngx_rbt_is_red (Some (fst p)) h = Done c1" using at_facts(1) [OF at_up(1) [OF at]] by simp
  show ?thesis
  proof (cases c1)
    case False
    then show ?thesis using x par red f by (simp add: insert_turn_def)
  next
    case True
    then have "\<not> redtop gs" using assms(3) f by simp
    then obtain d g u hs where g: "gs = (d, False, g, u) # hs" by (cases gs rule: redtop.cases) auto
    have fs: "fs = (d1, True, p, u1) # (d, False, g, u) # hs" using f g True by simp
    have gra: "grand x h = Done (Some (fst g))" using grand_place [OF at [unfolded g] t] by simp
    obtain q where q: "rd rb_left (Some (fst g)) h = Done q" "Some (fst p) = q \<longleftrightarrow> d = Lft"
      using parent_side [OF at_up(1) [OF at, unfolded g] nd_not_Lf, of Lft] by (auto simp: child_fields)
    then have "(if Some (fst p) = q then Lft else Rgt) = d" by (cases d) auto
    moreover obtain x' r' h' t' fs' where I: "insert_fix d (Some z) x (r, h) = Done (x', (r', h'))"
      "at_place z (r', h') x' t' fs'" "ins_fixed t fs t' fs'" "same_off (place_addrs t fs) h h'"
      using insert_fix_place [OF assms(1) fs t] by blast
    ultimately have "insert_turn (Some z) x (r, h) = Done (Some (x', (r', h')))"
      using x par red True gra q(1) by (simp add: insert_turn_def)
    then show ?thesis using I by fastforce
  qed
qed

lemma insert_loop_place:
  assumes "at_place z s x t fs" "red t" "black_height n t" "pok n fs"
  shows "\<exists>s' T. insert_loop (Some z) x s = Some (Done s') \<and> at_place z s' (fst s') T [] \<and> entries T = entries (plug t fs)
    \<and> rb_tree (paint False T) \<and> T \<noteq> Lf \<and> same_off (place_addrs t fs) (snd s) (snd s')"
  using assms
proof (induction "length fs" arbitrary: s x t fs n rule: less_induct)
  case less
  obtain r h where s: "s = (r, h)" by (cases s)
  from insert_turn_place [OF less.prems(1) [unfolded s] less.prems(2,4)] show ?case
  proof (elim disjE exE conjE)
    assume stop: "insert_turn (Some z) x (r, h) = Done None" "fs = []"
    then have "insert_loop (Some z) x s = Some (Done s)" using s by (simp add: insert_loop.simps)
    moreover have "rb_tree (paint False t)" using ok_paint less.prems(2,3) by (auto simp: rb_tree_def)
    ultimately show ?case using at_plug [OF less.prems(1)] stop less.prems(2) by fastforce
  next
    assume stop: "insert_turn (Some z) x (r, h) = Done None" "\<not> redtop fs"
    then have "insert_loop (Some z) x s = Some (Done s)" using s by (simp add: insert_loop.simps)
    moreover have "rb_tree (plug t fs)" using plug_ok stop(2) less.prems(3,4) by blast
    moreover from this have "paint False (plug t fs) = plug t fs" by (simp add: rb_tree_def paint_black)
    moreover have "plug t fs \<noteq> Lf" using entries_plug [of t fs] less.prems(2) by (cases t) auto
    ultimately show ?case using at_plug [OF less.prems(1)] by fastforce
  next
    fix x' s' t' fs'
    assume N: "insert_turn (Some z) x (r, h) = Done (Some (x', s'))" "at_place z s' x' t' fs'" "ins_fixed t fs t' fs'"
      "same_off (place_addrs t fs) h (snd s')"
    obtain m where m: "red t'" "black_height m t'" "pok m fs'" using ins_fixed_ok [OF N(3) less.prems(2-4)] by blast
    from less.hyps [OF ins_fixed_shorter [OF N(3)] N(2) m] obtain s'' T where
      I: "insert_loop (Some z) x' s' = Some (Done s'')" "at_place z s'' (fst s'') T []" "entries T = entries (plug t' fs')"
      "rb_tree (paint False T)" "T \<noteq> Lf" "same_off (place_addrs t' fs') (snd s') (snd s'')" by blast
    have e: "entries (plug t' fs') = entries (plug t fs)" using ins_fixed_entries [OF N(3)] .
    then have "place_addrs t' fs' = place_addrs t fs" by (simp add: place_addrs_plug)
    then have "same_off (place_addrs t fs) h (snd s'')" using N(4) I(6) same_off_trans by metis
    moreover have "insert_loop (Some z) x s = Some (Done s'')" using N(1) I(1) s by (simp add: insert_loop.simps)
    ultimately show ?case using I e s by auto
  qed
qed

subsection \<open>The place of a new node\<close>

abbreviation entry_key :: "'a entry \<Rightarrow> 64 word" where
  "entry_key e \<equiv> fst (snd e)"

definition keys_sorted :: "'a entry list \<Rightarrow> bool" where
  "keys_sorted es \<longleftrightarrow> sorted (map entry_key es)"

lemma descend_place:
  assumes "at_place z (r, h) x t fs" "t \<noteq> Lf" "keys_sorted (entries t)"
    and "\<forall>e \<in> set (pre fs). entry_key e \<le> k" "\<forall>e \<in> set (post fs). k < entry_key e"
  shows "\<exists>d c e u gs. descend (<) (Some z) k x h = Some (Done (Some (fst e), d))
    \<and> at_place z (r, h) (Some z) Lf ((d, c, e, u) # gs) \<and> plug Lf ((d, c, e, u) # gs) = plug t fs
    \<and> (\<forall>e \<in> set (pre ((d, c, e, u) # gs)). entry_key e \<le> k) \<and> (\<forall>e \<in> set (post ((d, c, e, u) # gs)). k < entry_key e)"
  using assms
proof (induction t arbitrary: x fs)
  case (Nd l c e u)
  have x: "x = Some (fst e)" "rd rb_key x h = Done (entry_key e)" using Nd.prems(1) by (auto simp: at_place_def holds_def)
  have srt: "keys_sorted (entries l)" "keys_sorted (entries u)" "\<forall>a \<in> set (entries l). entry_key a \<le> entry_key e"
    "\<forall>a \<in> set (entries u). entry_key e \<le> entry_key a" using Nd.prems(3) by (auto simp: keys_sorted_def sorted_append)
  define d where "d = (if k < entry_key e then Lft else Rgt)"
  define t1 where "t1 = (if k < entry_key e then l else u)"
  define t2 where "t2 = (if k < entry_key e then u else l)"
  have N: "Nd l c e u = nd d t1 c e t2" by (simp add: d_def t1_def t2_def nd_def)
  obtain y where y: "rd (child d) x h = Done y" "at_place z (r, h) y t1 ((d, c, e, t2) # fs)"
    using at_down Nd.prems(1) unfolding N by fastforce
  have bounds: "\<forall>e \<in> set (pre ((d, c, e, t2) # fs)). entry_key e \<le> k" "\<forall>e \<in> set (post ((d, c, e, t2) # fs)). k < entry_key e"
    using Nd.prems(4,5) srt by (auto simp: d_def t2_def intro: order_trans less_le_trans)
  show ?case
  proof (cases "t1 = Lf")
    case True
    then have "y = Some z" using at_facts(2) [OF y(2)] by simp
    then have "descend (<) (Some z) k x h = Some (Done (Some (fst e), d))"
      using x y(1) by (subst descend.simps) (simp add: d_def)
    then show ?thesis using y(2) True \<open>y = Some z\<close> bounds N by (intro exI [of _ d] exI [of _ c] exI [of _ e] exI [of _ t2] exI [of _ fs]) simp
  next
    case False
    then have yz: "y \<noteq> Some z" using at_facts(2) [OF y(2)] by simp
    have step: "descend (<) (Some z) k x h = descend (<) (Some z) k y h"
      using x(2) y(1) yz by (subst descend.simps) (simp add: d_def)
    have "plug t1 ((d, c, e, t2) # fs) = plug (Nd l c e u) fs" using N by simp
    moreover have "t1 = l \<or> t1 = u" by (simp add: t1_def)
    ultimately show ?thesis using Nd.IH(1) [of y "(d, c, e, t2) # fs"] Nd.IH(2) [of y "(d, c, e, t2) # fs"] y(2) False srt(1,2) bounds
      unfolding step by metis
  qed
qed simp


lemma attach_place:
  assumes "at_place z (r, h) (Some z) Lf ((d, c, e, u) # gs)" "h a = Some n" "a \<noteq> z" "a \<notin> place_addrs Lf ((d, c, e, u) # gs)"
  shows "\<exists>h'. bind_outcome (wr (Some (fst e)) (set_child d (Some a)) h) (\<lambda>h.
      wr (Some a) (\<lambda>n. n\<lparr>rb_parent := Some (fst e), rb_left := Some z, rb_right := Some z, rb_red := True\<rparr>) h) = Done h'
    \<and> at_place z (r, h') (Some a) (Nd Lf True (a, rb_key n, rb_data n) Lf) ((d, c, e, u) # gs)
    \<and> same_off (insert a (place_addrs Lf ((d, c, e, u) # gs))) h h'"
proof -
  note A = assms(1) [unfolded at_place_def, simplified]
  have dis: "distinct (paddrs ((d, c, e, u) # gs))" "z \<notin> set (paddrs ((d, c, e, u) # gs))" using A by auto
  have p: "path h (Some z) r (Some z) ((d, c, e, u) # gs)" using A by auto
  from path_relink [OF p dis(1)] obtain m where m: "h (fst e) = Some m"
    "\<And>h' y. h' (fst e) = Some (set_child d y m) \<Longrightarrow> \<forall>q \<in> set (paddrs ((d, c, e, u) # gs)) - {fst e}. h' q = h q \<Longrightarrow>
      path h' (Some z) r y ((d, c, e, u) # gs)" by auto
  have ae: "a \<noteq> fst e" "a \<notin> set (paddrs ((d, c, e, u) # gs))" using assms(4) by auto
  let ?n = "n\<lparr>rb_parent := Some (fst e), rb_left := Some z, rb_right := Some z, rb_red := True\<rparr>"
  let ?h = "h(fst e \<mapsto> set_child d (Some a) m, a \<mapsto> ?n)"
  have "path ?h (Some z) r (Some a) ((d, c, e, u) # gs)" by (rule m(2)) (use ae in auto)
  moreover have "tree ?h (Some z) (up ((d, c, e, u) # gs)) (Some a) (Nd Lf True (a, rb_key n, rb_data n) Lf)"
    by (simp add: holds_def)
  moreover have "?h z = h z" using assms(3) dis(2) by auto
  ultimately have "at_place z (r, ?h) (Some a) (Nd Lf True (a, rb_key n, rb_data n) Lf) ((d, c, e, u) # gs)"
    using A dis ae assms(3) unfolding at_place_def by auto
  moreover have "same_off (insert a (place_addrs Lf ((d, c, e, u) # gs))) h ?h" by (simp add: same_off_def)
  ultimately show ?thesis using m(1) assms(2) ae(1) by (intro exI [of _ ?h]) simp
qed

definition rb_rep :: "'a \<Rightarrow> 'a rb_state \<Rightarrow> 'a rbt \<Rightarrow> bool" where
  "rb_rep z s T \<longleftrightarrow> at_place z s (fst s) T [] \<and> rb_tree T"

theorem insert_correct:
  assumes "rb_rep z (r, h) T" "keys_sorted (entries T)" "h a = Some n" "a \<noteq> z" "a \<notin> set (addrs T)"
  shows "\<exists>s' T' xs ys. ngx_rbtree_insert ngx_rbtree_insert_value (Some z) (Some a) (r, h) = Some (Done s')
    \<and> rb_rep z s' T' \<and> entries T = xs @ ys \<and> entries T' = xs @ (a, rb_key n, rb_data n) # ys
    \<and> (\<forall>e \<in> set xs. entry_key e \<le> rb_key n) \<and> (\<forall>e \<in> set ys. rb_key n < entry_key e)
    \<and> same_off (insert a (set (addrs T))) h (snd s')"
proof (cases "T = Lf")
  case True
  then have A: "r = Some z" "\<exists>n. h z = Some n \<and> \<not> rb_red n" using assms(1) by (auto simp: rb_rep_def at_place_def)
  let ?n = "n\<lparr>rb_parent := None, rb_left := Some z, rb_right := Some z, rb_red := False\<rparr>"
  let ?s = "(Some a, h(a \<mapsto> ?n))" and ?T = "Nd Lf False (a, rb_key n, rb_data n) Lf"
  have "rb_rep z ?s ?T"
    using A assms(4) by (auto simp: rb_rep_def at_place_def holds_def rb_tree_def intro!: exI [of _ 1])
  moreover have "ngx_rbtree_insert ngx_rbtree_insert_value (Some z) (Some a) (r, h) = Some (Done ?s)"
    using A assms(3) by (simp add: ngx_rbtree_insert_def)
  ultimately show ?thesis using True
    by (intro exI [of _ ?s] exI [of _ ?T] exI [of _ "[]"]) simp
next
  case False
  have at: "at_place z (r, h) r T []" "rb_tree T" using assms(1) by (simp_all add: rb_rep_def)
  then have rz: "r \<noteq> Some z" using at_facts(2) False by metis
  let ?k = "rb_key n" and ?e = "(a, rb_key n, rb_data n)"
  from descend_place [OF at(1) False assms(2), of ?k] obtain d c e u gs where
    D: "descend (<) (Some z) ?k r h = Some (Done (Some (fst e), d))" and L: "at_place z (r, h) (Some z) Lf ((d, c, e, u) # gs)"
    and P: "plug Lf ((d, c, e, u) # gs) = T"
    and K: "\<forall>e \<in> set (pre ((d, c, e, u) # gs)). entry_key e \<le> ?k" "\<forall>e \<in> set (post ((d, c, e, u) # gs)). ?k < entry_key e"
    by (auto simp del: plug.simps(2))
  let ?fs = "(d, c, e, u) # gs"
  have addrs: "place_addrs Lf ?fs = set (addrs T)" using P place_addrs_plug by (metis addrs_entries set_map)
  then have "a \<notin> place_addrs Lf ?fs" using assms(5) by simp
  from attach_place [OF L assms(3,4) this] obtain h1 where
    h1: "bind_outcome (wr (Some (fst e)) (set_child d (Some a)) h) (\<lambda>h.
      wr (Some a) (\<lambda>n. n\<lparr>rb_parent := Some (fst e), rb_left := Some z, rb_right := Some z, rb_red := True\<rparr>) h) = Done h1"
    "at_place z (r, h1) (Some a) (Nd Lf True ?e Lf) ?fs" "same_off (insert a (set (addrs T))) h h1"
    unfolding addrs by blast
  have ins: "ngx_rbtree_insert_value r (Some a) (Some z) h = Some (Done h1)"
    using D h1(1) assms(3) by (simp add: ngx_rbtree_insert_value_def insert_value_def)
  obtain m where m: "black_height m Lf" "pok m ?fs" using at(2) plug_ok [of Lf ?fs] P by (auto simp del: plug.simps pok.simps)
  then have "black_height m (Nd Lf True ?e Lf)" by simp
  from insert_loop_place [OF h1(2) _ this m(2)] obtain r2 h2 T2 where
    I: "insert_loop (Some z) (Some a) (r, h1) = Some (Done (r2, h2))" "at_place z (r2, h2) r2 T2 []"
    "entries T2 = entries (plug (Nd Lf True ?e Lf) ?fs)" "rb_tree (paint False T2)" "T2 \<noteq> Lf"
    "same_off (place_addrs (Nd Lf True ?e Lf) ?fs) h1 h2" by fastforce
  obtain h3 where h3: "wr r2 (rb_red_update (\<lambda>_. False)) h2 = Done h3" "at_place z (r2, h3) r2 (paint False T2) []"
    "same_off (place_addrs T2 []) h2 h3" using at_color [OF I(2,5), of False] by blast
  have E: "entries T2 = pre ?fs @ ?e # post ?fs" "entries T = pre ?fs @ post ?fs"
    using I(3) P entries_plug [of Lf ?fs] by (simp_all only: entries_plug entries.simps append.simps append_Nil append_assoc)
  have "place_addrs (Nd Lf True ?e Lf) ?fs = insert a (set (addrs T))" "place_addrs T2 [] = insert a (set (addrs T))"
    using E by (auto simp: place_addrs_plug entries_plug addrs_entries simp del: plug.simps(2))
  then have "same_off (insert a (set (addrs T))) h h3" using h1(3) I(6) h3(3) same_off_trans by metis
  moreover have "ngx_rbtree_insert ngx_rbtree_insert_value (Some z) (Some a) (r, h) = Some (Done (r2, h3))"
    using rz ins I(1) h3(1) by (simp add: ngx_rbtree_insert_def)
  moreover have "rb_rep z (r2, h3) (paint False T2)" using h3(2) I(4) by (simp add: rb_rep_def)
  ultimately show ?thesis using E K by (intro exI [of _ "(r2, h3)"] exI [of _ "paint False T2"] exI [of _ "pre ?fs"] exI [of _ "post ?fs"]) simp
qed

end
