(* ===== verification/Rbtree_Delete.thy ===== *)
theory Rbtree_Delete
  imports Rbtree
begin

text \<open>Deletion from the red-black tree of \<open>common/ngx_rbtree.cpp\<close> is correct (the operations are in \<open>Rbtree\<close>).\<close>

section \<open>Places\<close>

text \<open>The pointer to a place is determined by the subtree.\<close>

definition ptr :: "'a \<Rightarrow> 'a rbt \<Rightarrow> 'a option" where
  "ptr z t = (case t of Lf \<Rightarrow> Some z | Nd l c e r \<Rightarrow> Some (fst e))"

lemma ptr_simps [simp]: "ptr z Lf = Some z" "ptr z (Nd l c e r) = Some (fst e)" "ptr z (nd d t c e s) = Some (fst e)"
  "ptr z (paint b t) = ptr z t"
  by (simp_all add: ptr_def nd_def split: side.splits rbt.splits)

lemma at_ptr: "at_place z s x t fs \<Longrightarrow> x = ptr z t"
  by (cases t) (auto simp: at_place_def)

lemma at_down_ptr: "at_place z s x (nd d t c e u) fs \<Longrightarrow>
    rd (child d) x (snd s) = Done (ptr z t) \<and> at_place z s (ptr z t) t ((d, c, e, u) # fs)"
  using at_down at_ptr by metis

lemma at_other: "at_place z s x t ((d, c, e, u) # fs) \<Longrightarrow>
    rd (child (opp d)) (Some (fst e)) (snd s) = Done (ptr z u) \<and> at_place z s (ptr z u) u ((opp d, c, e, t) # fs)"
  by (rule at_down_ptr [where d = "opp d", unfolded opp_opp]) (simp add: nd_eq(2) at_up(1))

text \<open>A place whose node, be it the sentinel, has its parent.\<close>

definition at_temp :: "'a \<Rightarrow> 'a rb_state \<Rightarrow> 'a rbt \<Rightarrow> 'a frames \<Rightarrow> bool" where
  "at_temp z s t fs \<longleftrightarrow> at_place z s (ptr z t) t fs
     \<and> (fs = [] \<or> (\<exists>q \<in> up fs. rd rb_parent (ptr z t) (snd s) = Done q))"

lemma at_tempI:
  assumes "at_place z s' x t ((d, c', e, u') # gs')" "snd s' z = snd s z" "at_temp z s t ((d', c, e, u) # gs)"
  shows "at_temp z s' t ((d, c', e, u') # gs')"
proof (cases "t = Lf")
  case True
  then show ?thesis using assms at_ptr [OF assms(1)] by (auto simp: at_temp_def rd_def)
next
  case False
  then show ?thesis using assms(1) at_ptr [OF assms(1)] at_facts(5) [OF assms(1) False] by (auto simp: at_temp_def)
qed

lemma at_temp_real: "at_place z s x t fs \<Longrightarrow> t \<noteq> Lf \<Longrightarrow> at_temp z s t fs"
  using at_ptr [of z s x t fs] at_facts(5) [of z s x t fs] by (cases fs rule: up.cases) (auto simp: at_temp_def)

lemma at_tempD:
  assumes "at_temp z s t ((d, c, e, u) # gs)"
  shows "at_place z s (ptr z t) t ((d, c, e, u) # gs)" "rd rb_parent (ptr z t) (snd s) = Done (Some (fst e))"
    "sibling d (ptr z t) (snd s) = Done (ptr z u)"
  using assms at_other [of z s "ptr z t" t d c e u gs] by (auto simp: at_temp_def sibling_def)

lemma sentinel_kept: "at_place z s x t fs \<Longrightarrow> same_off (place_addrs t fs) h h' \<Longrightarrow> h' z = h z"
  by (auto simp: at_place_def same_off_def place_addrs_def)

section \<open>The fix-up\<close>

lemma black_sibling_place:
  assumes "at_temp z (r, h) t ((d, c, p, nd d a True we b) # fs)"
  shows "\<exists>s'. black_sibling d (Some z) (ptr z t) (r, h) = Done (ptr z a, s')
    \<and> at_temp z s' t ((d, True, p, a) # (d, False, we, b) # fs)
    \<and> same_off (place_addrs t ((d, c, p, nd d a True we b) # fs)) h (snd s')"
proof -
  let ?A = "place_addrs t ((d, c, p, nd d a True we b) # fs)"
  note T = at_tempD [OF assms]
  have W: "at_place z (r, h) (Some (fst we)) (nd d a True we b) ((opp d, c, p, t) # fs)" using at_other [OF T(1)] by simp
  then have red: "ngx_rbt_is_red (Some (fst we)) h = Done True" using at_facts(1) by fastforce
  obtain h1 where h1: "wr (Some (fst we)) (rb_red_update (\<lambda>_. False)) h = Done h1"
    "at_place z (r, h1) (Some (fst we)) (nd d a False we b) ((opp d, c, p, t) # fs)" "same_off ?A h h1"
    using at_color [OF W, of False] by (auto simp: addrs_nd place_addrs_def insert_commute Un_commute Un_left_commute)
  have "at_place z (r, h1) (ptr z t) t ((d, c, p, nd d a False we b) # fs)" using at_other [OF h1(2)] by simp
  then have t1: "at_temp z (r, h1) t ((d, c, p, nd d a False we b) # fs)"
    using at_tempI assms sentinel_kept [OF T(1) h1(3)] by fastforce
  obtain h2 where h2: "wr (Some (fst p)) (rb_red_update (\<lambda>_. True)) h1 = Done h2"
    "at_place z (r, h2) (ptr z t) t ((d, True, p, nd d a False we b) # fs)" "same_off ?A h1 h2"
    using at_color_up [OF at_tempD(1) [OF t1], of True] by (auto simp: addrs_nd)
  have t2: "at_temp z (r, h2) t ((d, True, p, nd d a False we b) # fs)"
    using at_tempI [OF h2(2) _ t1] sentinel_kept [OF T(1) h2(3)] by simp
  obtain r3 h3 where R: "rotate d (Some z) (Some (fst p)) (r, h2) = Done (r3, h3)"
    "at_place z (r3, h3) (Some (fst we)) (nd d (nd d t True p a) False we b) fs" "same_off ?A h2 h3"
    using rotate_place [OF at_up(1) [OF h2(2)]] by (auto simp: addrs_nd)
  have "at_place z (r3, h3) (ptr z t) t ((d, True, p, a) # (d, False, we, b) # fs)"
    using at_down_ptr [of z "(r3, h3)" "ptr z (nd d t True p a)"] at_down_ptr [OF R(2)] by simp
  then have t3: "at_temp z (r3, h3) t ((d, True, p, a) # (d, False, we, b) # fs)"
    using at_tempI [OF _ _ t2] sentinel_kept [OF T(1) R(3)] by fastforce
  have "black_sibling d (Some z) (ptr z t) (r, h) = Done (ptr z a, (r3, h3))"
    using T(3) red h1(1) at_tempD(2) [OF t1] h2(1) at_tempD(2) [OF t2] R(1) at_tempD(3) [OF t3] by (simp add: black_sibling_def)
  then show ?thesis using t3 same_off_trans [OF same_off_trans [OF h1(3) h2(3)] R(3)] by auto
qed

lemma far_nephew_place:
  assumes "at_temp z (r, h) t ((d, c, p, nd d (nd d a1 ca ae a2) False we b) # fs)" "\<not> red b"
  shows "\<exists>s'. far_nephew d (Some z) (ptr z t) (Some (fst we)) (r, h) = Done (Some (fst ae), s')
    \<and> at_temp z s' t ((d, c, p, nd d a1 False ae (nd d a2 True we b)) # fs)
    \<and> same_off (place_addrs t ((d, c, p, nd d (nd d a1 ca ae a2) False we b) # fs)) h (snd s')"
proof -
  let ?A = "place_addrs t ((d, c, p, nd d (nd d a1 ca ae a2) False we b) # fs)"
  note T = at_tempD [OF assms(1)]
  have W: "at_place z (r, h) (Some (fst we)) (nd d (nd d a1 ca ae a2) False we b) ((opp d, c, p, t) # fs)"
    using at_other [OF T(1)] by simp
  have N: "rd (child d) (Some (fst we)) h = Done (Some (fst ae))"
    "at_place z (r, h) (Some (fst ae)) (nd d a1 ca ae a2) ((d, False, we, b) # (opp d, c, p, t) # fs)"
    using at_down_ptr [OF W] by auto
  have B: "rd (child (opp d)) (Some (fst we)) h = Done (ptr z b)" "ngx_rbt_is_red (ptr z b) h = Done False"
    using at_other [OF N(2)] at_facts(1) [of z "(r, h)" "ptr z b" b] assms(2) by auto
  obtain h1 where h1: "wr (Some (fst ae)) (rb_red_update (\<lambda>_. False)) h = Done h1"
    "at_place z (r, h1) (Some (fst ae)) (nd d a1 False ae a2) ((d, False, we, b) # (opp d, c, p, t) # fs)" "same_off ?A h h1"
    using at_color [OF N(2), of False] by (auto simp: addrs_nd place_addrs_def insert_commute Un_commute Un_left_commute)
  obtain h2 where h2: "wr (Some (fst we)) (rb_red_update (\<lambda>_. True)) h1 = Done h2"
    "at_place z (r, h2) (Some (fst ae)) (nd d a1 False ae a2) ((d, True, we, b) # (opp d, c, p, t) # fs)" "same_off ?A h1 h2"
    using at_color_up [OF h1(2), of True] by (auto simp: addrs_nd place_addrs_def insert_commute Un_commute Un_left_commute)
  have "at_place z (r, h2) (Some (fst we)) (nd (opp d) b True we (nd (opp d) a2 False ae a1)) ((opp d, c, p, t) # fs)"
    using at_up(1) [OF h2(2)] by (simp only: nd_eq(2))
  from rotate_place [OF this] obtain r3 h3 where R: "rotate (opp d) (Some z) (Some (fst we)) (r, h2) = Done (r3, h3)"
    "at_place z (r3, h3) (Some (fst ae)) (nd (opp d) (nd (opp d) b True we a2) False ae a1) ((opp d, c, p, t) # fs)" "same_off ?A h2 h3"
    by (auto simp: addrs_nd place_addrs_def insert_commute Un_commute Un_left_commute)
  have "at_place z (r3, h3) (ptr z t) t ((d, c, p, nd d a1 False ae (nd d a2 True we b)) # fs)"
    using at_other [OF R(2)] by (simp add: nd_eq(2))
  moreover have off: "same_off ?A h h3" by (rule same_off_trans [OF same_off_trans [OF h1(3) h2(3)] R(3)])
  ultimately have t3: "at_temp z (r3, h3) t ((d, c, p, nd d a1 False ae (nd d a2 True we b)) # fs)"
    using at_tempI [OF _ _ assms(1)] sentinel_kept [OF T(1)] by fastforce
  have "far_nephew d (Some z) (ptr z t) (Some (fst we)) (r, h) = Done (Some (fst ae), (r3, h3))"
    using B N(1) h1(1) h2(1) R(1) at_tempD(3) [OF t3] by (simp add: far_nephew_def)
  then show ?thesis using t3 off by auto
qed

lemma raise_sibling_place:
  assumes "at_temp z (r, h) t ((d, c, p, nd d a cw we b) # fs)" "b \<noteq> Lf"
  shows "\<exists>s'. raise_sibling d (Some z) (ptr z t) (Some (fst we)) (r, h) = Done (fst s', s')
    \<and> at_place z s' (Some (fst we)) (nd d (nd d t False p a) c we (paint False b)) fs
    \<and> same_off (place_addrs t ((d, c, p, nd d a cw we b) # fs)) h (snd s')"
proof -
  let ?A = "place_addrs t ((d, c, p, nd d a cw we b) # fs)"
  note T = at_tempD [OF assms(1)]
  have W: "at_place z (r, h) (Some (fst we)) (nd d a cw we b) ((opp d, c, p, t) # fs)" using at_other [OF T(1)] by simp
  have red: "ngx_rbt_is_red (Some (fst p)) h = Done c" using at_facts(1) [OF at_up(1) [OF T(1)]] by simp
  obtain h1 where h1: "wr (Some (fst we)) (rb_red_update (\<lambda>_. c)) h = Done h1"
    "at_place z (r, h1) (Some (fst we)) (nd d a c we b) ((opp d, c, p, t) # fs)" "same_off ?A h h1"
    using at_color [OF W, of c] by (auto simp: addrs_nd place_addrs_def insert_commute Un_commute Un_left_commute)
  have "at_place z (r, h1) (ptr z t) t ((d, c, p, nd d a c we b) # fs)" using at_other [OF h1(2)] by simp
  then have t1: "at_temp z (r, h1) t ((d, c, p, nd d a c we b) # fs)"
    using at_tempI assms(1) sentinel_kept [OF T(1) h1(3)] by fastforce
  obtain h2 where h2: "wr (Some (fst p)) (rb_red_update (\<lambda>_. False)) h1 = Done h2"
    "at_place z (r, h2) (ptr z t) t ((d, False, p, nd d a c we b) # fs)" "same_off ?A h1 h2"
    using at_color_up [OF at_tempD(1) [OF t1], of False] by (auto simp: addrs_nd)
  have W2: "at_place z (r, h2) (Some (fst we)) (nd d a c we b) ((opp d, False, p, t) # fs)" using at_other [OF h2(2)] by simp
  have B: "rd (child (opp d)) (Some (fst we)) h2 = Done (ptr z b)"
    "at_place z (r, h2) (ptr z b) b ((opp d, c, we, a) # (opp d, False, p, t) # fs)"
    using at_other [of z "(r, h2)" "ptr z a" a d c we b] at_down_ptr [OF W2] by auto
  obtain h3 where h3: "wr (ptr z b) (rb_red_update (\<lambda>_. False)) h2 = Done h3"
    "at_place z (r, h3) (ptr z b) (paint False b) ((opp d, c, we, a) # (opp d, False, p, t) # fs)" "same_off ?A h2 h3"
    using at_color [OF B(2) assms(2), of False] by (auto simp: addrs_nd place_addrs_def insert_commute Un_commute Un_left_commute)
  have "at_place z (r, h3) (ptr z t) t ((d, False, p, nd d a c we (paint False b)) # fs)"
    using at_other [OF at_up(1) [OF h3(2)]] by (simp add: nd_eq(2))
  moreover have off: "same_off ?A h h3" by (rule same_off_trans [OF same_off_trans [OF h1(3) h2(3)] h3(3)])
  ultimately have t3: "at_temp z (r, h3) t ((d, False, p, nd d a c we (paint False b)) # fs)"
    using at_tempI [OF _ _ assms(1)] sentinel_kept [OF T(1)] by fastforce
  obtain r4 h4 where R: "rotate d (Some z) (Some (fst p)) (r, h3) = Done (r4, h4)"
    "at_place z (r4, h4) (Some (fst we)) (nd d (nd d t False p a) c we (paint False b)) fs" "same_off ?A h3 h4"
    using rotate_place [OF at_up(1) [OF at_tempD(1) [OF t3]]] by (auto simp: addrs_nd)
  have "raise_sibling d (Some z) (ptr z t) (Some (fst we)) (r, h) = Done (r4, (r4, h4))"
    using T(2) red h1(1) at_tempD(2) [OF t1] h2(1) B(1) h3(1) at_tempD(2) [OF t3] R(1)
    by (simp add: raise_sibling_def ngx_rbt_copy_color_def)
  then show ?thesis using R(2) same_off_trans [OF off R(3)] by auto
qed

text \<open>One iteration on places, first with a black sibling.\<close>

inductive del_black :: "'a rbt \<Rightarrow> 'a frames \<Rightarrow> 'a rbt \<Rightarrow> 'a frames \<Rightarrow> bool" where
  up: "\<not> red a \<Longrightarrow> \<not> red b \<Longrightarrow>
    del_black t ((d, c, p, nd d a False we b) # fs) (nd d t c p (nd d a True we b)) fs"
| far: "red b \<Longrightarrow> del_black t ((d, c, p, nd d a False we b) # fs)
    (plug (nd d (nd d t False p a) c we (paint False b)) fs) []"
| near: "\<not> red b \<Longrightarrow> del_black t ((d, c, p, nd d (nd d a1 True ae a2) False we b) # fs)
    (plug (nd d (nd d t False p a1) c ae (nd d a2 False we b)) fs) []"

inductive del_fixed :: "'a rbt \<Rightarrow> 'a frames \<Rightarrow> 'a rbt \<Rightarrow> 'a frames \<Rightarrow> bool" where
  black: "del_black t ((d, c, p, nd d a False we b) # fs) t' fs' \<Longrightarrow>
    del_fixed t ((d, c, p, nd d a False we b) # fs) t' fs'"
| red: "del_black t ((d, True, p, a) # (d, False, we, b) # fs) t' fs' \<Longrightarrow>
    del_fixed t ((d, c, p, nd d a True we b) # fs) t' fs'"

lemma black_children_place:
  assumes "at_place z (r, h) x (nd d a c e b) fs"
  shows "black_children x h = Done (\<not> red a \<and> \<not> red b)"
proof -
  obtain l u where t: "nd d a c e b = nd Lft l c e u" "{l, u} = {a, b}" by (cases d) (auto simp: nd_def)
  then have "at_place z (r, h) x (nd Lft l c e u) fs" using assms by simp
  note L = at_down_ptr [OF this] and U = at_other [OF at_down_ptr [OF this, THEN conjunct2]]
  have "rd rb_left x h = Done (ptr z l)" "rd rb_right x h = Done (ptr z u)"
    using L U at_ptr [OF assms] by (auto simp: child_fields)
  moreover have "ngx_rbt_is_red (ptr z l) h = Done (red l)" "ngx_rbt_is_red (ptr z u) h = Done (red u)"
    using at_facts(1) L U by fastforce+
  moreover have "\<not> red l \<and> \<not> red u \<longleftrightarrow> \<not> red a \<and> \<not> red b" using t(2) by (auto simp: doubleton_eq_iff)
  ultimately show ?thesis by (auto simp: black_children_def)
qed

lemma at_root: "at_place z s x t fs \<Longrightarrow> at_place z s (fst s) (plug t fs) [] \<and> fst s = ptr z (plug t fs)"
  using at_plug [of z s x t fs] at_ptr [of z s "fst s" "plug t fs" "[]"] by simp

lemma delete_fix_black_place:
  assumes "at_temp z (r, h) t ((d, c, p, nd d a False we b) # fs)"
  shows "\<exists>s' t' fs'. delete_fix_black d (Some z) (ptr z t) (Some (fst we)) (r, h) = Done (ptr z t', s')
    \<and> at_temp z s' t' fs' \<and> del_black t ((d, c, p, nd d a False we b) # fs) t' fs'
    \<and> same_off (place_addrs t ((d, c, p, nd d a False we b) # fs)) h (snd s')"
proof -
  let ?A = "place_addrs t ((d, c, p, nd d a False we b) # fs)"
  note T = at_tempD [OF assms]
  have W: "at_place z (r, h) (Some (fst we)) (nd d a False we b) ((opp d, c, p, t) # fs)" using at_other [OF T(1)] by simp
  note B = black_children_place [OF W]
  show ?thesis
  proof (cases "\<not> red a \<and> \<not> red b")
    case True
    obtain h1 where h1: "wr (Some (fst we)) (rb_red_update (\<lambda>_. True)) h = Done h1"
      "at_place z (r, h1) (Some (fst we)) (nd d a True we b) ((opp d, c, p, t) # fs)" "same_off ?A h h1"
      using at_color [OF W, of True] by (auto simp: addrs_nd place_addrs_def insert_commute Un_commute Un_left_commute)
    have "at_place z (r, h1) (ptr z t) t ((d, c, p, nd d a True we b) # fs)" using at_other [OF h1(2)] by simp
    then have t1: "at_temp z (r, h1) t ((d, c, p, nd d a True we b) # fs)"
      using at_tempI assms sentinel_kept [OF T(1) h1(3)] by fastforce
    have "at_temp z (r, h1) (nd d t c p (nd d a True we b)) fs" using at_temp_real [OF at_up(1) [OF at_tempD(1) [OF t1]] nd_not_Lf] .
    moreover have "delete_fix_black d (Some z) (ptr z t) (Some (fst we)) (r, h) = Done (Some (fst p), (r, h1))"
      using B True h1(1) at_tempD(2) [OF t1] by (simp add: delete_fix_black_def)
    moreover have "del_black t ((d, c, p, nd d a False we b) # fs) (nd d t c p (nd d a True we b)) fs"
      using True by (intro del_black.up) simp_all
    ultimately show ?thesis using h1(3)
      by (intro exI [of _ "(r, h1)"] exI [of _ "nd d t c p (nd d a True we b)"] exI [of _ fs]) simp
  next
    case False
    have finish: "\<exists>s' t' fs'. delete_fix_black d (Some z) (ptr z t) (Some (fst we)) (r, h) = Done (ptr z t', s')
        \<and> at_temp z s' t' fs' \<and> (t', fs') = (plug (nd d (nd d t False p a') c we' (paint False b')) fs, []) \<and> same_off ?A h (snd s')"
      if F: "far_nephew d (Some z) (ptr z t) (Some (fst we)) (r, h) = Done (Some (fst we'), s1)"
        "at_temp z s1 t ((d, c, p, nd d a' cw we' b') # fs)" "b' \<noteq> Lf" "same_off ?A h (snd s1)"
        "place_addrs t ((d, c, p, nd d a' cw we' b') # fs) = ?A" for we' s1 a' b' cw
    proof -
      have F2: "at_temp z (fst s1, snd s1) t ((d, c, p, nd d a' cw we' b') # fs)" using F(2) by simp
      obtain s2 where s2: "raise_sibling d (Some z) (ptr z t) (Some (fst we')) s1 = Done (fst s2, s2)"
        "at_place z s2 (Some (fst we')) (nd d (nd d t False p a') c we' (paint False b')) fs" "same_off ?A (snd s1) (snd s2)"
        using raise_sibling_place [OF F2 F(3)] F(5) by auto
      have "at_temp z s2 (plug (nd d (nd d t False p a') c we' (paint False b')) fs) []"
        using at_root [OF s2(2)] by (metis at_temp_def)
      moreover have "delete_fix_black d (Some z) (ptr z t) (Some (fst we)) (r, h) = Done (fst s2, s2)"
        using B False F(1) s2(1) by (simp add: delete_fix_black_def)
      ultimately show ?thesis using at_root [OF s2(2)] same_off_trans [OF F(4) s2(3)] by auto
    qed
    show ?thesis
    proof (cases "red b")
      case True
      have "far_nephew d (Some z) (ptr z t) (Some (fst we)) (r, h) = Done (Some (fst we), (r, h))"
      proof -
        have "at_place z (r, h) (ptr z a) a ((d, False, we, b) # (opp d, c, p, t) # fs)" using at_down_ptr [OF W] by simp
        from at_other [OF this] show ?thesis
          using at_facts(1) [of z "(r, h)" "ptr z b" b] True by (auto simp: far_nephew_def)
      qed
      from finish [OF this assms] True show ?thesis using del_black.far [OF True] by fastforce
    next
      case nb: False
      then obtain a1 ae a2 where a: "a = nd d a1 True ae a2" using False by (cases a; cases d) (auto simp: nd_def)
      obtain s1 where s1: "far_nephew d (Some z) (ptr z t) (Some (fst we)) (r, h) = Done (Some (fst ae), s1)"
        "at_temp z s1 t ((d, c, p, nd d a1 False ae (nd d a2 True we b)) # fs)" "same_off ?A h (snd s1)"
        using far_nephew_place [OF assms [unfolded a] nb] a by auto
      have "place_addrs t ((d, c, p, nd d a1 False ae (nd d a2 True we b)) # fs) = ?A" using a by (auto simp: addrs_nd)
      from finish [OF s1(1,2) nd_not_Lf s1(3) this] show ?thesis
        using del_black.near [OF nb, of t d c p a1 ae a2 we fs] a by fastforce
    qed
  qed
qed

lemma delete_fix_place:
  assumes "at_temp z (r, h) t ((d, c, p, nd d a cw we b) # fs)" "cw \<Longrightarrow> a \<noteq> Lf \<and> \<not> red a"
  shows "\<exists>s' t' fs'. delete_fix d (Some z) (ptr z t) (r, h) = Done (ptr z t', s')
    \<and> at_temp z s' t' fs' \<and> del_fixed t ((d, c, p, nd d a cw we b) # fs) t' fs'
    \<and> same_off (place_addrs t ((d, c, p, nd d a cw we b) # fs)) h (snd s')"
proof (cases cw)
  case False
  have at: "at_temp z (r, h) t ((d, c, p, nd d a False we b) # fs)" using assms(1) False by simp
  have "at_place z (r, h) (Some (fst we)) (nd d a False we b) ((opp d, c, p, t) # fs)" using at_other [OF at_tempD(1) [OF at]] by simp
  then have "ngx_rbt_is_red (Some (fst we)) h = Done False" using at_facts(1) by fastforce
  then have "black_sibling d (Some z) (ptr z t) (r, h) = Done (Some (fst we), (r, h))"
    using at_tempD(3) [OF at] by (simp add: black_sibling_def)
  moreover obtain s' t' fs' where "delete_fix_black d (Some z) (ptr z t) (Some (fst we)) (r, h) = Done (ptr z t', s')"
    "at_temp z s' t' fs'" "del_black t ((d, c, p, nd d a False we b) # fs) t' fs'"
    "same_off (place_addrs t ((d, c, p, nd d a False we b) # fs)) h (snd s')" using delete_fix_black_place [OF at] by blast
  ultimately show ?thesis using del_fixed.black False
    by (intro exI [of _ s'] exI [of _ t'] exI [of _ fs']) (simp add: delete_fix_def)
next
  case True
  then obtain a1 e a2 where a: "a = nd d a1 False e a2" using assms(2) by (cases a; cases d) (auto simp: nd_def)
  let ?A = "place_addrs t ((d, c, p, nd d a True we b) # fs)"
  have at: "at_temp z (r, h) t ((d, c, p, nd d a True we b) # fs)" using assms(1) True by simp
  obtain s1 where s1: "black_sibling d (Some z) (ptr z t) (r, h) = Done (ptr z a, s1)"
    "at_temp z (fst s1, snd s1) t ((d, True, p, a) # (d, False, we, b) # fs)" "same_off ?A h (snd s1)"
    using black_sibling_place [OF at] by auto
  obtain s2 t' fs' where s2: "delete_fix_black d (Some z) (ptr z t) (Some (fst e)) s1 = Done (ptr z t', s2)"
    "at_temp z s2 t' fs'" "del_black t ((d, True, p, a) # (d, False, we, b) # fs) t' fs'" "same_off ?A (snd s1) (snd s2)"
    using delete_fix_black_place [OF s1(2) [unfolded a]] a by (auto simp: addrs_nd insert_commute Un_commute Un_left_commute)
  have "delete_fix d (Some z) (ptr z t) (r, h) = Done (ptr z t', s2)" using s1(1) s2(1) a by (simp add: delete_fix_def)
  then show ?thesis using s2(2) del_fixed.red [OF s2(3), of c] same_off_trans [OF s1(3) s2(4)] True
    by (intro exI [of _ s2] exI [of _ t'] exI [of _ fs']) simp
qed

section \<open>The loop\<close>

text \<open>A place whose subtree has one black node too few on every path; a red root makes up for it once it is
  painted black.\<close>

definition short :: "nat \<Rightarrow> 'a rbt \<Rightarrow> 'a frames \<Rightarrow> bool" where
  "short n t fs \<longleftrightarrow> pok (Suc n) fs \<and> (if red t then black_height (Suc n) (paint False t) else black_height n t)"

lemma short_done: "short n t fs \<Longrightarrow> red t \<or> fs = [] \<Longrightarrow> rb_tree (plug (paint False t) fs)"
proof (cases "red t")
  case True
  assume "short n t fs"
  then have "black_height (Suc n) (paint False t)" "pok (Suc n) fs" using True by (simp_all add: short_def)
  then show ?thesis unfolding plug_ok by auto
next
  case False
  assume "short n t fs" "red t \<or> fs = []"
  then show ?thesis using False by (auto simp: short_def rb_tree_def paint_black)
qed

lemma rb_tree_paint: "rb_tree t \<Longrightarrow> rb_tree (paint False t)"
  by (simp add: rb_tree_def paint_black)

lemma del_black_entries: "del_black t fs t' fs' \<Longrightarrow> entries (plug t' fs') = entries (plug t fs)"
  by (induction rule: del_black.induct) (auto simp: entries_plug entries_nd split: side.splits)

lemma del_fixed_entries: "del_fixed t fs t' fs' \<Longrightarrow> entries (plug t' fs') = entries (plug t fs)"
proof (induction rule: del_fixed.induct)
  case (red t d p a we b fs t' fs' c)
  then show ?case using del_black_entries [OF red] by (auto simp: entries_plug entries_nd split: side.splits)
qed (simp add: del_black_entries)

lemma short_plug: "pok n fs \<Longrightarrow> black_height n t \<Longrightarrow> (red t \<Longrightarrow> \<not> redtop fs) \<Longrightarrow> \<exists>m. short m (plug t fs) []"
  using plug_ok [of t fs] by (auto simp: short_def rb_tree_def)

lemma del_black_short:
  "del_black t fs t' fs' \<Longrightarrow> short n t fs \<Longrightarrow> \<not> red t \<Longrightarrow> \<exists>m. short m t' fs'"
proof (induction rule: del_black.induct)
  case (up a b t d c p we fs)
  then show ?case by (cases c) (auto simp: short_def intro: exI [of _ n] exI [of _ "Suc n"])
next
  case (far b t d c p a we fs)
  then have "black_height n t" "black_height n a" "black_height n b" "pok (if c then Suc n else Suc (Suc n)) fs" "c \<Longrightarrow> \<not> redtop fs"
    by (auto simp: short_def)
  then show ?case using ok_paint [OF far(1)]
    by (intro short_plug [of "if c then Suc n else Suc (Suc n)"]) (auto simp: far)
next
  case (near b t d c p a1 ae a2 we fs)
  then have "black_height n t" "black_height n a1" "black_height n a2" "black_height n b" "pok (if c then Suc n else Suc (Suc n)) fs" "c \<Longrightarrow> \<not> redtop fs"
    by (auto simp: short_def)
  then show ?case by (intro short_plug [of "if c then Suc n else Suc (Suc n)"]) (auto simp: near)
qed

lemma short_sibling: "short n t ((d, c, p, nd d a True we b) # fs) \<Longrightarrow> short n t ((d, True, p, a) # (d, False, we, b) # fs)"
  by (auto simp: short_def)

text \<open>Each iteration comes nearer to the root or to a red place.\<close>

definition steps_left :: "'a rbt \<Rightarrow> 'a frames \<Rightarrow> nat" where
  "steps_left t fs = (if red t then 0 else Suc (length fs))"

lemma del_black_less: "del_black t fs t' fs' \<Longrightarrow> \<not> red t \<Longrightarrow> steps_left t' fs' < steps_left t fs"
  by (induction rule: del_black.induct) (auto simp: steps_left_def)

lemma del_black_red: "del_black t ((d, True, p, w) # f # fs) t' fs' \<Longrightarrow> red t' \<or> fs' = []"
  by (erule del_black.cases) auto

lemma del_fixed_less: "del_fixed t fs t' fs' \<Longrightarrow> \<not> red t \<Longrightarrow> steps_left t' fs' < steps_left t fs"
proof (induction rule: del_fixed.induct)
  case (red t d p a we b fs t' fs' c)
  then show ?case using del_black_red [OF red(1)] by (auto simp: steps_left_def)
qed (rule del_black_less)

lemma del_fixed_short: "del_fixed t fs t' fs' \<Longrightarrow> short n t fs \<Longrightarrow> \<not> red t \<Longrightarrow> \<exists>m. short m t' fs'"
proof (induction rule: del_fixed.induct)
  case (red t d p a we b fs t' fs' c)
  then show ?case using del_black_short [OF red(1) short_sibling] by blast
qed (rule del_black_short)

lemma temp_side:
  assumes "at_temp z (r, h) t ((d, c, p, w) # fs)" "w \<noteq> Lf"
  shows "\<exists>q. rd rb_left (Some (fst p)) h = Done q \<and> (if ptr z t = q then Lft else Rgt) = d"
proof -
  note T = at_tempD [OF assms(1)]
  note U = at_up(2) [OF T(1)] at_other [OF T(1)]
  have "ptr z w \<noteq> ptr z t"
  proof -
    obtain b where b: "ptr z w = Some b" "b \<in> set (addrs w)" using assms(2) by (cases w) auto
    moreover have "b \<noteq> z" "b \<notin> set (addrs t)" using T(1) b(2) by (auto simp: at_place_def)
    ultimately show ?thesis by (cases t) auto
  qed
  then show ?thesis using U by (cases d) (auto simp: child_fields)
qed

lemma delete_turn_place:
  assumes "at_temp z (r, h) t fs" "short n t fs"
  shows "delete_turn (Some z) (ptr z t) (r, h) = Done None \<and> (red t \<or> fs = [])
    \<or> \<not> red t \<and> (\<exists>s' t' fs'. delete_turn (Some z) (ptr z t) (r, h) = Done (Some (ptr z t', s')) \<and> at_temp z s' t' fs'
       \<and> del_fixed t fs t' fs' \<and> same_off (place_addrs t fs) h (snd s'))"
proof (cases fs)
  case Nil
  then have "ptr z t = r" using assms(1) at_facts(4) by (fastforce simp: at_temp_def)
  then show ?thesis using Nil by (simp add: delete_turn_def)
next
  case (Cons f gs)
  obtain d c p w where f: "fs = (d, c, p, w) # gs" using Cons by (cases f) auto
  note T = at_tempD [OF assms(1) [unfolded f]]
  have x: "ptr z t \<noteq> r" using at_facts(3) [OF T(1)] by simp
  have red: "ngx_rbt_is_red (ptr z t) h = Done (red t)" using at_facts(1) [OF T(1)] by simp
  show ?thesis
  proof (cases "red t")
    case True
    then show ?thesis using x red by (simp add: delete_turn_def)
  next
    case False
    have W: "black_height (Suc n) w" using assms(2) f by (simp add: short_def)
    then obtain a cw we b where w: "w = nd d a cw we b" using nd_exists [of w d] by (cases "w = Lf") auto
    have a: "a \<noteq> Lf \<and> \<not> red a" if cw using W w that by (cases a) auto
    obtain q where q: "rd rb_left (Some (fst p)) h = Done q" "(if ptr z t = q then Lft else Rgt) = d"
      using temp_side [OF assms(1) [unfolded f]] w by auto
    obtain s' t' fs' where D: "delete_fix d (Some z) (ptr z t) (r, h) = Done (ptr z t', s')" "at_temp z s' t' fs'"
      "del_fixed t fs t' fs'" "same_off (place_addrs t fs) h (snd s')"
      using delete_fix_place [OF assms(1) [unfolded f w] a] f w by blast
    have "delete_turn (Some z) (ptr z t) (r, h) = Done (Some (ptr z t', s'))"
      using x red False T(2) q D(1) by (simp add: delete_turn_def)
    then show ?thesis using D False by blast
  qed
qed

lemma delete_loop_place:
  assumes "at_temp z s t fs" "short n t fs"
  shows "\<exists>s' t' fs'. delete_loop (Some z) (ptr z t) s = Some (Done (ptr z t', s')) \<and> at_temp z s' t' fs'
    \<and> entries (plug t' fs') = entries (plug t fs) \<and> rb_tree (plug (paint False t') fs')
    \<and> same_off (place_addrs t fs) (snd s) (snd s')"
  using assms
proof (induction "steps_left t fs" arbitrary: s t fs n rule: less_induct)
  case less
  obtain r h where s: "s = (r, h)" by (cases s)
  from delete_turn_place [OF less.prems [unfolded s]] show ?case
  proof (elim disjE exE conjE)
    assume "delete_turn (Some z) (ptr z t) (r, h) = Done None" "red t"
    then show ?case using s less.prems short_done [OF less.prems(2)]
      by (intro exI [of _ s] exI [of _ t] exI [of _ fs]) (simp add: delete_loop.simps)
  next
    assume "delete_turn (Some z) (ptr z t) (r, h) = Done None" "fs = []"
    then show ?case using s less.prems short_done [OF less.prems(2)]
      by (intro exI [of _ s] exI [of _ t] exI [of _ fs]) (simp add: delete_loop.simps)
  next
    fix s' t' fs'
    assume N: "\<not> red t" "delete_turn (Some z) (ptr z t) (r, h) = Done (Some (ptr z t', s'))" "at_temp z s' t' fs'"
      "del_fixed t fs t' fs'" "same_off (place_addrs t fs) h (snd s')"
    obtain m where m: "short m t' fs'" using del_fixed_short [OF N(4) less.prems(2) N(1)] by blast
    from less.hyps [OF del_fixed_less [OF N(4,1)] N(3) m] obtain s'' t'' fs'' where
      I: "delete_loop (Some z) (ptr z t') s' = Some (Done (ptr z t'', s''))" "at_temp z s'' t'' fs''"
      "entries (plug t'' fs'') = entries (plug t' fs')" "rb_tree (plug (paint False t'') fs'')"
      "same_off (place_addrs t' fs') (snd s') (snd s'')" by blast
    have e: "entries (plug t' fs') = entries (plug t fs)" using del_fixed_entries [OF N(4)] .
    then have "place_addrs t' fs' = place_addrs t fs" by (simp add: place_addrs_plug)
    then have "same_off (place_addrs t fs) (snd s) (snd s'')" using N(5) I(5) s same_off_trans by (metis snd_conv)
    moreover have "delete_loop (Some z) (ptr z t) s = Some (Done (ptr z t'', s''))" using N(2) I(1) s by (simp add: delete_loop.simps)
    ultimately show ?case using I e by metis
  qed
qed

section \<open>Taking a node out\<close>

lemma tree_mono: "tree h S P x t \<Longrightarrow> P \<subseteq> Q \<Longrightarrow> tree h S Q x t"
  by (cases t) auto

lemma reparent_child:
  assumes "tree h (Some z) P y t" "distinct (addrs t)" "z \<notin> set (addrs t)"
  shows "\<exists>h'. (if y \<noteq> Some z then wr y (rb_parent_update (\<lambda>_. q)) h else Done h) = Done h'
    \<and> tree h' (Some z) {q} y t \<and> same_off (set (addrs t)) h h'"
proof (cases "y = Some z")
  case True
  then have "t = Lf" using assms tree_root [OF assms(1)] by (cases t) auto
  then show ?thesis using True by simp
next
  case False
  from tree_reparent [OF assms(1) False assms(2), of q] obtain b n where
    b: "y = Some b" "b \<in> set (addrs t)" "h b = Some n"
    "\<And>h'. h' b = Some (n\<lparr>rb_parent := q\<rparr>) \<Longrightarrow> \<forall>a \<in> set (addrs t) - {b}. h' a = h a \<Longrightarrow> tree h' (Some z) {q} y t" by blast
  have "tree (h(b \<mapsto> n\<lparr>rb_parent := q\<rparr>)) (Some z) {q} y t" by (rule b(4)) simp_all
  then show ?thesis using False b(1-3) by (intro exI [of _ "h(b \<mapsto> n\<lparr>rb_parent := q\<rparr>)"]) simp
qed

text \<open>The pointer to a node from above, found by comparing it with the left child.\<close>

lemma relink_above:
  assumes "path h (Some z) r (Some a) fs" "distinct (a # z # paddrs fs)" "h a = Some n" "rb_parent n \<in> up fs"
  shows "\<exists>r' h'. (if Some a = r then Done (y, h)
      else bind_outcome (rd rb_parent (Some a) h) (\<lambda>p. bind_outcome (rd rb_left p h) (\<lambda>x.
        bind_outcome (wr p (set_child (if Some a = x then Lft else Rgt) y) h) (\<lambda>h. Done (r, h))))) = Done (r', h')
    \<and> path h' (Some z) r' y fs \<and> same_off (set (paddrs fs)) h h' \<and> (fs \<noteq> [] \<longrightarrow> r \<noteq> Some a \<and> r' = r)"
proof (cases "fs = []")
  case True
  then show ?thesis using assms(1) by simp
next
  case False
  have "distinct (paddrs fs)" using assms(2) by simp
  from path_relink [OF assms(1) this] False obtain d c e u gs m where
    f: "fs = (d, c, e, u) # gs" "h (fst e) = Some m" "child d m = Some a"
    "child (opp d) m = Some z \<or> (\<exists>b \<in> set (addrs u). child (opp d) m = Some b)"
    "\<And>h' y. h' (fst e) = Some (set_child d y m) \<Longrightarrow> \<forall>q \<in> set (paddrs fs) - {fst e}. h' q = h q \<Longrightarrow> path h' (Some z) r y fs"
    by auto
  have "child (opp d) m \<noteq> Some a" using f(1,4) assms(2) by auto
  then have side: "(if Some a = rb_left m then Lft else Rgt) = d" using f(3) by (cases d) auto
  have "r \<noteq> Some a" using path_root [OF assms(1) False] assms(2) by auto
  moreover have "path (h(fst e \<mapsto> set_child d y m)) (Some z) r y fs" by (rule f(5)) simp_all
  ultimately show ?thesis using False f(1,2) side assms(3,4)
    by (intro exI [of _ r] exI [of _ "h(fst e \<mapsto> set_child d y m)"]) simp
qed

lemma replace_place:
  assumes n: "holds h c e n" "rb_parent n \<in> up fs" "tree h (Some z) UNIV (rb_left n) l" "tree h (Some z) UNIV (rb_right n) u"
    and p: "path h (Some z) r (Some (fst e)) fs"
    and dis: "distinct (z # fst m # fst e # addrs l @ addrs u @ paddrs fs)"
    and k: "h (fst m) = Some k" "m = (fst m, rb_key k, rb_data k)" and z: "\<exists>n. h z = Some n \<and> \<not> rb_red n"
  shows "\<exists>r' h'. replace_node (Some z) (Some (fst e)) (Some (fst m)) (r, h) = Done (r', h')
    \<and> at_place z (r', h') (Some (fst m)) (Nd l c m u) fs \<and> same_off (insert (fst m) (set (addrs l @ addrs u @ paddrs fs))) h h'"
proof -
  let ?a = "fst e" and ?b = "fst m"
  define k1 where "k1 = k\<lparr>rb_left := rb_left n\<rparr>"
  define k2 where "k2 = k1\<lparr>rb_right := rb_right n\<rparr>"
  define k3 where "k3 = k2\<lparr>rb_parent := rb_parent n\<rparr>"
  define k' where "k' = k3\<lparr>rb_red := c\<rparr>"
  note k_defs = k1_def k2_def k3_def k'_def
  let ?h1 = "h(?b \<mapsto> k')"
  have ne: "?a \<noteq> ?b" using dis by auto
  have hn: "h ?a = Some n" "rb_red n = c" using n(1) by (simp_all add: holds_def)
  have P: "path ?h1 (Some z) r (Some ?a) fs" by (rule path_cong [OF _ p]) (use dis in auto)
  have D: "distinct (?a # z # paddrs fs)" "?h1 ?a = Some n" using dis ne hn by auto
  from relink_above [OF P D n(2), of "Some ?b"] obtain r2 h2 where h2: "(if Some ?a = r then Done (Some ?b, ?h1)
      else bind_outcome (rd rb_parent (Some ?a) ?h1) (\<lambda>p. bind_outcome (rd rb_left p ?h1) (\<lambda>x.
        bind_outcome (wr p (set_child (if Some ?a = x then Lft else Rgt) (Some ?b)) ?h1) (\<lambda>h. Done (r, h))))) = Done (r2, h2)"
    "path h2 (Some z) r2 (Some ?b) fs" "same_off (set (paddrs fs)) ?h1 h2"
    by (elim exE conjE) (rule that)
  have h2q: "h2 q = ?h1 q" if "q \<notin> set (paddrs fs)" for q using h2(3) that by (simp add: same_off_def)
  have disj: "set (addrs l) \<inter> set (paddrs fs) = {}" "set (addrs l) \<inter> set (addrs u) = {}"
    "set (addrs u) \<inter> set (paddrs fs) = {}" "?b \<notin> set (addrs l)" "?b \<notin> set (addrs u)" using dis by auto
  have sep: "q \<in> set (addrs l) \<Longrightarrow> q \<notin> set (paddrs fs) \<and> q \<notin> set (addrs u) \<and> q \<noteq> ?b"
    "q \<in> set (addrs u) \<Longrightarrow> q \<notin> set (paddrs fs) \<and> q \<notin> set (addrs l) \<and> q \<noteq> ?b"
    "q \<in> set (paddrs fs) \<Longrightarrow> q \<notin> set (addrs u) \<and> q \<notin> set (addrs l)" for q
    using disj by blast+
  have "tree h2 (Some z) UNIV (rb_left n) l" by (rule tree_cong [OF _ n(3)]) (metis sep(1) h2q fun_upd_other)
  then obtain h3 where h3: "(if rb_left n \<noteq> Some z then wr (rb_left n) (rb_parent_update (\<lambda>_. Some ?b)) h2 else Done h2) = Done h3"
    "tree h3 (Some z) {Some ?b} (rb_left n) l" "same_off (set (addrs l)) h2 h3"
    using reparent_child [of h2 z UNIV "rb_left n" l "Some ?b"] dis by auto
  have h3q: "h3 q = h2 q" if "q \<notin> set (addrs l)" for q using h3(3) that by (simp add: same_off_def)
  have "tree h3 (Some z) UNIV (rb_right n) u"
    by (rule tree_cong [OF _ n(4)]) (metis sep(2) h2q h3q fun_upd_other)
  then obtain h4 where h4: "(if rb_right n \<noteq> Some z then wr (rb_right n) (rb_parent_update (\<lambda>_. Some ?b)) h3 else Done h3) = Done h4"
    "tree h4 (Some z) {Some ?b} (rb_right n) u" "same_off (set (addrs u)) h3 h4"
    using reparent_child [of h3 z UNIV "rb_right n" u "Some ?b"] dis by auto
  have h4q: "h4 q = h3 q" if "q \<notin> set (addrs u)" for q using h4(3) that by (simp add: same_off_def)
  have kb: "h2 ?b = Some k'" "h3 ?b = Some k'" "h4 ?b = Some k'" using h2q h3q h4q dis by auto
  have c: "bind_outcome (rd rb_left (Some ?a) h) (\<lambda>x. wr (Some ?b) (rb_left_update (\<lambda>_. x)) h) = Done (h(?b \<mapsto> k1))"
    "bind_outcome (rd rb_right (Some ?a) (h(?b \<mapsto> k1))) (\<lambda>x. wr (Some ?b) (rb_right_update (\<lambda>_. x)) (h(?b \<mapsto> k1))) = Done (h(?b \<mapsto> k2))"
    "bind_outcome (rd rb_parent (Some ?a) (h(?b \<mapsto> k2))) (\<lambda>x. wr (Some ?b) (rb_parent_update (\<lambda>_. x)) (h(?b \<mapsto> k2))) = Done (h(?b \<mapsto> k3))"
    "ngx_rbt_copy_color (Some ?b) (Some ?a) (h(?b \<mapsto> k3)) = Done ?h1"
    using hn k(1) ne by (simp_all add: k1_def k2_def k3_def k'_def ngx_rbt_copy_color_def)
  have f: "rb_left k' = rb_left n" "rb_right k' = rb_right n" by (simp_all add: k'_def k1_def k2_def k3_def)
  have g: "bind_outcome (rd rb_left (Some ?b) h2) (\<lambda>x. if x \<noteq> Some z then wr x (rb_parent_update (\<lambda>_. Some ?b)) h2 else Done h2) = Done h3"
    "bind_outcome (rd rb_right (Some ?b) h3) (\<lambda>x. if x \<noteq> Some z then wr x (rb_parent_update (\<lambda>_. Some ?b)) h3 else Done h3) = Done h4"
    unfolding rd_Some [of h2, OF kb(1)] rd_Some [of h3, OF kb(2)] bind_outcome.simps f by (fact h3(1), fact h4(1))
  have run: "replace_node (Some z) (Some ?a) (Some ?b) (r, h) = Done (r2, h4)"
    by (simp only: replace_node_def prod.case c bind_outcome.simps h2(1) g)
  have "tree h4 (Some z) {Some ?b} (rb_left n) l" by (rule tree_cong [OF _ h3(2)]) (metis sep(1) h4q)
  moreover have "path h4 (Some z) r2 (Some ?b) fs" by (rule path_cong [OF _ h2(2)]) (metis sep(3) h3q h4q)
  moreover have "h4 z = h z" using h2q h3q h4q dis by auto
  moreover have "rb_key k' = entry_key m" "rb_data k' = snd (snd m)" using k(2) by (simp_all add: k_defs) (metis fst_conv snd_conv)+
  ultimately have "at_place z (r2, h4) (Some ?b) (Nd l c m u) fs"
    using n(2) h4(2) kb(3) z dis by (auto simp: at_place_def holds_def k_defs)
  moreover have "same_off (insert ?b (set (addrs l @ addrs u @ paddrs fs))) h h4"
    using h2q h3q h4q by (auto simp: same_off_def)
  ultimately show ?thesis using run by blast
qed

lemma take_out:
  assumes "at_place z (r, h) (Some (fst e)) (nd d u c e Lf) ((d0, c0, e0, s0) # gs)"
  shows "\<exists>x h1 h'. rd rb_parent (Some (fst e)) h = Done (Some (fst e0)) \<and> rd rb_left (Some (fst e0)) h = Done x
    \<and> wr (Some (fst e0)) (set_child (if Some (fst e) = x then Lft else Rgt) (ptr z u)) h = Done h1
    \<and> rd rb_parent (Some (fst e)) h1 = Done (Some (fst e0))
    \<and> wr (ptr z u) (rb_parent_update (\<lambda>_. q)) h1 = Done h'
    \<and> path h' (Some z) r (ptr z u) ((d0, c0, e0, s0) # gs) \<and> tree h' (Some z) {q} (ptr z u) u
    \<and> rd rb_parent (ptr z u) h' = Done q \<and> h' (fst e) = h (fst e)
    \<and> (\<exists>p. h' z = map_option (\<lambda>n. n\<lparr>rb_parent := p\<rparr>) (h z))
    \<and> same_off (insert z (place_addrs u ((d0, c0, e0, s0) # gs))) h h'"
proof -
  let ?fs = "(d0, c0, e0, s0) # gs" and ?a = "fst e"
  obtain n where n: "h ?a = Some n" "rb_parent n = Some (fst e0)" "tree h (Some z) {Some ?a} (child d n) u"
    using assms by (auto simp: at_place_def tree_nd holds_def)
  have p: "path h (Some z) r (Some ?a) ?fs" and dis: "distinct (?a # z # addrs u @ paddrs ?fs)"
    and z: "\<exists>n. h z = Some n" using assms by (auto simp: at_place_def addrs_nd)
  have ptr: "child d n = ptr z u" using n(3) by (cases u) auto
  have "distinct (?a # z # paddrs ?fs)" using dis by auto
  from relink_above [OF p this n(1), of "ptr z u"] n(2) obtain x h1 where
    h1: "rd rb_left (Some (fst e0)) h = Done x"
    "wr (Some (fst e0)) (set_child (if Some ?a = x then Lft else Rgt) (ptr z u)) h = Done h1"
    "path h1 (Some z) r (ptr z u) ?fs" "same_off (set (paddrs ?fs)) h h1"
    using n(1) by (fastforce simp: bind_outcome_Done_iff split: if_splits)
  have h1q: "h1 q = h q" if "q \<notin> set (paddrs ?fs)" for q using h1(4) that by (simp add: same_off_def)
  have sep: "q \<notin> set (paddrs ?fs)" if "q \<in> set (addrs u)" for q using dis that by (metis IntI distinct.simps(2) distinct_append empty_iff)
  have T: "tree h1 (Some z) {Some ?a} (ptr z u) u" by (rule tree_cong [OF _ n(3) [unfolded ptr]]) (rule h1q [OF sep])
  have "\<exists>b m. ptr z u = Some b \<and> b \<in> insert z (set (addrs u)) \<and> h1 b = Some m \<and>
    tree (h1(b \<mapsto> m\<lparr>rb_parent := q\<rparr>)) (Some z) {q} (ptr z u) u \<and> (\<exists>p. (h1(b \<mapsto> m\<lparr>rb_parent := q\<rparr>)) z = map_option (\<lambda>n. n\<lparr>rb_parent := p\<rparr>) (h z))"
  proof (cases "ptr z u = Some z")
    case True
    then have "u = Lf" using dis by (cases u) auto
    moreover obtain m where "h1 z = Some m" "h z = Some m" using z h1q [of z] dis by auto
    ultimately show ?thesis by (intro exI [of _ z] exI [of _ m]) auto
  next
    case False
    have "distinct (addrs u)" using dis by simp
    from tree_reparent [OF T False this, of q] obtain b m where b: "ptr z u = Some b" "b \<in> set (addrs u)" "h1 b = Some m"
      "\<And>h'. h' b = Some (m\<lparr>rb_parent := q\<rparr>) \<Longrightarrow> \<forall>a \<in> set (addrs u) - {b}. h' a = h1 a \<Longrightarrow> tree h' (Some z) {q} (ptr z u) u" by blast
    have "tree (h1(b \<mapsto> m\<lparr>rb_parent := q\<rparr>)) (Some z) {q} (ptr z u) u" by (rule b(4)) simp_all
    moreover have "b \<noteq> z" "h1 z = h z" using b(2) dis h1q [of z] by auto
    moreover obtain y where "h z = Some y" using z by auto
    ultimately show ?thesis using b(1-3) by (intro exI [of _ b] exI [of _ m]) (auto intro: exI [of _ "rb_parent y"])
  qed
  then obtain b m where b: "ptr z u = Some b" "b \<in> insert z (set (addrs u))" "h1 b = Some m"
    "tree (h1(b \<mapsto> m\<lparr>rb_parent := q\<rparr>)) (Some z) {q} (ptr z u) u"
    "\<exists>p. (h1(b \<mapsto> m\<lparr>rb_parent := q\<rparr>)) z = map_option (\<lambda>n. n\<lparr>rb_parent := p\<rparr>) (h z)" by blast
  let ?h' = "h1(b \<mapsto> m\<lparr>rb_parent := q\<rparr>)"
  have nb: "b \<noteq> ?a" "b \<notin> set (paddrs ?fs)" "?a \<notin> set (paddrs ?fs)" using b(2) dis by auto
  have "path ?h' (Some z) r (ptr z u) ?fs" by (rule path_cong [OF _ h1(3)]) (use nb in auto)
  moreover have "same_off (insert z (place_addrs u ?fs)) h ?h'"
    using h1q b(2) by (auto simp: same_off_def place_addrs_def)
  moreover have "h1 ?a = Some n" using h1q n(1) nb by simp
  ultimately show ?thesis using h1(1,2) b n(1,2) nb
    by (intro exI [of _ x] exI [of _ h1] exI [of _ ?h']) simp
qed

lemma plug_append: "plug t (gs @ fs) = plug (plug t gs) fs"
  by (induction gs arbitrary: t) auto

lemma addrs_plug: "set (addrs (plug t gs)) = set (addrs t) \<union> set (paddrs gs)"
  "distinct (addrs (plug t gs)) \<longleftrightarrow> distinct (addrs t @ paddrs gs)"
proof (induction gs arbitrary: t)
  case (Cons f gs)
  obtain d c e s where f: "f = (d, c, e, s)" by (cases f)
  { case 1 show ?case using Cons.IH(1) by (auto simp: f addrs_nd) }
  { case 2 show ?case unfolding f plug.simps Cons.IH(2) by (cases d) (auto simp: nd_def) }
qed simp_all

lemma paddrs_append: "paddrs (gs @ fs) = paddrs gs @ paddrs fs"
  by (induction gs rule: paddrs.induct) auto

lemma pre_post_append: "pre (gs @ fs) = pre fs @ pre gs" "post (gs @ fs) = post gs @ post fs"
  by (induction gs rule: pre.induct) auto

lemma pok_append: "pok n (gs @ (d, c, e, s) # fs) \<longleftrightarrow> pok n (gs @ (d, c, e', s) # fs)"
proof (induction n gs rule: pok.induct)
  case (2 n d c e s gs)
  then show ?case by (cases gs rule: redtop.cases) auto
qed simp

lemma at_unplug: "at_place z s x (plug v gs) fs \<Longrightarrow> at_place z s (ptr z v) v (gs @ fs)"
proof (induction gs arbitrary: v)
  case Nil
  then show ?case using at_ptr by fastforce
next
  case (Cons f gs)
  obtain d c e u where f: "f = (d, c, e, u)" by (cases f)
  then have "at_place z s (ptr z (nd d v c e u)) (nd d v c e u) (gs @ fs)" using Cons.IH [of "nd d v c e u"] Cons.prems f by simp
  then show ?case using at_down_ptr f by fastforce
qed

lemma path_split:
  assumes "path h S r x (gs @ (d, c, e, l) # fs)" "tree h S P x v" "gs \<noteq> [] \<Longrightarrow> P \<subseteq> up gs"
  shows "\<exists>n. holds h c e n \<and> rb_parent n \<in> up fs \<and> tree h S UNIV (child d n) (plug v gs)
    \<and> tree h S {Some (fst e)} (child (opp d) n) l \<and> path h S r (Some (fst e)) fs"
  using assms
proof (induction gs arbitrary: x v P)
  case Nil
  then show ?case using tree_mono by fastforce
next
  case (Cons f gs)
  obtain d' c' e' l' where f: "f = (d', c', e', l')" by (cases f)
  have p: "P \<subseteq> {Some (fst e')}" using Cons.prems(3) f by simp
  obtain n where n: "holds h c' e' n" "rb_parent n \<in> up (gs @ (d, c, e, l) # fs)" "child d' n = x"
    "tree h S {Some (fst e')} (child (opp d') n) l'" "path h S r (Some (fst e')) (gs @ (d, c, e, l) # fs)"
    using Cons.prems(1) f by auto
  have "tree h S {Some (fst e')} x v" by (rule tree_mono [OF Cons.prems(2) p])
  then have T: "tree h S {rb_parent n} (Some (fst e')) (nd d' v c' e' l')" using n by (auto simp: tree_nd)
  have "gs \<noteq> [] \<Longrightarrow> {rb_parent n} \<subseteq> up gs" using n(2) by (cases gs rule: up.cases) auto
  from Cons.IH [OF n(5) T this] show ?case using f by simp
qed

text \<open>Only the parent of the sentinel may change.\<close>

definition only_parent :: "'a rb_heap \<Rightarrow> 'a rb_heap \<Rightarrow> 'a \<Rightarrow> bool" where
  "only_parent h h' z \<longleftrightarrow> (\<exists>p. h' z = map_option (\<lambda>n. n\<lparr>rb_parent := p\<rparr>) (h z))"

lemma only_parent_refl: "h' z = h z \<Longrightarrow> only_parent h h' z"
proof (cases "h z")
  case (Some n)
  moreover assume "h' z = h z"
  ultimately show ?thesis unfolding only_parent_def by (intro exI [of _ "rb_parent n"]) simp
qed (simp add: only_parent_def)

lemma same_off_mono: "same_off A h h' \<Longrightarrow> A \<subseteq> B \<Longrightarrow> same_off B h h'"
  by (auto simp: same_off_def)

lemma only_parent_same: "only_parent h h' z \<Longrightarrow> h'' z = h' z \<Longrightarrow> only_parent h h'' z"
  by (simp add: only_parent_def)

lemma unlink_one:
  assumes "at_place z (r, h) (Some (fst e)) (nd d u c e Lf) ((d0, c0, e0, s0) # gs)"
  shows "\<exists>h'. delete_unlink (Some z) (Some (fst e)) (Some (fst e)) (ptr z u) (r, h) = Done (r, h')
    \<and> at_temp z (r, h') u ((d0, c0, e0, s0) # gs) \<and> (\<exists>c. Ex (holds h' c e)) \<and> only_parent h h' z
    \<and> same_off (insert z (place_addrs (nd d u c e Lf) ((d0, c0, e0, s0) # gs))) h h'"
proof -
  let ?fs = "(d0, c0, e0, s0) # gs"
  obtain x h1 h' where T: "rd rb_parent (Some (fst e)) h = Done (Some (fst e0))" "rd rb_left (Some (fst e0)) h = Done x"
    "wr (Some (fst e0)) (set_child (if Some (fst e) = x then Lft else Rgt) (ptr z u)) h = Done h1"
    "rd rb_parent (Some (fst e)) h1 = Done (Some (fst e0))"
    "wr (ptr z u) (rb_parent_update (\<lambda>_. Some (fst e0))) h1 = Done h'"
    "path h' (Some z) r (ptr z u) ?fs" "tree h' (Some z) {Some (fst e0)} (ptr z u) u"
    "rd rb_parent (ptr z u) h' = Done (Some (fst e0))" "h' (fst e) = h (fst e)" "only_parent h h' z"
    "same_off (insert z (place_addrs u ?fs)) h h'"
    using take_out [OF assms, of "Some (fst e0)"] unfolding only_parent_def by blast
  have "\<exists>n. h' z = Some n \<and> \<not> rb_red n" using assms T(10) by (auto simp: at_place_def only_parent_def)
  then have "at_place z (r, h') (ptr z u) u ?fs" using assms T(6,7) by (auto simp: at_place_def addrs_nd)
  then have "at_temp z (r, h') u ?fs" using T(8) by (simp add: at_temp_def)
  moreover have "same_off (insert z (place_addrs (nd d u c e Lf) ?fs)) h h'"
    using T(11) by (auto simp: same_off_def addrs_nd place_addrs_def)
  moreover have "Ex (holds h' c e)" using assms T(9) by (auto simp: at_place_def tree_nd holds_def)
  ultimately show ?thesis using T by (intro exI [of _ h']) (auto simp: delete_unlink_def)
qed

lemma unlink_two:
  assumes at: "at_place z (r, h) (Some (fst e)) (Nd l c e (plug (Nd Lf cm m v) gs)) fs"
  shows "\<exists>s'. delete_unlink (Some z) (Some (fst e)) (Some (fst m)) (ptr z v) (r, h) = Done s'
    \<and> at_temp z s' v (gs @ (Rgt, c, m, l) # fs) \<and> (\<exists>c. Ex (holds (snd s') c e)) \<and> only_parent h (snd s') z
    \<and> same_off (insert z (place_addrs (Nd l c e (plug (Nd Lf cm m v) gs)) fs)) h (snd s')"
proof -
  let ?F = "gs @ (Rgt, c, e, l) # fs" and ?A = "insert z (place_addrs (Nd l c e (plug (Nd Lf cm m v) gs)) fs)"
  have "Nd l c e (plug (Nd Lf cm m v) gs) = nd Rgt (plug (Nd Lf cm m v) gs) c e l" by (simp add: nd_def)
  then have "at_place z (r, h) (ptr z (plug (Nd Lf cm m v) gs)) (plug (Nd Lf cm m v) gs) ((Rgt, c, e, l) # fs)"
    using at at_down_ptr by metis
  from at_unplug [OF this] have M: "at_place z (r, h) (Some (fst m)) (nd Rgt v cm m Lf) ?F" by (simp add: nd_def)
  obtain d0 c0 e0 s0 gs' where F: "?F = (d0, c0, e0, s0) # gs'" by (cases ?F) auto
  have dis: "distinct (z # fst m # fst e # addrs l @ addrs (plug v gs) @ paddrs fs)"
    using at by (auto simp: at_place_def addrs_plug)
  have eg: "fst e \<notin> set (paddrs gs)" using dis by (simp add: addrs_plug)
  have e0: "gs = [] \<Longrightarrow> e0 = e" "gs \<noteq> [] \<Longrightarrow> fst e0 \<noteq> fst e \<and> Some (fst e0) \<in> up gs"
  proof -
    show "gs = [] \<Longrightarrow> e0 = e" using F by simp
    assume "gs \<noteq> []"
    then obtain d1 c1 g w gs1 where g: "gs = (d1, c1, g, w) # gs1" by (cases gs rule: up.cases) auto
    then have "e0 = g" using F by simp
    then show "fst e0 \<noteq> fst e \<and> Some (fst e0) \<in> up gs" using g eg by auto
  qed
  define q where "q = (if Some (fst e0) = Some (fst e) then Some (fst m) else Some (fst e0))"
  obtain x h1 h' where T: "rd rb_parent (Some (fst m)) h = Done (Some (fst e0))" "rd rb_left (Some (fst e0)) h = Done x"
    "wr (Some (fst e0)) (set_child (if Some (fst m) = x then Lft else Rgt) (ptr z v)) h = Done h1"
    "rd rb_parent (Some (fst m)) h1 = Done (Some (fst e0))" "wr (ptr z v) (rb_parent_update (\<lambda>_. q)) h1 = Done h'"
    "path h' (Some z) r (ptr z v) ?F" "tree h' (Some z) {q} (ptr z v) v"
    "rd rb_parent (ptr z v) h' = Done q" "h' (fst m) = h (fst m)" "only_parent h h' z"
    "same_off (insert z (place_addrs v ?F)) h h'"
    using take_out [OF M [unfolded F], of q] unfolding only_parent_def F by blast
  have "gs \<noteq> [] \<Longrightarrow> {q} \<subseteq> up gs" using e0(2) by (simp add: q_def)
  from path_split [OF T(6,7) this] obtain n where
    n: "holds h' c e n" "rb_parent n \<in> up fs" "tree h' (Some z) UNIV (rb_right n) (plug v gs)"
    "tree h' (Some z) {Some (fst e)} (rb_left n) l" "path h' (Some z) r (Some (fst e)) fs" by auto
  obtain k where k: "h' (fst m) = Some k" "m = (fst m, rb_key k, rb_data k)"
    using M T(9) by (auto simp: at_place_def tree_nd holds_def prod_eq_iff)
  have zz: "\<exists>n. h' z = Some n \<and> \<not> rb_red n" using at T(10) by (auto simp: at_place_def only_parent_def)
  obtain r2 h2 where R: "replace_node (Some z) (Some (fst e)) (Some (fst m)) (r, h') = Done (r2, h2)"
    "at_place z (r2, h2) (Some (fst m)) (Nd l c m (plug v gs)) fs"
    "same_off (insert (fst m) (set (addrs l @ addrs (plug v gs) @ paddrs fs))) h' h2"
    using replace_place [OF n(1,2) tree_mono [OF n(4) subset_UNIV] n(3,5) dis k zz] by blast
  have keep: "h2 z = h' z" "h2 (fst e) = h' (fst e)" using R(3) dis by (auto simp: same_off_def)
  have "Nd l c m (plug v gs) = nd Rgt (plug v gs) c m l" by (simp add: nd_def)
  then have "at_place z (r2, h2) (ptr z (plug v gs)) (plug v gs) ((Rgt, c, m, l) # fs)" using R(2) at_down_ptr by metis
  from at_unplug [OF this] have at2: "at_place z (r2, h2) (ptr z v) v (gs @ (Rgt, c, m, l) # fs)" .
  have "at_temp z (r2, h2) v (gs @ (Rgt, c, m, l) # fs)"
  proof (cases "v = Lf")
    case True
    then have "rd rb_parent (ptr z v) h2 = Done q" using T(8) keep(1) by (simp add: rd_def)
    moreover have "q \<in> up (gs @ (Rgt, c, m, l) # fs)" using e0 by (cases gs rule: up.cases) (auto simp: q_def)
    ultimately show ?thesis using at2 by (auto simp: at_temp_def)
  qed (rule at_temp_real [OF at2])
  moreover have "same_off ?A h h2"
  proof -
    have sub: "insert z (place_addrs v ?F) \<subseteq> ?A" "insert (fst m) (set (addrs l @ addrs (plug v gs) @ paddrs fs)) \<subseteq> ?A"
      by (auto simp: place_addrs_def addrs_plug paddrs_append)
    show ?thesis by (rule same_off_trans [OF same_off_mono [OF T(11) sub(1)] same_off_mono [OF R(3) sub(2)]])
  qed
  moreover have "holds h2 c e n" using n(1) keep(2) by (simp add: holds_def)
  moreover have "delete_unlink (Some z) (Some (fst e)) (Some (fst m)) (ptr z v) (r, h) = Done (r2, h2)"
    using T(1-5) R(1) dis by (simp add: delete_unlink_def q_def)
  ultimately show ?thesis using only_parent_same [of h h' z h2, OF T(10) keep(1)] by (intro exI [of _ "(r2, h2)"]) auto
qed

section \<open>Deletion\<close>

lemma at_find:
  assumes "at_place z s x t fs" "a \<in> set (addrs t)"
  shows "\<exists>l c e u gs. fst e = a \<and> at_place z s (Some a) (Nd l c e u) gs \<and> plug (Nd l c e u) gs = plug t fs"
  using assms
proof (induction t arbitrary: x fs)
  case (Nd l c e u)
  have N: "Nd l c e u = nd Lft l c e u" "Nd l c e u = nd Rgt u c e l" by (simp_all add: nd_def)
  consider "a = fst e" | "a \<in> set (addrs l)" | "a \<in> set (addrs u)" using Nd.prems(2) by auto
  then show ?case
  proof cases
    case 1
    then show ?thesis using Nd.prems(1) at_ptr [OF Nd.prems(1)]
      by (intro exI [of _ l] exI [of _ c] exI [of _ e] exI [of _ u] exI [of _ fs]) simp
  next
    case 2
    have "at_place z s (ptr z l) l ((Lft, c, e, u) # fs)" using at_down_ptr [OF Nd.prems(1) [unfolded N(1)]] by simp
    from Nd.IH(1) [OF this 2] show ?thesis unfolding N(1) by simp
  next
    case 3
    have "at_place z s (ptr z u) u ((Rgt, c, e, l) # fs)" using at_down_ptr [OF Nd.prems(1) [unfolded N(2)]] by simp
    from Nd.IH(2) [OF this 3] show ?thesis unfolding N(2) by simp
  qed
qed simp

lemma min_place:
  assumes "at_place z (r, h) x t fs" "t \<noteq> Lf"
  shows "\<exists>cm m v gs. ngx_rbtree_min x (Some z) h = Some (Done (Some (fst m))) \<and> t = plug (Nd Lf cm m v) gs
    \<and> pre gs = [] \<and> at_place z (r, h) (Some (fst m)) (Nd Lf cm m v) (gs @ fs)"
  using assms
proof (induction t arbitrary: x fs)
  case (Nd l c e u)
  have N: "Nd l c e u = nd Lft l c e u" by (simp add: nd_def)
  have D: "rd rb_left x h = Done (ptr z l)" "at_place z (r, h) (ptr z l) l ((Lft, c, e, u) # fs)"
    using at_down_ptr Nd.prems(1) unfolding N child_fields(1) [symmetric] by fastforce+
  show ?case
  proof (cases "l = Lf")
    case True
    then show ?thesis using D Nd.prems(1) at_ptr [OF Nd.prems(1)]
      by (intro exI [of _ c] exI [of _ e] exI [of _ u] exI [of _ "[]"]) (auto simp: ngx_rbtree_min.simps)
  next
    case False
    then have "ptr z l \<noteq> Some z" using at_facts(2) [OF D(2)] by simp
    then have step: "ngx_rbtree_min x (Some z) h = ngx_rbtree_min (ptr z l) (Some z) h"
      using D(1) by (subst ngx_rbtree_min.simps) simp
    obtain cm m v gs where M: "ngx_rbtree_min (ptr z l) (Some z) h = Some (Done (Some (fst m)))" "l = plug (Nd Lf cm m v) gs"
      "pre gs = []" "at_place z (r, h) (Some (fst m)) (Nd Lf cm m v) (gs @ (Lft, c, e, u) # fs)"
      using Nd.IH(1) [OF D(2) False] by blast
    show ?thesis unfolding step
      by (intro exI [of _ cm] exI [of _ m] exI [of _ v] exI [of _ "gs @ [(Lft, c, e, u)]"])
        (use M in \<open>simp add: plug_append pre_post_append nd_def\<close>)
  qed
qed simp

text \<open>The first entry is the least one.\<close>

theorem min_correct:
  assumes "rb_rep z (r, h) T" "T \<noteq> Lf"
  shows "\<exists>e es. entries T = e # es \<and> ngx_rbtree_min r (Some z) h = Some (Done (Some (fst e)))"
proof -
  have "at_place z (r, h) r T []" using assms(1) by (simp add: rb_rep_def)
  from min_place [OF this assms(2)] obtain cm m v gs where
    M: "ngx_rbtree_min r (Some z) h = Some (Done (Some (fst m)))" "T = plug (Nd Lf cm m v) gs" "pre gs = []" by blast
  then show ?thesis by (auto simp: entries_plug)
qed

lemma at_place_cong:
  assumes "at_place z (r, h) x t fs" "\<And>q. q \<in> insert z (place_addrs t fs) \<Longrightarrow> h' q = h q"
  shows "at_place z (r, h') x t fs"
proof -
  have "tree h' (Some z) (up fs) x t" by (rule tree_cong [of t h' h]) (use assms in \<open>auto simp: at_place_def place_addrs_def\<close>)
  moreover have "path h' (Some z) r x fs" by (rule path_cong [of fs h' h]) (use assms in \<open>auto simp: at_place_def place_addrs_def\<close>)
  ultimately show ?thesis using assms by (simp add: at_place_def)
qed

lemma at_temp_cong:
  assumes "at_temp z (r, h) t fs" "\<And>q. q \<in> insert z (place_addrs t fs) \<Longrightarrow> h' q = h q"
  shows "at_temp z (r, h') t fs"
proof -
  have "ptr z t = Some z \<or> (\<exists>a \<in> place_addrs t fs. ptr z t = Some a)" by (cases t) (auto simp: place_addrs_def)
  then have "rd rb_parent (ptr z t) h' = rd rb_parent (ptr z t) h" using assms(2) by (auto simp: rd_def)
  moreover have "at_place z (r, h') (ptr z t) t fs"
    by (rule at_place_cong [of z r h]) (use assms in \<open>auto simp: at_temp_def\<close>)
  ultimately show ?thesis using assms(1) by (simp add: at_temp_def)
qed

text \<open>Clearing the node that was taken out, the loop and the last assignment.\<close>

definition deleted :: "'a \<Rightarrow> 'a entry \<Rightarrow> 'a rb_heap \<Rightarrow> 'a rb_state \<Rightarrow> 'a rbt \<Rightarrow> 'a entry list \<Rightarrow> bool" where
  "deleted z e h s T es \<longleftrightarrow> rb_rep z s T \<and> entries T = es \<and> only_parent h (snd s) z
     \<and> (\<exists>n. snd s (fst e) = Some n \<and> rb_key n = 0)"

lemma black_place:
  assumes "at_place z (r, h) (ptr z t) t fs"
  shows "\<exists>h'. ngx_rbt_black (ptr z t) h = Done h' \<and> at_place z (r, h') (ptr z t) (paint False t) fs
    \<and> same_off (place_addrs t fs) h h'"
proof (cases "t = Lf")
  case True
  obtain n where n: "h z = Some n" "\<not> rb_red n" using assms by (auto simp: at_place_def)
  then have "n\<lparr>rb_red := False\<rparr> = n" by (cases n) simp
  then have "h(z \<mapsto> n\<lparr>rb_red := False\<rparr>) = h" using n(1) by (simp add: fun_upd_idem)
  then show ?thesis using assms True n(1) by (intro exI [of _ h]) simp
qed (use at_color [OF assms] in blast)

lemma fix_up:
  assumes "at_temp z (r, h) t fs" "short n t fs" "h (fst e) = Some k" "rb_key k = 0" "fst e \<notin> place_addrs t fs"
  shows "\<exists>s' T. map_option (\<lambda>r. bind_outcome r (\<lambda>(temp, (root, h)).
      bind_outcome (ngx_rbt_black temp h) (\<lambda>h. Done (root, h)))) (delete_loop (Some z) (ptr z t) (r, h)) = Some (Done s')
    \<and> deleted z e h s' T (entries (plug t fs)) \<and> same_off (place_addrs t fs) h (snd s')"
proof -
  obtain r1 h1 t' fs' where L: "delete_loop (Some z) (ptr z t) (r, h) = Some (Done (ptr z t', (r1, h1)))"
    "at_temp z (r1, h1) t' fs'" "entries (plug t' fs') = entries (plug t fs)" "rb_tree (plug (paint False t') fs')"
    "same_off (place_addrs t fs) h h1" using delete_loop_place [OF assms(1,2)] by fastforce
  have A: "place_addrs t' fs' = place_addrs t fs" using L(3) by (simp add: place_addrs_plug)
  obtain h2 where h2: "ngx_rbt_black (ptr z t') h1 = Done h2" "at_place z (r1, h2) (ptr z t') (paint False t') fs'"
    "same_off (place_addrs t fs) h1 h2" using black_place [of z r1 h1 t' fs'] L(2) A by (auto simp: at_temp_def)
  have off: "same_off (place_addrs t fs) h h2" by (rule same_off_trans [OF L(5) h2(3)])
  have z: "h2 z = h z" using sentinel_kept [OF _ off] assms(1) by (auto simp: at_temp_def)
  have "h2 (fst e) = Some k" using off assms(3,5) by (simp add: same_off_def)
  moreover have "only_parent h h2 z" by (rule only_parent_refl [where h' = h2 and h = h and z = z, OF z])
  moreover have "rb_rep z (r1, h2) (plug (paint False t') fs')" using at_plug [OF h2(2)] L(4) by (simp add: rb_rep_def)
  moreover have "entries (plug (paint False t') fs') = entries (plug t fs)" using L(3) by (simp add: entries_plug)
  ultimately show ?thesis using L(1) h2(1) off assms(4)
    by (intro exI [of _ "(r1, h2)"] exI [of _ "plug (paint False t') fs'"]) (simp add: deleted_def)
qed

text \<open>The end of \<open>ngx_rbtree_delete\<close> after \<open>delete_unlink\<close>, \<open>c\<close> being the colour of the node that left its place.\<close>

lemma delete_rest:
  assumes "at_temp z (r, h) t fs" "holds h b e k" "fst e \<notin> place_addrs t fs" "fst e \<noteq> z"
    and "if c then rb_tree (plug t fs) else short n t fs"
  shows "\<exists>s' T. (case bind_outcome (wr (Some (fst e)) clear_node h) (\<lambda>h. Done (c, (r, h))) of
        Fault \<Rightarrow> Some Fault
      | Done (b, s) \<Rightarrow> if b then Some (Done s)
          else map_option (\<lambda>r. bind_outcome r (\<lambda>(temp, (root, h)).
            bind_outcome (ngx_rbt_black temp h) (\<lambda>h. Done (root, h)))) (delete_loop (Some z) (ptr z t) s)) = Some (Done s')
    \<and> deleted z e h s' T (entries (plug t fs)) \<and> same_off (insert (fst e) (place_addrs t fs)) h (snd s')"
proof -
  let ?h = "h(fst e \<mapsto> clear_node k)"
  have w: "wr (Some (fst e)) clear_node h = Done ?h" using assms(2) by (simp add: holds_def)
  have at: "at_temp z (r, ?h) t fs" by (rule at_temp_cong [OF assms(1)]) (use assms(3,4) in auto)
  have k0: "rb_key (clear_node k) = 0" by (simp add: clear_node_def)
  have zz: "only_parent h ?h z" using assms(4) by (intro only_parent_refl) simp
  show ?thesis
  proof (cases c)
    case True
    have "rb_rep z (r, ?h) (plug t fs)" using at assms(5) True at_plug [of z "(r, ?h)" "ptr z t" t fs] by (simp add: rb_rep_def at_temp_def)
    then show ?thesis using True w k0 zz
      by (intro exI [of _ "(r, ?h)"] exI [of _ "plug t fs"]) (simp add: deleted_def)
  next
    case False
    then have "short n t fs" using assms(5) by simp
    from fix_up [OF at this _ k0 assms(3)] obtain s' T where F:
      "map_option (\<lambda>r. bind_outcome r (\<lambda>(temp, (root, h)).
        bind_outcome (ngx_rbt_black temp h) (\<lambda>h. Done (root, h)))) (delete_loop (Some z) (ptr z t) (r, ?h)) = Some (Done s')"
      "deleted z e ?h s' T (entries (plug t fs))" "same_off (place_addrs t fs) ?h (snd s')" by auto
    have "deleted z e h s' T (entries (plug t fs))"
    proof -
      have "?h z = h z" using assms(4) by auto
      then show ?thesis using F(2) by (simp add: deleted_def only_parent_def)
    qed
    moreover have "same_off (insert (fst e) (place_addrs t fs)) h (snd s')" using F(3) by (auto simp: same_off_def)
    ultimately show ?thesis using False w F(1) by (intro exI [of _ s'] exI [of _ T]) simp
  qed
qed

section \<open>The whole operation\<close>

lemma removed:
  assumes "rb_tree (plug (nd d u c e Lf) fs)"
  shows "if c then rb_tree (plug u fs) else short 0 u fs"
proof -
  obtain n where n: "black_height n (nd d u c e Lf)" "pok n fs" using assms plug_ok by blast
  show ?thesis
  proof (cases c)
    case True
    then have "black_height n u" "\<not> red u" using n(1) by auto
    then show ?thesis using True n(2) plug_ok by auto
  next
    case False
    then have "n = 1" "black_height 0 u" using n(1) by auto
    then show ?thesis using False n(2) ok_paint [of u 0] by (auto simp: short_def)
  qed
qed

lemma redtop_append: "redtop (gs @ (d, c, e, s) # fs) = redtop (gs @ (d, c, e', s) # fs)"
  by (cases gs rule: redtop.cases) auto

lemma rb_tree_entry: "rb_tree (plug t (gs @ (d, c, e, s) # fs)) = rb_tree (plug t (gs @ (d, c, e', s) # fs))"
  unfolding plug_ok using pok_append redtop_append by metis

lemma remove_root:
  assumes "at_place z (r, h) (Some (fst e)) (nd d u c e Lf) []" "rb_tree (nd d u c e Lf)"
    and "delete_choose (Some z) (Some (fst e)) h = Some (Done (ptr z u, Some (fst e)))"
  shows "\<exists>s' T. ngx_rbtree_delete (Some z) (Some (fst e)) (r, h) = Some (Done s') \<and> deleted z e h s' T (entries u)
    \<and> same_off (insert z (place_addrs (nd d u c e Lf) [])) h (snd s')"
proof -
  have r: "r = Some (fst e)" using at_facts(4) [OF assms(1)] by simp
  obtain n where n: "h (fst e) = Some n" "tree h (Some z) {Some (fst e)} (child d n) u"
    using assms(1) by (auto simp: at_place_def tree_nd holds_def)
  have "child d n = ptr z u" using n(2) by (cases u) auto
  then have "at_place z (ptr z u, h) (ptr z u) u []"
    using assms(1) tree_mono [OF n(2) subset_UNIV] by (auto simp: at_place_def addrs_nd)
  from black_place [OF this] obtain h1 where h1: "ngx_rbt_black (ptr z u) h = Done h1"
    "at_place z (ptr z u, h1) (ptr z u) (paint False u) []" "same_off (place_addrs u []) h h1" by blast
  have e: "fst e \<notin> place_addrs u []" "fst e \<noteq> z" "z \<notin> place_addrs u []"
    using assms(1) by (auto simp: at_place_def addrs_nd place_addrs_def)
  then have k: "h1 (fst e) = Some n" using h1(3) n(1) by (simp add: same_off_def)
  let ?h = "h1(fst e \<mapsto> clear_node n)"
  have "at_place z (ptr z u, ?h) (ptr z u) (paint False u) []"
    by (rule at_place_cong [OF h1(2)]) (use e in \<open>auto simp: place_addrs_def\<close>)
  moreover have "rb_tree (paint False u)" using short_done [of 0 u "[]"] removed [of d u c e "[]"] assms(2)
    by (auto simp: rb_tree_paint split: if_splits)
  moreover have "only_parent h ?h z"
    by (rule only_parent_refl) (use e h1(3) in \<open>auto simp: same_off_def\<close>)
  ultimately have "deleted z e h (ptr z u, ?h) (paint False u) (entries u)"
    by (simp add: deleted_def rb_rep_def clear_node_def)
  moreover have "same_off (insert z (place_addrs (nd d u c e Lf) [])) h ?h"
    using h1(3) by (auto simp: same_off_def place_addrs_def addrs_nd)
  moreover have "ngx_rbtree_delete (Some z) (Some (fst e)) (r, h) = Some (Done (ptr z u, ?h))"
    using assms(3) r h1(1) k by (simp add: ngx_rbtree_delete_def)
  ultimately show ?thesis by (intro exI [of _ "(ptr z u, ?h)"] exI [of _ "paint False u"]) simp
qed

text \<open>\<open>delete_unlink\<close> and what follows it.\<close>

lemma delete_below_root:
  assumes "delete_choose (Some z) (Some (fst e)) h = Some (Done (ptr z t, Some b))" "Some b \<noteq> r"
    and "ngx_rbt_is_red (Some b) h = Done c"
    and "delete_unlink (Some z) (Some (fst e)) (Some b) (ptr z t) (r, h) = Done s1"
    and "at_temp z s1 t fs" "holds (snd s1) c' e k" "only_parent h (snd s1) z" "same_off A h (snd s1)"
    and "fst e \<notin> place_addrs t fs" "fst e \<noteq> z" "if c then rb_tree (plug t fs) else short 0 t fs"
    and "insert (fst e) (place_addrs t fs) \<subseteq> A"
  shows "\<exists>s' T. ngx_rbtree_delete (Some z) (Some (fst e)) (r, h) = Some (Done s') \<and> deleted z e h s' T (entries (plug t fs))
    \<and> same_off A h (snd s')"
proof -
  obtain r1 h1 where s1: "s1 = (r1, h1)" by (cases s1)
  from delete_rest [OF assms(5) [unfolded s1] _ assms(9-11)] assms(6) s1 obtain s' T where
    R: "(case bind_outcome (wr (Some (fst e)) clear_node h1) (\<lambda>h. Done (c, (r1, h))) of
        Fault \<Rightarrow> Some Fault
      | Done (b, s) \<Rightarrow> if b then Some (Done s)
          else map_option (\<lambda>r. bind_outcome r (\<lambda>(temp, (root, h)).
            bind_outcome (ngx_rbt_black temp h) (\<lambda>h. Done (root, h)))) (delete_loop (Some z) (ptr z t) s)) = Some (Done s')"
    "deleted z e h1 s' T (entries (plug t fs))" "same_off (insert (fst e) (place_addrs t fs)) h1 (snd s')" by fastforce
  have "ngx_rbtree_delete (Some z) (Some (fst e)) (r, h) = Some (Done s')"
    using assms(1-4) s1 R(1) by (simp add: ngx_rbtree_delete_def)
  moreover have "deleted z e h s' T (entries (plug t fs))"
  proof -
    obtain p where p: "snd s' z = map_option (\<lambda>n. n\<lparr>rb_parent := p\<rparr>) (h1 z)" using R(2) by (auto simp: deleted_def only_parent_def)
    obtain p' where "h1 z = map_option (\<lambda>n. n\<lparr>rb_parent := p'\<rparr>) (h z)" using assms(7) s1 by (auto simp: only_parent_def)
    then have "only_parent h (snd s') z" using p by (cases "h z") (auto simp: only_parent_def)
    then show ?thesis using R(2) by (simp add: deleted_def)
  qed
  moreover have "same_off A h (snd s')"
    using same_off_trans [OF assms(8) [unfolded s1 snd_conv] same_off_mono [OF R(3) assms(12)]] .
  ultimately show ?thesis by blast
qed

lemma remove_one:
  assumes at: "at_place z (r, h) (Some (fst e)) (nd d u c e Lf) fs" and rb: "rb_tree (plug (nd d u c e Lf) fs)"
    and ch: "delete_choose (Some z) (Some (fst e)) h = Some (Done (ptr z u, Some (fst e)))"
  shows "\<exists>s' T. ngx_rbtree_delete (Some z) (Some (fst e)) (r, h) = Some (Done s') \<and> deleted z e h s' T (entries (plug u fs))
    \<and> same_off (insert z (place_addrs (nd d u c e Lf) fs)) h (snd s')"
proof (cases fs)
  case Nil
  then show ?thesis using remove_root [of z r h e d u c] assms by simp
next
  case (Cons f gs)
  obtain d0 c0 e0 s0 where f: "fs = (d0, c0, e0, s0) # gs" using Cons by (cases f) auto
  from unlink_one [OF at [unfolded f]] obtain h' c' k where
    U: "delete_unlink (Some z) (Some (fst e)) (Some (fst e)) (ptr z u) (r, h) = Done (r, h')"
    "at_temp z (r, h') u fs" "holds h' c' e k" "only_parent h h' z"
    "same_off (insert z (place_addrs (nd d u c e Lf) fs)) h h'" unfolding f by blast
  have e: "fst e \<notin> place_addrs u fs" "fst e \<noteq> z" using at by (auto simp: at_place_def addrs_nd place_addrs_def)
  have sub: "insert (fst e) (place_addrs u fs) \<subseteq> insert z (place_addrs (nd d u c e Lf) fs)"
    by (auto simp: place_addrs_def addrs_nd)
  have "Some (fst e) \<noteq> r" using at_facts(3) [OF at] f by simp
  moreover have "ngx_rbt_is_red (Some (fst e)) h = Done c" using at_facts(1) [OF at] by simp
  ultimately show ?thesis
    using delete_below_root [OF ch _ _ U(1,2) _ _ _ e removed [OF rb] sub] U(3-5) by simp
qed

lemma remove_two:
  assumes at: "at_place z (r, h) (Some (fst e)) (Nd l c e (plug (Nd Lf cm m v) gs)) fs"
    and rb: "rb_tree (plug (Nd l c e (plug (Nd Lf cm m v) gs)) fs)"
    and ch: "delete_choose (Some z) (Some (fst e)) h = Some (Done (ptr z v, Some (fst m)))"
    and m: "at_place z (r, h) (Some (fst m)) (Nd Lf cm m v) (gs @ (Rgt, c, e, l) # fs)"
  shows "\<exists>s' T. ngx_rbtree_delete (Some z) (Some (fst e)) (r, h) = Some (Done s')
    \<and> deleted z e h s' T (entries (plug v (gs @ (Rgt, c, m, l) # fs)))
    \<and> same_off (insert z (place_addrs (Nd l c e (plug (Nd Lf cm m v) gs)) fs)) h (snd s')"
proof -
  let ?F = "gs @ (Rgt, c, m, l) # fs" and ?A = "insert z (place_addrs (Nd l c e (plug (Nd Lf cm m v) gs)) fs)"
  from unlink_two [OF at] obtain s1 c' k where
    U: "delete_unlink (Some z) (Some (fst e)) (Some (fst m)) (ptr z v) (r, h) = Done s1"
    "at_temp z s1 v ?F" "holds (snd s1) c' e k" "only_parent h (snd s1) z" "same_off ?A h (snd s1)" by blast
  have e: "fst e \<notin> place_addrs v ?F" "fst e \<noteq> z"
    using at by (auto simp: at_place_def addrs_plug place_addrs_def paddrs_append)
  have sub: "insert (fst e) (place_addrs v ?F) \<subseteq> ?A" by (auto simp: place_addrs_def addrs_plug paddrs_append)
  have "plug (Nd l c e (plug (Nd Lf cm m v) gs)) fs = plug (nd Rgt v cm m Lf) (gs @ (Rgt, c, e, l) # fs)"
    by (simp add: plug_append nd_def)
  then have "if cm then rb_tree (plug v (gs @ (Rgt, c, e, l) # fs)) else short 0 v (gs @ (Rgt, c, e, l) # fs)"
    using removed rb by metis
  then have S: "if cm then rb_tree (plug v ?F) else short 0 v ?F"
    using rb_tree_entry pok_append unfolding short_def by metis
  have "Some (fst m) \<noteq> r" using at_facts(3) [OF m] by simp
  moreover have "ngx_rbt_is_red (Some (fst m)) h = Done cm" using at_facts(1) [OF m] by simp
  ultimately show ?thesis using delete_below_root [OF ch _ _ U(1,2,3,4,5) e S sub] by simp
qed

lemma chosen:
  assumes "at_place z (r, h) (Some (fst e)) (Nd l c e u) fs"
  shows "l = Lf \<Longrightarrow> delete_choose (Some z) (Some (fst e)) h = Some (Done (ptr z u, Some (fst e)))"
    "l \<noteq> Lf \<Longrightarrow> u = Lf \<Longrightarrow> delete_choose (Some z) (Some (fst e)) h = Some (Done (ptr z l, Some (fst e)))"
    "l \<noteq> Lf \<Longrightarrow> u \<noteq> Lf \<Longrightarrow> \<exists>cm m v gs. delete_choose (Some z) (Some (fst e)) h = Some (Done (ptr z v, Some (fst m)))
      \<and> u = plug (Nd Lf cm m v) gs \<and> pre gs = [] \<and> at_place z (r, h) (Some (fst m)) (Nd Lf cm m v) (gs @ (Rgt, c, e, l) # fs)"
proof -
  have N: "Nd l c e u = nd Lft l c e u" "Nd l c e u = nd Rgt u c e l" by (simp_all add: nd_def)
  note L = at_down_ptr [OF assms [unfolded N(1)]] and R = at_down_ptr [OF assms [unfolded N(2)]]
  have rds: "rd rb_left (Some (fst e)) h = Done (ptr z l)" "rd rb_right (Some (fst e)) h = Done (ptr z u)"
    using L R by (simp_all add: child_fields)
  have z: "ptr z l = Some z \<longleftrightarrow> l = Lf" "ptr z u = Some z \<longleftrightarrow> u = Lf" using L R at_facts(2) by metis+
  show "l = Lf \<Longrightarrow> delete_choose (Some z) (Some (fst e)) h = Some (Done (ptr z u, Some (fst e)))"
    using rds by (simp add: delete_choose_def)
  show "l \<noteq> Lf \<Longrightarrow> u = Lf \<Longrightarrow> delete_choose (Some z) (Some (fst e)) h = Some (Done (ptr z l, Some (fst e)))"
    using rds z by (simp add: delete_choose_def)
  assume lu: "l \<noteq> Lf" "u \<noteq> Lf"
  from min_place [OF R [THEN conjunct2] lu(2)] obtain cm m v gs where
    M: "ngx_rbtree_min (ptr z u) (Some z) h = Some (Done (Some (fst m)))" "u = plug (Nd Lf cm m v) gs" "pre gs = []"
    "at_place z (r, h) (Some (fst m)) (Nd Lf cm m v) (gs @ (Rgt, c, e, l) # fs)" by blast
  have "Nd Lf cm m v = nd Lft Lf cm m v" "Nd Lf cm m v = nd Rgt v cm m Lf" by (simp_all add: nd_def)
  then have "rd rb_left (Some (fst m)) h = Done (Some z)" "rd rb_right (Some (fst m)) h = Done (ptr z v)"
    using at_down_ptr [of z "(r, h)" "Some (fst m)" Lft Lf cm m v] at_down_ptr [of z "(r, h)" "Some (fst m)" Rgt v cm m Lf] M(4)
    by (auto simp: child_fields)
  then have "delete_choose (Some z) (Some (fst e)) h = Some (Done (ptr z v, Some (fst m)))"
    using rds z lu M(1) by (simp add: delete_choose_def)
  then show "\<exists>cm m v gs. delete_choose (Some z) (Some (fst e)) h = Some (Done (ptr z v, Some (fst m)))
      \<and> u = plug (Nd Lf cm m v) gs \<and> pre gs = [] \<and> at_place z (r, h) (Some (fst m)) (Nd Lf cm m v) (gs @ (Rgt, c, e, l) # fs)"
    using M(2-4) by (intro exI [of _ cm] exI [of _ m] exI [of _ v] exI [of _ gs]) simp
qed

lemma delete_node:
  assumes at: "at_place z (r, h) (Some (fst e)) (Nd l c e u) fs" and rb: "rb_tree (plug (Nd l c e u) fs)"
  shows "\<exists>s' T. ngx_rbtree_delete (Some z) (Some (fst e)) (r, h) = Some (Done s')
    \<and> deleted z e h s' T (pre fs @ entries l @ entries u @ post fs)
    \<and> same_off (insert z (place_addrs (Nd l c e u) fs)) h (snd s')"
proof -
  consider "l = Lf" | "l \<noteq> Lf" "u = Lf" | "l \<noteq> Lf" "u \<noteq> Lf" by blast
  then show ?thesis
  proof cases
    case 1
    then have "Nd l c e u = nd Rgt u c e Lf" by (simp add: nd_def)
    then show ?thesis using remove_one [of z r h e Rgt u c fs] at rb chosen(1) [OF at 1] 1 by (simp add: entries_plug)
  next
    case 2
    then have "Nd l c e u = nd Lft l c e Lf" by (simp add: nd_def)
    then show ?thesis using remove_one [of z r h e Lft l c fs] at rb chosen(2) [OF at 2] 2 by (simp add: entries_plug)
  next
    case 3
    then obtain cm m v gs where
      M: "delete_choose (Some z) (Some (fst e)) h = Some (Done (ptr z v, Some (fst m)))" "u = plug (Nd Lf cm m v) gs" "pre gs = []"
      "at_place z (r, h) (Some (fst m)) (Nd Lf cm m v) (gs @ (Rgt, c, e, l) # fs)" using chosen(3) [OF at] by blast
    have "entries (plug v (gs @ (Rgt, c, m, l) # fs)) = pre fs @ entries l @ entries u @ post fs"
      using M(2,3) by (simp add: entries_plug pre_post_append)
    then show ?thesis using remove_two [OF at [unfolded M(2)] rb [unfolded M(2)] M(1,4)] M(2) by simp
  qed
qed

lemma filter_out: "\<forall>x \<in> set xs. P x \<Longrightarrow> \<forall>x \<in> set ys. P x \<Longrightarrow> \<not> P e \<Longrightarrow> filter P (xs @ e # ys) = xs @ ys"
  by simp

theorem delete_correct:
  assumes "rb_rep z (r, h) T" "a \<in> set (addrs T)"
  shows "\<exists>s' T' n. ngx_rbtree_delete (Some z) (Some a) (r, h) = Some (Done s')
    \<and> rb_rep z s' T' \<and> entries T' = filter (\<lambda>e. fst e \<noteq> a) (entries T)
    \<and> snd s' a = Some n \<and> rb_key n = 0 \<and> only_parent h (snd s') z \<and> same_off (insert z (set (addrs T))) h (snd s')"
proof -
  have at: "at_place z (r, h) r T []" "rb_tree T" using assms(1) by (simp_all add: rb_rep_def)
  from at_find [OF at(1) assms(2)] obtain l c e u fs where
    F: "fst e = a" "at_place z (r, h) (Some a) (Nd l c e u) fs" "plug (Nd l c e u) fs = T" by auto
  from delete_node [of z r h e l c u fs] F at(2) obtain s' T' where
    D: "ngx_rbtree_delete (Some z) (Some a) (r, h) = Some (Done s')"
    "deleted z e h s' T' (pre fs @ entries l @ entries u @ post fs)"
    "same_off (insert z (place_addrs (Nd l c e u) fs)) h (snd s')" by auto
  have E: "entries T = pre fs @ entries l @ e # entries u @ post fs" using F(3) entries_plug [of "Nd l c e u" fs] by simp
  have "distinct (map fst (entries T))" using at(1) by (simp add: at_place_def addrs_entries)
  then have "a \<notin> fst ` set (pre fs @ entries l)" "a \<notin> fst ` set (entries u @ post fs)" unfolding E F(1) [symmetric] by auto
  then have no: "\<forall>e \<in> set (pre fs @ entries l). fst e \<noteq> a" "\<forall>e \<in> set (entries u @ post fs). fst e \<noteq> a" by blast+
  have "filter (\<lambda>e. fst e \<noteq> a) (entries T) = pre fs @ entries l @ entries u @ post fs"
    using filter_out [OF no, of e] F(1) E by simp
  moreover have "place_addrs (Nd l c e u) fs = set (addrs T)" using F(3) by (metis place_addrs_plug addrs_entries set_map)
  ultimately show ?thesis using D F(1) by (auto simp: deleted_def)
qed

end
