(* ===== verification/Poller.thy ===== *)
theory Poller
  imports Rbtree_Delete Socket_Stream
begin

text \<open>
  The poller (\<open>mio/mio_poller.h\<close>, \<open>mio/mio_poller.cpp\<close>): the timers of the events in two red-black trees, the
  tasks posted by the handlers, and the loop around \<open>epoll_wait\<close>. Everything here runs in the poller's thread.

  The kernel's part is in the state (what the coming calls of \<open>time\<close> return, the interest list) or an argument
  (what \<open>epoll_wait\<close> returns). A call of \<open>OnEventAsync\<close> is logged; what the handler then does is the subject of
  \<open>Io_Event\<close> and \<open>Socket_Stream\<close>, and reaches the poller as a task.
\<close>

section \<open>State\<close>

text \<open>The timer nodes are members of the events, the sentinel is a static object.\<close>

datatype timer_kind = Reading | Writing

datatype timer_addr = Sentinel | Timer timer_kind nat

record epoller =
  ep_heap :: "timer_addr rb_heap"
  ep_rtimer :: "timer_addr option"
  ep_wtimer :: "timer_addr option"
  ep_events :: "nat \<rightharpoonup> io_event"
  ep_interest :: "32 word \<rightharpoonup> 32 word \<times> nat"
  ep_notify :: nat
  ep_raised :: "(nat \<times> 32 word) list"
  ep_wrappers :: "nat list"
  ep_tasks :: "(nat \<times> poll_task) list"
  ep_running :: bool
  ep_clock :: "nat \<Rightarrow> 64 word"

fun timer_root :: "timer_kind \<Rightarrow> epoller \<Rightarrow> timer_addr option" where
  "timer_root Reading s = ep_rtimer s"
| "timer_root Writing s = ep_wtimer s"

fun set_timer_root :: "timer_kind \<Rightarrow> timer_addr option \<Rightarrow> epoller \<Rightarrow> epoller" where
  "set_timer_root Reading r s = s\<lparr>ep_rtimer := r\<rparr>"
| "set_timer_root Writing r s = s\<lparr>ep_wtimer := r\<rparr>"

text \<open>\<open>time(NULL)\<close>.\<close>

definition time_now :: "epoller \<Rightarrow> 64 word \<times> epoller" where
  "time_now s = (ep_clock s 0, s\<lparr>ep_clock := \<lambda>i. ep_clock s (Suc i)\<rparr>)"

text \<open>A loop that would not end counts as a fault.\<close>

definition returned :: "'a outcome option \<Rightarrow> 'a outcome" where
  "returned m = (case m of None \<Rightarrow> Fault | Some r \<Rightarrow> r)"

text \<open>An operation on one of the trees, an assignment to a timer node.\<close>

definition tree_op :: "timer_kind \<Rightarrow> (timer_addr rb_state \<Rightarrow> timer_addr rb_state outcome option) \<Rightarrow> epoller \<Rightarrow> epoller outcome" where
  "tree_op k f s = bind_outcome (returned (f (timer_root k s, ep_heap s)))
     (\<lambda>(r, h). Done (set_timer_root k r (s\<lparr>ep_heap := h\<rparr>)))"

definition node_op :: "timer_addr \<Rightarrow> (timer_addr rb_node \<Rightarrow> timer_addr rb_node) \<Rightarrow> epoller \<Rightarrow> epoller outcome" where
  "node_op a f s = bind_outcome (wr (Some a) f (ep_heap s)) (\<lambda>h. Done (s\<lparr>ep_heap := h\<rparr>))"

section \<open>Events\<close>

text \<open>The reference count of an event; the last release deletes the event with its timer nodes.\<close>

definition require_ref :: "nat \<Rightarrow> epoller \<Rightarrow> epoller outcome" where
  "require_ref ev s = (case ep_events s ev of None \<Rightarrow> Fault
     | Some e \<Rightarrow> Done (s\<lparr>ep_events := (ep_events s)(ev \<mapsto> RequireRef e)\<rparr>))"

definition release_ref :: "nat \<Rightarrow> epoller \<Rightarrow> epoller outcome" where
  "release_ref ev s = (case ep_events s ev of None \<Rightarrow> Fault
     | Some e \<Rightarrow> (case ReleaseRef e of (dead, e) \<Rightarrow>
         Done (if dead then s\<lparr>ep_events := (ep_events s)(ev := None),
             ep_heap := (ep_heap s)(Timer Reading ev := None, Timer Writing ev := None)\<rparr>
           else s\<lparr>ep_events := (ep_events s)(ev \<mapsto> e)\<rparr>)))"

text \<open>\<open>ev->OnEventAsync(this, mask)\<close>.\<close>

definition raise_event :: "nat \<Rightarrow> 32 word \<Rightarrow> epoller \<Rightarrow> epoller outcome" where
  "raise_event ev m s = (case ep_events s ev of None \<Rightarrow> Fault
     | Some e \<Rightarrow> (case OnEventAsync m e of (next_step, e) \<Rightarrow>
         let s = s\<lparr>ep_raised := ep_raised s @ [(ev, m)]\<rparr> in
         if next_step = Post_it
         then Done (s\<lparr>ep_events := (ep_events s)(ev \<mapsto> RequireRef e), ep_wrappers := ep_wrappers s @ [ev]\<rparr>)
         else Done (s\<lparr>ep_events := (ep_events s)(ev \<mapsto> e)\<rparr>)))"

text \<open>What \<open>epoll_wait\<close> reports, as the mask that is handed on.\<close>

definition EventToMask :: "32 word \<Rightarrow> 32 word" where
  "EventToMask events =
     (let m = (0 :: 32 word);
          m = (if events AND (EPOLLIN OR EPOLLPRI) \<noteq> 0 then m OR EVENT_READ else m);
          m = (if events AND EPOLLOUT \<noteq> 0 then m OR EVENT_WRITE else m);
          m = (if events AND (EPOLLHUP OR EPOLLRDHUP) \<noteq> 0 then m OR EVENT_CLOSE else m);
          m = (if events AND WRITE_TIME_OUT \<noteq> 0 then m OR WRITE_TIME_OUT else m);
          m = (if events AND READ_TIME_OUT \<noteq> 0 then m OR READ_TIME_OUT else m)
      in if events AND EPOLLERR \<noteq> 0 then m OR EVENT_ERR else m)"

text \<open>The interest list of \<open>epoll_ctl\<close>; the code ignores its failures.\<close>

definition epoll_add :: "32 word \<Rightarrow> 32 word \<times> nat \<Rightarrow> (32 word \<rightharpoonup> 32 word \<times> nat) \<Rightarrow> (32 word \<rightharpoonup> 32 word \<times> nat)" where
  "epoll_add fd x i = (if i fd = None then i(fd \<mapsto> x) else i)"

definition epoll_mod :: "32 word \<Rightarrow> 32 word \<times> nat \<Rightarrow> (32 word \<rightharpoonup> 32 word \<times> nat) \<Rightarrow> (32 word \<rightharpoonup> 32 word \<times> nat)" where
  "epoll_mod fd x i = (if i fd = None then i else i(fd \<mapsto> x))"

definition AddEvent :: "nat \<Rightarrow> bool \<Rightarrow> bool \<Rightarrow> epoller \<Rightarrow> epoller outcome" where
  "AddEvent ev readable writeable s = (case ep_events s ev of None \<Rightarrow> Fault
     | Some e \<Rightarrow> (case SetEvent readable writeable EPOLLET e of (_, e) \<Rightarrow>
         Done (s\<lparr>ep_events := (ep_events s)(ev \<mapsto> e), ep_interest := epoll_add (io_fd e) (io_ev e, ev) (ep_interest s)\<rparr>)))"

definition ModEvent :: "nat \<Rightarrow> bool \<Rightarrow> bool \<Rightarrow> epoller \<Rightarrow> epoller outcome" where
  "ModEvent ev readable writeable s = (case ep_events s ev of None \<Rightarrow> Fault
     | Some e \<Rightarrow> (case SetEvent readable writeable EPOLLET e of (changed, e) \<Rightarrow>
         let s = s\<lparr>ep_events := (ep_events s)(ev \<mapsto> e)\<rparr> in
         Done (if changed then s\<lparr>ep_interest := epoll_mod (io_fd e) (io_ev e, ev) (ep_interest s)\<rparr> else s)))"

section \<open>Timers\<close>

text \<open>\<open>SetReadTimeOut\<close> and \<open>SetWriteTimeOut\<close>.\<close>

definition SetTimeOut :: "timer_kind \<Rightarrow> nat \<Rightarrow> 32 word \<Rightarrow> epoller \<Rightarrow> epoller outcome" where
  "SetTimeOut k ev time_sec s =
     bind_outcome (rd rb_key (Some (Timer k ev)) (ep_heap s)) (\<lambda>key.
     bind_outcome
       (if key \<noteq> 0
        then bind_outcome (tree_op k (ngx_rbtree_delete (Some Sentinel) (Some (Timer k ev))) s)
          (node_op (Timer k ev) (\<lambda>n. n\<lparr>rb_key := 0\<rparr>))
        else bind_outcome (node_op (Timer k ev)
            (\<lambda>n. n\<lparr>rb_parent := None, rb_left := Some Sentinel, rb_right := Some Sentinel\<rparr>) s)
          (require_ref ev)) (\<lambda>s.
     bind_outcome (node_op (Timer k ev) (\<lambda>n. n\<lparr>rb_data := Some ev\<rparr>) s) (\<lambda>s.
     case time_now s of (now, s) \<Rightarrow>
     bind_outcome (node_op (Timer k ev) (\<lambda>n. n\<lparr>rb_key := now + ucast time_sec\<rparr>) s) (\<lambda>s.
     tree_op k (ngx_rbtree_insert ngx_rbtree_insert_value (Some Sentinel) (Some (Timer k ev))) s))))"

text \<open>\<open>DelReadTimeOut\<close> and \<open>DelWriteTimeOut\<close>.\<close>

definition DelTimeOut :: "timer_kind \<Rightarrow> nat \<Rightarrow> epoller \<Rightarrow> epoller outcome" where
  "DelTimeOut k ev s =
     bind_outcome (rd rb_key (Some (Timer k ev)) (ep_heap s)) (\<lambda>key.
       if key \<noteq> 0 then
         bind_outcome (node_op (Timer k ev) (\<lambda>n. n\<lparr>rb_key := 0\<rparr>) s) (\<lambda>s.
         bind_outcome (tree_op k (ngx_rbtree_delete (Some Sentinel) (Some (Timer k ev))) s) (\<lambda>s.
         release_ref ev s))
       else Done s)"

definition DelEvent :: "nat \<Rightarrow> epoller \<Rightarrow> epoller outcome" where
  "DelEvent ev s =
     bind_outcome (DelTimeOut Reading ev s) (\<lambda>s.
     bind_outcome (DelTimeOut Writing ev s) (\<lambda>s.
     case ep_events s ev of None \<Rightarrow> Fault
     | Some e \<Rightarrow> release_ref ev (s\<lparr>ep_interest := (ep_interest s)(io_fd e := None)\<rparr>)))"

text \<open>The two loops of \<open>ProcessTimeOut\<close>: the timers up to \<open>now\<close> are raised and taken out; the result is the key of
  the first one left (0, the key of the sentinel, when there is none).\<close>

fun time_out_mask :: "timer_kind \<Rightarrow> 32 word" where
  "time_out_mask Reading = READ_TIME_OUT"
| "time_out_mask Writing = WRITE_TIME_OUT"

definition fire_timer :: "timer_kind \<Rightarrow> timer_addr option \<Rightarrow> epoller \<Rightarrow> epoller outcome" where
  "fire_timer k m s = bind_outcome (rd rb_data m (ep_heap s)) (\<lambda>d. case d of None \<Rightarrow> Fault
     | Some ev \<Rightarrow> bind_outcome (raise_event ev (time_out_mask k) s)
         (tree_op k (ngx_rbtree_delete (Some Sentinel) m)))"

definition first_timer :: "timer_kind \<Rightarrow> epoller \<Rightarrow> (timer_addr option \<times> 64 word) outcome option" where
  "first_timer k s = map_option (\<lambda>r. bind_outcome r (\<lambda>m. bind_outcome (rd rb_key m (ep_heap s)) (\<lambda>x. Done (m, x))))
     (ngx_rbtree_min (timer_root k s) (Some Sentinel) (ep_heap s))"

partial_function (option) fire_loop :: "timer_kind \<Rightarrow> 64 word \<Rightarrow> epoller \<Rightarrow> (64 word \<times> epoller) outcome option" where
  "fire_loop k now s = (case first_timer k s of
      None \<Rightarrow> None
    | Some Fault \<Rightarrow> Some Fault
    | Some (Done (m, key)) \<Rightarrow>
        if 0 < key \<and> key \<le> now
        then (case fire_timer k m s of Fault \<Rightarrow> Some Fault | Done s \<Rightarrow> fire_loop k now s)
        else Some (Done (key, s)))"

text \<open>The differences are cut to 32 bits.\<close>

definition wait_time :: "64 word \<Rightarrow> 64 word \<Rightarrow> 64 word \<Rightarrow> int" where
  "wait_time now wkey rkey =
     (let waittime = (if now \<le> wkey then sint (ucast (wkey - now) :: 32 word) else - 1) in
      if now \<le> rkey then
        let waittime_read = sint (ucast (rkey - now) :: 32 word);
            waittime = (if 0 \<le> waittime then (if waittime < waittime_read then waittime else waittime_read)
              else waittime_read)
        in if waittime = 0 then 1 else waittime
      else waittime)"

definition ProcessTimeOut :: "epoller \<Rightarrow> (int \<times> epoller) outcome" where
  "ProcessTimeOut s = (case time_now s of (now, s) \<Rightarrow>
     bind_outcome (returned (fire_loop Writing now s)) (\<lambda>(wkey, s).
     bind_outcome (returned (fire_loop Reading now s)) (\<lambda>(rkey, s).
       let w = wait_time now wkey rkey in
       if w = - 1 then Done (- 1, s)
       else if - (2 ^ 31) \<le> w * 1000 \<and> w * 1000 < 2 ^ 31 then Done (w * 1000, s) else Fault)))"

section \<open>Tasks and the loop\<close>

definition PostTask :: "nat \<times> poll_task \<Rightarrow> epoller \<Rightarrow> epoller" where
  "PostTask t s = s\<lparr>ep_tasks := ep_tasks s @ [t]\<rparr>"

definition Stop :: "epoller \<Rightarrow> epoller" where
  "Stop s = s\<lparr>ep_running := False\<rparr>"

fun run_task :: "nat \<times> poll_task \<Rightarrow> epoller \<Rightarrow> epoller outcome" where
  "run_task (ev, Add_event r w) s = AddEvent ev r w s"
| "run_task (ev, Mod_event r w) s = ModEvent ev r w s"
| "run_task (ev, Del_event) s = DelEvent ev s"
| "run_task (ev, Set_read_timeout n) s = SetTimeOut Reading ev (of_nat n) s"
| "run_task (ev, Set_write_timeout n) s = SetTimeOut Writing ev (of_nat n) s"
| "run_task (ev, Del_read_timeout) s = DelTimeOut Reading ev s"
| "run_task (ev, Del_write_timeout) s = DelTimeOut Writing ev s"

fun run_tasks :: "(nat \<times> poll_task) list \<Rightarrow> epoller \<Rightarrow> epoller outcome" where
  "run_tasks [] s = Done s"
| "run_tasks (t # ts) s = bind_outcome (run_task t s) (run_tasks ts)"

definition ProcessPendingTask :: "epoller \<Rightarrow> epoller outcome" where
  "ProcessPendingTask s = (if ep_tasks s = [] then Done s else run_tasks (ep_tasks s) (s\<lparr>ep_tasks := []\<rparr>))"

text \<open>The events that \<open>epoll_wait\<close> has reported.\<close>

fun dispatch :: "(nat \<times> 32 word) list \<Rightarrow> epoller \<Rightarrow> epoller outcome" where
  "dispatch [] s = Done s"
| "dispatch ((ev, revents) # es) s = (case (ep_events s ev, ep_events s (ep_notify s)) of
     (Some e, Some n) \<Rightarrow>
       if io_fd e = io_fd n then dispatch es s
       else bind_outcome (raise_event ev (EventToMask revents) s) (dispatch es)
   | _ \<Rightarrow> Fault)"

definition Poll_turn :: "(nat \<times> 32 word) list \<Rightarrow> epoller \<Rightarrow> epoller outcome" where
  "Poll_turn es s = bind_outcome (ProcessTimeOut s) (\<lambda>(_, s).
     if es = [] then Done s else bind_outcome (dispatch es s) ProcessPendingTask)"

text \<open>The loop, for the list of what the coming calls of \<open>epoll_wait\<close> return.\<close>

fun Poll_loop :: "(nat \<times> 32 word) list list \<Rightarrow> epoller \<Rightarrow> epoller outcome" where
  "Poll_loop [] s = Done s"
| "Poll_loop (es # ess) s = bind_outcome (Poll_turn es s) (\<lambda>s. if ep_running s then Poll_loop ess s else Done s)"

definition Poll :: "(nat \<times> 32 word) list list \<Rightarrow> epoller \<Rightarrow> epoller outcome" where
  "Poll ess s = Poll_loop ess (s\<lparr>ep_running := True\<rparr>)"

text \<open>The constructors of an event (its timer nodes) and of the poller, which registers its notification.\<close>

definition new_timer_node :: "timer_addr rb_node" where
  "new_timer_node = \<lparr>rb_key = 0, rb_red = False, rb_data = None, rb_left = None, rb_right = None, rb_parent = None\<rparr>"

definition create_event :: "nat \<Rightarrow> io_event \<Rightarrow> epoller \<Rightarrow> epoller" where
  "create_event ev e s = s\<lparr>ep_events := (ep_events s)(ev \<mapsto> e),
     ep_heap := (ep_heap s)(Timer Reading ev \<mapsto> new_timer_node, Timer Writing ev \<mapsto> new_timer_node)\<rparr>"

definition new_Epoller :: "nat \<Rightarrow> 32 word \<Rightarrow> (nat \<Rightarrow> 64 word) \<Rightarrow> epoller outcome" where
  "new_Epoller n fd clock =
     (let s = \<lparr>ep_heap = [Sentinel \<mapsto> \<lparr>rb_key = 0, rb_red = False, rb_data = None, rb_left = Some Sentinel,
            rb_right = Some Sentinel, rb_parent = None\<rparr>],
          ep_rtimer = Some Sentinel, ep_wtimer = Some Sentinel, ep_events = Map.empty, ep_interest = Map.empty,
          ep_notify = n, ep_raised = [], ep_wrappers = [], ep_tasks = [], ep_running = False, ep_clock = clock\<rparr>;
          e = snd (SetEvent True False EPOLLET ((new_IOEvent False)\<lparr>io_fd := fd\<rparr>))
      in AddEvent n True False (create_event n (RequireRef e) s))"

text \<open>The destructor.\<close>

definition destroy_Epoller :: "epoller \<Rightarrow> epoller outcome" where
  "destroy_Epoller s = DelEvent (ep_notify s) s"

end
