(* ===== verification/Poller_Timers.thy ===== *)
theory Poller_Timers
  imports Poller
begin

text \<open>
  The poller of \<open>mio/mio_poller.cpp\<close> (its operations are in \<open>Poller\<close>) keeps the timers it is asked for: each tree
  refines a list of events and times in order, on which setting, deleting and firing are list operations.
\<close>

section \<open>The timers of a poller\<close>

text \<open>The tree of one kind holds the list of the events with their times, in order.\<close>

definition timer_entry :: "timer_kind \<Rightarrow> nat \<times> 64 word \<Rightarrow> timer_addr entry" where
  "timer_entry k p = (Timer k (fst p), snd p, Some (fst p))"

definition timers :: "timer_kind \<Rightarrow> epoller \<Rightarrow> (nat \<times> 64 word) list \<Rightarrow> bool" where
  "timers k s ts \<longleftrightarrow> (\<exists>T. rb_rep Sentinel (timer_root k s, ep_heap s) T \<and> entries T = map (timer_entry k) ts)
     \<and> sorted (map snd ts) \<and> 0 \<notin> snd ` set ts"

fun add_timer :: "nat \<Rightarrow> 64 word \<Rightarrow> (nat \<times> 64 word) list \<Rightarrow> (nat \<times> 64 word) list" where
  "add_timer ev x [] = [(ev, x)]"
| "add_timer ev x (p # ts) = (if snd p \<le> x then p # add_timer ev x ts else (ev, x) # p # ts)"

abbreviation del_timer :: "nat \<Rightarrow> (nat \<times> 64 word) list \<Rightarrow> (nat \<times> 64 word) list" where
  "del_timer ev \<equiv> filter (\<lambda>p. fst p \<noteq> ev)"

lemma add_timer_append:
  "\<forall>p \<in> set ps. snd p \<le> x \<Longrightarrow> \<forall>p \<in> set qs. x < snd p \<Longrightarrow> add_timer ev x (ps @ qs) = ps @ (ev, x) # qs"
  by (induction ps) (cases qs; auto)+

lemma del_timer_id: "ev \<notin> fst ` set ts \<Longrightarrow> del_timer ev ts = ts"
  by (induction ts) auto

lemma set_add_timer [simp]: "set (add_timer ev x ts) = insert (ev, x) (set ts)"
  by (induction ts) auto

lemma sorted_add_timer: "sorted (map snd ts) \<Longrightarrow> sorted (map snd (add_timer ev x ts))"
  by (induction ts) auto

lemma timer_entry_inj: "inj (timer_entry k)"
  by (auto simp: inj_def timer_entry_def prod_eq_iff)

lemma fst_timer_entry [simp]: "fst (timer_entry k p) = Timer k (fst p)" "entry_key (timer_entry k p) = snd p"
  by (simp_all add: timer_entry_def)

lemma tree_holds: "tree h S P x t \<Longrightarrow> e \<in> set (entries t) \<Longrightarrow> \<exists>c n. holds h c e n"
  by (induction t arbitrary: P x) auto

lemma rb_rep_facts:
  assumes "rb_rep z (r, h) T"
  shows "distinct (map fst (entries T))" "z \<notin> fst ` set (entries T)" "e \<in> set (entries T) \<Longrightarrow> \<exists>c n. holds h c e n"
    "\<exists>n. h z = Some n \<and> \<not> rb_red n"
  using assms tree_holds [of h "Some z" UNIV r T e] by (auto simp: rb_rep_def at_place_def addrs_entries)

lemma rb_rep_cong:
  assumes "rb_rep z (r, h) T" "\<And>a. a \<in> fst ` set (entries T) \<Longrightarrow> h' a = h a" "\<exists>n. h' z = Some n \<and> \<not> rb_red n"
  shows "rb_rep z (r, h') T"
proof -
  have "tree h' (Some z) UNIV r T"
    by (rule tree_cong [of T h' h]) (use assms in \<open>auto simp: rb_rep_def at_place_def addrs_entries\<close>)
  then show ?thesis using assms by (auto simp: rb_rep_def at_place_def)
qed

lemma timers_facts:
  assumes "timers k s ts"
  shows "distinct (map fst ts)" "\<exists>n. ep_heap s Sentinel = Some n \<and> \<not> rb_red n"
    "p \<in> set ts \<Longrightarrow> \<exists>n. ep_heap s (Timer k (fst p)) = Some n \<and> rb_key n = snd p \<and> rb_data n = Some (fst p) \<and> snd p \<noteq> 0"
proof -
  obtain T where T: "rb_rep Sentinel (timer_root k s, ep_heap s) T" "entries T = map (timer_entry k) ts" "0 \<notin> snd ` set ts"
    using assms by (auto simp: timers_def)
  have "distinct (map (Timer k) (map fst ts))" using rb_rep_facts(1) [OF T(1)] T(2) by (simp add: comp_def)
  then show "distinct (map fst ts)" by (rule distinct_map [THEN iffD1, THEN conjunct1])
  show "\<exists>n. ep_heap s Sentinel = Some n \<and> \<not> rb_red n" using rb_rep_facts(4) [OF T(1)] .
  show "\<exists>n. ep_heap s (Timer k (fst p)) = Some n \<and> rb_key n = snd p \<and> rb_data n = Some (fst p) \<and> snd p \<noteq> 0" if "p \<in> set ts"
  proof -
    have "timer_entry k p \<in> set (entries T)" using that T(2) by simp
    from rb_rep_facts(3) [OF T(1) this] obtain c n where "holds (ep_heap s) c (timer_entry k p) n" by blast
    moreover have "snd p \<noteq> 0" using that T(3) by force
    ultimately show ?thesis by (auto simp: holds_def timer_entry_def)
  qed
qed

lemma timers_frame:
  assumes "timers k s ts" "timer_root k s' = timer_root k s" "\<And>p. p \<in> set ts \<Longrightarrow> ep_heap s' (Timer k (fst p)) = ep_heap s (Timer k (fst p))"
    and "\<exists>n. ep_heap s' Sentinel = Some n \<and> \<not> rb_red n"
  shows "timers k s' ts"
proof -
  obtain T where T: "rb_rep Sentinel (timer_root k s, ep_heap s) T" "entries T = map (timer_entry k) ts"
    using assms(1) by (auto simp: timers_def)
  have "rb_rep Sentinel (timer_root k s, ep_heap s') T"
    by (rule rb_rep_cong [where h = "ep_heap s"]) (use T assms(3,4) in auto)
  then show ?thesis using assms(1,2) T(2) by (auto simp: timers_def)
qed

lemma timer_root_set [simp]: "timer_root k (set_timer_root k' r s) = (if k = k' then r else timer_root k s)"
  "ep_heap (set_timer_root k r s) = ep_heap s" "ep_events (set_timer_root k r s) = ep_events s"
  "timer_root k (s\<lparr>ep_heap := h\<rparr>) = timer_root k s"
  by (cases k; cases k'; simp)+

text \<open>What an operation on one tree leaves alone.\<close>

definition only_tree :: "timer_kind \<Rightarrow> timer_addr set \<Rightarrow> epoller \<Rightarrow> epoller \<Rightarrow> bool" where
  "only_tree k A s s' \<longleftrightarrow> (\<exists>r h. s' = set_timer_root k r (s\<lparr>ep_heap := h\<rparr>)) \<and> only_parent (ep_heap s) (ep_heap s') Sentinel
     \<and> same_off (insert Sentinel A) (ep_heap s) (ep_heap s')"

lemma map_filter_timer: "filter (\<lambda>e. fst e \<noteq> Timer k ev) (map (timer_entry k) ts) = map (timer_entry k) (del_timer ev ts)"
  by (induction ts) auto

lemma tree_delete:
  assumes "rb_rep Sentinel (timer_root k s, ep_heap s) T" "filter (\<lambda>e. fst e \<noteq> Timer k ev) (entries T) = map (timer_entry k) (del_timer ev ts)"
    and "Timer k ev \<in> fst ` set (entries T)" "sorted (map snd ts)" "0 \<notin> snd ` set ts"
  shows "\<exists>s'. tree_op k (ngx_rbtree_delete (Some Sentinel) (Some (Timer k ev))) s = Done s' \<and> timers k s' (del_timer ev ts)
    \<and> (\<exists>n. ep_heap s' (Timer k ev) = Some n \<and> rb_key n = 0) \<and> only_tree k (fst ` set (entries T)) s s'"
proof -
  have "Timer k ev \<in> set (addrs T)" using assms(3) by (simp add: addrs_entries)
  from delete_correct [OF assms(1) this] obtain r h T' n where
    D: "ngx_rbtree_delete (Some Sentinel) (Some (Timer k ev)) (timer_root k s, ep_heap s) = Some (Done (r, h))"
    "rb_rep Sentinel (r, h) T'" "entries T' = map (timer_entry k) (del_timer ev ts)" "h (Timer k ev) = Some n" "rb_key n = 0"
    "only_parent (ep_heap s) h Sentinel" "same_off (insert Sentinel (set (addrs T))) (ep_heap s) h"
    using assms(2) by auto
  let ?s = "set_timer_root k r (s\<lparr>ep_heap := h\<rparr>)"
  have "sorted (map snd (del_timer ev ts))" using assms(4) by (simp add: sorted_filter)
  then have "timers k ?s (del_timer ev ts)" using D(2,3) assms(5) by (auto simp: timers_def)
  moreover have "only_tree k (fst ` set (entries T)) s ?s" using D(6,7) by (auto simp: only_tree_def addrs_entries)
  ultimately show ?thesis using D(1,4,5) by (intro exI [of _ ?s]) (simp add: tree_op_def returned_def)
qed

lemma tree_insert:
  assumes "timers k s ts" "ep_heap s (Timer k ev) = Some n" "rb_data n = Some ev" "rb_key n \<noteq> 0" "ev \<notin> fst ` set ts"
  shows "\<exists>s'. tree_op k (ngx_rbtree_insert ngx_rbtree_insert_value (Some Sentinel) (Some (Timer k ev))) s = Done s'
    \<and> timers k s' (add_timer ev (rb_key n) ts) \<and> only_tree k (Timer k ` insert ev (fst ` set ts)) s s'"
proof -
  obtain T where T: "rb_rep Sentinel (timer_root k s, ep_heap s) T" "entries T = map (timer_entry k) ts"
    and srt: "sorted (map snd ts)" "0 \<notin> snd ` set ts" using assms(1) by (auto simp: timers_def)
  have "keys_sorted (entries T)" using srt(1) T(2) by (simp add: keys_sorted_def comp_def)
  moreover have "Timer k ev \<notin> set (addrs T)" using assms(5) T(2) by (auto simp: addrs_entries)
  moreover have "Timer k ev \<noteq> Sentinel" by simp
  ultimately have "\<exists>s' T' xs ys. ngx_rbtree_insert ngx_rbtree_insert_value (Some Sentinel) (Some (Timer k ev)) (timer_root k s, ep_heap s) = Some (Done s')
    \<and> rb_rep Sentinel s' T' \<and> entries T = xs @ ys \<and> entries T' = xs @ (Timer k ev, rb_key n, rb_data n) # ys
    \<and> (\<forall>e \<in> set xs. entry_key e \<le> rb_key n) \<and> (\<forall>e \<in> set ys. rb_key n < entry_key e)
    \<and> same_off (insert (Timer k ev) (set (addrs T))) (ep_heap s) (snd s')"
    by (intro insert_correct [OF T(1) _ assms(2)])
  then obtain r h T' xs ys where
    I: "ngx_rbtree_insert ngx_rbtree_insert_value (Some Sentinel) (Some (Timer k ev)) (timer_root k s, ep_heap s) = Some (Done (r, h))"
    "rb_rep Sentinel (r, h) T'" "map (timer_entry k) ts = xs @ ys" "entries T' = xs @ (Timer k ev, rb_key n, rb_data n) # ys"
    "\<forall>e \<in> set xs. entry_key e \<le> rb_key n" "\<forall>e \<in> set ys. rb_key n < entry_key e"
    "same_off (insert (Timer k ev) (set (addrs T))) (ep_heap s) h"
    unfolding T(2) by (elim exE conjE) (metis surj_pair that snd_conv)
  obtain ps qs where P: "ts = ps @ qs" "xs = map (timer_entry k) ps" "ys = map (timer_entry k) qs"
    using I(3) by (auto simp: map_eq_append_conv)
  have "add_timer ev (rb_key n) ts = ps @ (ev, rb_key n) # qs"
    unfolding P(1) by (rule add_timer_append) (use I(5,6) P(2,3) in auto)
  then have "entries T' = map (timer_entry k) (add_timer ev (rb_key n) ts)"
    using I(4) P(2,3) assms(3) by (simp add: timer_entry_def)
  then have "timers k (set_timer_root k r (s\<lparr>ep_heap := h\<rparr>)) (add_timer ev (rb_key n) ts)"
    using I(2) sorted_add_timer [OF srt(1)] srt(2) assms(4) by (auto simp: timers_def)
  moreover have "only_tree k (Timer k ` insert ev (fst ` set ts)) s (set_timer_root k r (s\<lparr>ep_heap := h\<rparr>))"
  proof -
    have A: "set (addrs T) = Timer k ` fst ` set ts" using T(2) by (simp add: addrs_entries image_image)
    then have off: "same_off (Timer k ` insert ev (fst ` set ts)) (ep_heap s) h" using I(7) by simp
    then have "h Sentinel = ep_heap s Sentinel" by (auto simp: same_off_def)
    then have "only_parent (ep_heap s) h Sentinel" by (rule only_parent_refl)
    moreover have "same_off (insert Sentinel (Timer k ` insert ev (fst ` set ts))) (ep_heap s) h"
      by (rule same_off_mono [OF off]) blast
    ultimately show ?thesis unfolding only_tree_def by auto
  qed
  ultimately show ?thesis using I(1)
    by (intro exI [of _ "set_timer_root k r (s\<lparr>ep_heap := h\<rparr>)"]) (simp add: tree_op_def returned_def)
qed

section \<open>The state of the poller\<close>

text \<open>\<open>L\<close> is what the two trees hold. The key of a node says whether it is in its tree, and every timer holds a
  reference of its event, beside the one of whoever registered the event.\<close>

definition timer_refs :: "(timer_kind \<Rightarrow> (nat \<times> 64 word) list) \<Rightarrow> nat \<Rightarrow> int" where
  "timer_refs L ev = of_bool (ev \<in> fst ` set (L Reading)) + of_bool (ev \<in> fst ` set (L Writing))"

definition poller_ok :: "(timer_kind \<Rightarrow> (nat \<times> 64 word) list) \<Rightarrow> epoller \<Rightarrow> bool" where
  "poller_ok L s \<longleftrightarrow> (\<forall>k. timers k s (L k))
     \<and> (\<exists>n. ep_heap s Sentinel = Some n \<and> rb_key n = 0 \<and> rb_left n = Some Sentinel)
     \<and> (\<forall>ev k. ev \<in> dom (ep_events s) \<longrightarrow> (\<exists>n. ep_heap s (Timer k ev) = Some n \<and> (ev \<notin> fst ` set (L k) \<longrightarrow> rb_key n = 0)))
     \<and> (\<forall>k. fst ` set (L k) \<subseteq> dom (ep_events s))
     \<and> (\<forall>ev e. ep_events s ev = Some e \<longrightarrow> 1 + timer_refs L ev \<le> io_refs e)"

text \<open>What the operations on timers leave alone.\<close>

definition kept :: "epoller \<Rightarrow> epoller \<Rightarrow> bool" where
  "kept s s' \<longleftrightarrow> ep_tasks s' = ep_tasks s \<and> ep_notify s' = ep_notify s \<and> ep_running s' = ep_running s
     \<and> (\<forall>ev. map_option io_fd (ep_events s' ev) = map_option io_fd (ep_events s ev))"

lemma kept_refl [simp]: "kept s s" by (simp add: kept_def)

lemma kept_trans: "kept s t \<Longrightarrow> kept t u \<Longrightarrow> kept s u" by (simp add: kept_def)

lemma kept_dom: "kept s s' \<Longrightarrow> dom (ep_events s') = dom (ep_events s)"
  unfolding kept_def dom_def by (metis option.map_disc_iff)

lemma set_timer_root_kept [simp]: "kept s (set_timer_root k r s') = kept s s'"
  "ep_clock (set_timer_root k r s) = ep_clock s" "ep_raised (set_timer_root k r s) = ep_raised s"
  "ep_interest (set_timer_root k r s) = ep_interest s" "ep_wrappers (set_timer_root k r s) = ep_wrappers s"
  by (cases k; simp add: kept_def)+

lemma poller_okD:
  assumes "poller_ok L s"
  shows "timers k s (L k)" "\<exists>n. ep_heap s Sentinel = Some n \<and> rb_key n = 0 \<and> rb_left n = Some Sentinel"
    "ev \<in> dom (ep_events s) \<Longrightarrow> \<exists>n. ep_heap s (Timer k ev) = Some n \<and> (ev \<notin> fst ` set (L k) \<longrightarrow> rb_key n = 0)"
    "fst ` set (L k) \<subseteq> dom (ep_events s)" "ep_events s ev = Some e \<Longrightarrow> 1 + timer_refs L ev \<le> io_refs e"
  using assms unfolding poller_ok_def by simp_all

lemma poller_ok_events:
  assumes "poller_ok L s" "ep_heap s' = ep_heap s" "\<And>k. timer_root k s' = timer_root k s" "dom (ep_events s') = dom (ep_events s)"
    and "\<And>ev e. ep_events s' ev = Some e \<Longrightarrow> 1 + timer_refs L ev \<le> io_refs e"
  shows "poller_ok L s'"
proof -
  have "timers k s' (L k)" for k using poller_okD(1) [OF assms(1)] assms(2,3) by (simp add: timers_def)
  then show ?thesis using assms unfolding poller_ok_def by simp
qed

lemma timer_root_events [simp]: "timer_root k (s\<lparr>ep_events := E\<rparr>) = timer_root k s" "timer_root k (s\<lparr>ep_clock := c\<rparr>) = timer_root k s"
  "timer_root k (s\<lparr>ep_raised := R\<rparr>) = timer_root k s" "timer_root k (s\<lparr>ep_wrappers := w\<rparr>) = timer_root k s"
  "timer_root k (s\<lparr>ep_interest := i\<rparr>) = timer_root k s" "timer_root k (s\<lparr>ep_tasks := t\<rparr>) = timer_root k s"
  "timer_root k (s\<lparr>ep_running := b\<rparr>) = timer_root k s"
  by (cases k; simp)+

lemma raise_ok:
  assumes "poller_ok L s" "ev \<in> dom (ep_events s)"
  shows "\<exists>s'. raise_event ev m s = Done s' \<and> poller_ok L s' \<and> kept s s' \<and> ep_clock s' = ep_clock s
    \<and> ep_raised s' = ep_raised s @ [(ev, m)] \<and> (\<forall>k. timer_root k s' = timer_root k s) \<and> ep_heap s' = ep_heap s"
proof -
  obtain e where e: "ep_events s ev = Some e" using assms(2) by auto
  obtain nx e1 where o: "OnEventAsync m e = (nx, e1)" by (cases "OnEventAsync m e")
  then have r: "io_refs e1 = io_refs e" "io_fd e1 = io_fd e" by (auto simp: OnEventAsync_def Let_def split: if_splits)
  define e2 where "e2 = (if nx = Post_it then RequireRef e1 else e1)"
  define s' where "s' = s\<lparr>ep_events := (ep_events s)(ev \<mapsto> e2), ep_raised := ep_raised s @ [(ev, m)],
    ep_wrappers := (if nx = Post_it then ep_wrappers s @ [ev] else ep_wrappers s)\<rparr>"
  have "raise_event ev m s = Done s'" using e o by (simp add: raise_event_def s'_def e2_def Let_def)
  moreover have "io_refs e \<le> io_refs e2" "io_fd e2 = io_fd e" using r by (simp_all add: e2_def RequireRef_def)
  moreover have "poller_ok L s'"
  proof (rule poller_ok_events [OF assms(1)])
    show "1 + timer_refs L v \<le> io_refs d" if "ep_events s' v = Some d" for v d
      using that poller_okD(5) [OF assms(1), of v] e \<open>io_refs e \<le> io_refs e2\<close> by (fastforce simp: s'_def split: if_splits)
  qed (use e in \<open>auto simp: s'_def\<close>)
  ultimately show ?thesis using e by (intro exI [of _ s']) (auto simp: s'_def kept_def)
qed

subsection \<open>Taking a timer out\<close>

lemma other_kind: "k' \<noteq> k \<Longrightarrow> Timer k' ev \<notin> insert Sentinel (Timer k ` A)"
  by auto

lemma timer_refs_upd:
  "timer_refs (L(k := ts)) ev = timer_refs L ev - of_bool (ev \<in> fst ` set (L k)) + of_bool (ev \<in> fst ` set ts)"
  by (cases k) (simp_all add: timer_refs_def)

lemma poller_ok_tree:
  assumes "poller_ok L s0" "timers k s ts" "only_tree k (Timer k ` A) (s0\<lparr>ep_heap := h1\<rparr>) s" "h1 = ep_heap s0 \<or> (\<exists>ev n. ev \<in> A \<and> h1 = (ep_heap s0)(Timer k ev \<mapsto> n))"
    and "fst ` set ts \<subseteq> dom (ep_events s0)" "\<And>ev e. ep_events s0 ev = Some e \<Longrightarrow> 1 + timer_refs (L(k := ts)) ev \<le> io_refs e"
    and "\<And>ev. ev \<in> A \<Longrightarrow> ev \<notin> fst ` set ts \<Longrightarrow> \<exists>n. ep_heap s (Timer k ev) = Some n \<and> rb_key n = 0"
    and "fst ` set (L k) \<subseteq> A \<union> fst ` set ts"
  shows "poller_ok (L(k := ts)) s"
proof -
  have h1: "h1 a = ep_heap s0 a" if "a \<notin> Timer k ` A" for a using assms(4) that by auto
  obtain r h where s: "s = set_timer_root k r (s0\<lparr>ep_heap := h\<rparr>)" and off: "only_parent h1 h Sentinel" "same_off (insert Sentinel (Timer k ` A)) h1 h"
    using assms(3) by (auto simp: only_tree_def)
  have h: "h a = ep_heap s0 a" if "a \<noteq> Sentinel" "a \<notin> Timer k ` A" for a using off(2) h1 that by (simp add: same_off_def)
  obtain n where n: "ep_heap s0 Sentinel = Some n" "rb_key n = 0" "rb_left n = Some Sentinel" "\<not> rb_red n"
    using poller_okD(2) [OF assms(1)] timers_facts(2) [OF poller_okD(1) [OF assms(1)]] by auto
  have "h1 Sentinel = Some n" using h1 [of Sentinel] n(1) by auto
  then obtain p where hz: "h Sentinel = Some (n\<lparr>rb_parent := p\<rparr>)" using off(1) by (auto simp: only_parent_def)
  have "timers k' s ((L(k := ts)) k')" for k'
  proof (cases "k' = k")
    case False
    have "timers k' s (L k')"
      by (rule timers_frame [OF poller_okD(1) [OF assms(1)]]) (use False h hz n(4) in \<open>auto simp: s\<close>)
    then show ?thesis using False by simp
  qed (use assms(2) in simp)
  moreover have "\<exists>n. ep_heap s (Timer k' ev) = Some n \<and> (ev \<notin> fst ` set ((L(k := ts)) k') \<longrightarrow> rb_key n = 0)"
    if ev: "ev \<in> dom (ep_events s)" for k' ev
  proof -
    have ev0: "ev \<in> dom (ep_events s0)" using ev by (simp add: s)
    obtain m where m: "ep_heap s0 (Timer k' ev) = Some m" "ev \<notin> fst ` set (L k') \<longrightarrow> rb_key m = 0"
      using poller_okD(3) [OF assms(1) ev0] by blast
    show ?thesis
    proof (cases "k' = k \<and> ev \<in> A \<union> fst ` set ts")
      case True
      show ?thesis
      proof (cases "ev \<in> fst ` set ts")
        case True
        then obtain q where q: "q \<in> set ts" "fst q = ev" by auto
        show ?thesis using timers_facts(3) [OF assms(2) q(1)] q(2) True \<open>k' = k \<and> _\<close> by auto
      qed (use True assms(7) in auto)
    next
      case False
      then have "Timer k' ev \<notin> Timer k ` A" by auto
      then have "h (Timer k' ev) = Some m" using h m(1) by simp
      moreover have "ev \<notin> fst ` set ((L(k := ts)) k') \<longrightarrow> rb_key m = 0" using m(2) False assms(8) by (cases "k' = k") auto
      ultimately show ?thesis by (simp add: s)
    qed
  qed
  moreover have "fst ` set ((L(k := ts)) k') \<subseteq> dom (ep_events s)" for k'
    using poller_okD(4) [OF assms(1)] assms(5) by (simp add: s)
  moreover have "1 + timer_refs (L(k := ts)) ev \<le> io_refs e" if "ep_events s ev = Some e" for ev e
    using assms(6) that by (simp add: s)
  moreover have "\<exists>n. ep_heap s Sentinel = Some n \<and> rb_key n = 0 \<and> rb_left n = Some Sentinel" using hz n by (simp add: s)
  ultimately show ?thesis unfolding poller_ok_def by blast
qed

lemma kept_tree: "only_tree k A (s\<lparr>ep_heap := h\<rparr>) s' \<Longrightarrow>
    kept s s' \<and> ep_events s' = ep_events s \<and> ep_clock s' = ep_clock s \<and> ep_raised s' = ep_raised s \<and> ep_interest s' = ep_interest s"
  by (auto simp: only_tree_def) (simp add: kept_def)

lemma del_timer_fst [simp]: "fst ` set (del_timer ev ts) = fst ` set ts - {ev}"
  by force

lemma delete_timer_ok:
  assumes "poller_ok L s" "ev \<in> fst ` set (L k)"
  shows "\<exists>s'. tree_op k (ngx_rbtree_delete (Some Sentinel) (Some (Timer k ev))) s = Done s'
    \<and> poller_ok (L(k := del_timer ev (L k))) s' \<and> kept s s' \<and> ep_events s' = ep_events s \<and> ep_clock s' = ep_clock s
    \<and> ep_raised s' = ep_raised s \<and> ep_interest s' = ep_interest s"
proof -
  obtain T where T: "rb_rep Sentinel (timer_root k s, ep_heap s) T" "entries T = map (timer_entry k) (L k)"
    and srt: "sorted (map snd (L k))" "0 \<notin> snd ` set (L k)" using poller_okD(1) [OF assms(1)] by (auto simp: timers_def)
  have A: "fst ` set (entries T) = Timer k ` fst ` set (L k)" using T(2) by (auto simp: image_image)
  have F: "filter (\<lambda>e. fst e \<noteq> Timer k ev) (entries T) = map (timer_entry k) (del_timer ev (L k))" by (simp add: T(2) map_filter_timer)
  have M: "Timer k ev \<in> fst ` set (entries T)" using assms(2) A by blast
  from tree_delete [OF T(1) F M srt] A obtain s' where D:
    "tree_op k (ngx_rbtree_delete (Some Sentinel) (Some (Timer k ev))) s = Done s'" "timers k s' (del_timer ev (L k))"
    "\<exists>n. ep_heap s' (Timer k ev) = Some n \<and> rb_key n = 0" "only_tree k (Timer k ` fst ` set (L k)) (s\<lparr>ep_heap := ep_heap s\<rparr>) s'" by auto
  have "poller_ok (L(k := del_timer ev (L k))) s'"
  proof (rule poller_ok_tree [OF assms(1) D(2,4)])
    show "fst ` set (del_timer ev (L k)) \<subseteq> dom (ep_events s)" using poller_okD(4) [OF assms(1), of k] by auto
    show "1 + timer_refs (L(k := del_timer ev (L k))) v \<le> io_refs e" if "ep_events s v = Some e" for v e
      using poller_okD(5) [OF assms(1) that] unfolding timer_refs_upd del_timer_fst by (auto simp: of_bool_def split: if_splits)
    show "\<exists>n. ep_heap s' (Timer k v) = Some n \<and> rb_key n = 0" if "v \<in> fst ` set (L k)" "v \<notin> fst ` set (del_timer ev (L k))" for v
      using that D(3) by auto
  qed auto
  then show ?thesis using D(1) kept_tree [OF D(4)] by (intro exI [of _ s']) auto
qed

text \<open>\<open>DelTimeOut\<close> clears the key before it takes the node out, which does not look at keys.\<close>

primrec rekey :: "('a entry \<Rightarrow> 'a entry) \<Rightarrow> 'a rbt \<Rightarrow> 'a rbt" where
  "rekey f Lf = Lf"
| "rekey f (Nd l c e r) = Nd (rekey f l) c (f e) (rekey f r)"

lemma rekey_facts: "(\<And>e. fst (f e) = fst e) \<Longrightarrow>
    entries (rekey f t) = map f (entries t) \<and> addrs (rekey f t) = addrs t \<and> red (rekey f t) = red t \<and> black_height n (rekey f t) = black_height n t"
  by (induction t arbitrary: n) (auto simp: addrs_entries)

lemma tree_rekey:
  assumes "\<And>e. fst (f e) = fst e" "\<And>c e n. e \<in> set (entries t) \<Longrightarrow> holds h c e n \<Longrightarrow> \<exists>n'. holds h' c (f e) n'
      \<and> rb_left n' = rb_left n \<and> rb_right n' = rb_right n \<and> rb_parent n' = rb_parent n"
  shows "tree h S P x t \<Longrightarrow> tree h' S P x (rekey f t)"
  using assms(2)
proof (induction t arbitrary: P x)
  case (Nd l c e r)
  then obtain n where n: "x = Some (fst e)" "holds h c e n" "rb_parent n \<in> P"
    "tree h S {Some (fst e)} (rb_left n) l" "tree h S {Some (fst e)} (rb_right n) r" by auto
  obtain n' where "holds h' c (f e) n'" "rb_left n' = rb_left n" "rb_right n' = rb_right n" "rb_parent n' = rb_parent n"
    using Nd.prems(2) [of e c n] n(2) by auto
  moreover have "tree h' S {Some (fst e)} (rb_left n) (rekey f l)" using Nd.IH(1) [OF n(4)] Nd.prems(2) by simp
  moreover have "tree h' S {Some (fst e)} (rb_right n) (rekey f r)" using Nd.IH(2) [OF n(5)] Nd.prems(2) by simp
  ultimately show ?case using n(1,3) assms(1) by auto
qed simp

lemma rb_rep_rekey:
  assumes "rb_rep z (r, h) T" "a \<in> fst ` set (entries T)" "h a = Some n"
  shows "\<exists>T'. rb_rep z (r, h(a \<mapsto> n\<lparr>rb_key := x\<rparr>)) T' \<and> entries T' = map (\<lambda>e. if fst e = a then (a, x, snd (snd e)) else e) (entries T)"
proof -
  let ?f = "\<lambda>e :: 'a entry. if fst e = a then (a, x, snd (snd e)) else e" and ?h = "h(a \<mapsto> n\<lparr>rb_key := x\<rparr>)"
  have f: "fst (?f e) = fst e" for e by simp
  note F = rekey_facts [of ?f, OF f]
  have T: "tree h (Some z) UNIV r T" "z \<notin> set (addrs T)" "distinct (addrs T)" "\<exists>n. h z = Some n \<and> \<not> rb_red n" "rb_tree T"
    using assms(1) by (auto simp: rb_rep_def at_place_def)
  have "tree ?h (Some z) UNIV r (rekey ?f T)"
    by (rule tree_rekey [OF f _ T(1)]) (use assms(3) in \<open>auto simp: holds_def\<close>)
  moreover have "a \<noteq> z" using assms(2) T(2) by (auto simp: addrs_entries)
  ultimately have "rb_rep z (r, ?h) (rekey ?f T)" using T(2-5) F by (auto simp: rb_rep_def at_place_def rb_tree_def)
  then show ?thesis using F by blast
qed

lemma filter_rekeyed: "filter (\<lambda>e. fst e \<noteq> a) (map (\<lambda>e. if fst e = a then (a, x, snd (snd e)) else e) es) = filter (\<lambda>e. fst e \<noteq> a) es"
  by (induction es) auto

lemma delete_cleared_ok:
  assumes "poller_ok L s" "ev \<in> fst ` set (L k)"
  shows "\<exists>s1 s'. node_op (Timer k ev) (\<lambda>n. n\<lparr>rb_key := 0\<rparr>) s = Done s1
    \<and> tree_op k (ngx_rbtree_delete (Some Sentinel) (Some (Timer k ev))) s1 = Done s'
    \<and> poller_ok (L(k := del_timer ev (L k))) s' \<and> kept s s' \<and> ep_events s' = ep_events s \<and> ep_clock s' = ep_clock s
    \<and> ep_raised s' = ep_raised s \<and> ep_interest s' = ep_interest s"
proof -
  obtain T where T: "rb_rep Sentinel (timer_root k s, ep_heap s) T" "entries T = map (timer_entry k) (L k)"
    and srt: "sorted (map snd (L k))" "0 \<notin> snd ` set (L k)" using poller_okD(1) [OF assms(1)] by (auto simp: timers_def)
  have A: "fst ` set (entries T) = Timer k ` fst ` set (L k)" using T(2) by (auto simp: image_image)
  then have M: "Timer k ev \<in> fst ` set (entries T)" using assms(2) by blast
  obtain p where "p \<in> set (L k)" "fst p = ev" using assms(2) by auto
  then obtain n where n: "ep_heap s (Timer k ev) = Some n" using timers_facts(3) [OF poller_okD(1) [OF assms(1)]] by blast
  from rb_rep_rekey [OF T(1) M n, of 0] obtain T' where
    T': "rb_rep Sentinel (timer_root k s, (ep_heap s)(Timer k ev \<mapsto> n\<lparr>rb_key := 0\<rparr>)) T'"
    "entries T' = map (\<lambda>e. if fst e = Timer k ev then (Timer k ev, 0, snd (snd e)) else e) (entries T)" by blast
  let ?s = "s\<lparr>ep_heap := (ep_heap s)(Timer k ev \<mapsto> n\<lparr>rb_key := 0\<rparr>)\<rparr>"
  have R: "rb_rep Sentinel (timer_root k ?s, ep_heap ?s) T'" using T'(1) by simp
  have F: "filter (\<lambda>e. fst e \<noteq> Timer k ev) (entries T') = map (timer_entry k) (del_timer ev (L k))"
    unfolding map_filter_timer [symmetric] T(2) [symmetric] T'(2) by (rule filter_rekeyed)
  have A': "fst ` set (entries T') = fst ` set (entries T)" unfolding T'(2) set_map image_image by (rule image_cong) auto
  from tree_delete [OF R F M [folded A'] srt] obtain s' where D:
    "tree_op k (ngx_rbtree_delete (Some Sentinel) (Some (Timer k ev))) ?s = Done s'" "timers k s' (del_timer ev (L k))"
    "\<exists>n. ep_heap s' (Timer k ev) = Some n \<and> rb_key n = 0" "only_tree k (Timer k ` fst ` set (L k)) ?s s'"
    unfolding A' A by blast
  have "poller_ok (L(k := del_timer ev (L k))) s'"
  proof (rule poller_ok_tree [OF assms(1) D(2,4)])
    show "fst ` set (del_timer ev (L k)) \<subseteq> dom (ep_events s)" using poller_okD(4) [OF assms(1), of k] by auto
    show "1 + timer_refs (L(k := del_timer ev (L k))) v \<le> io_refs e" if "ep_events s v = Some e" for v e
      using poller_okD(5) [OF assms(1) that] unfolding timer_refs_upd del_timer_fst by (auto simp: of_bool_def split: if_splits)
    show "\<exists>n. ep_heap s' (Timer k v) = Some n \<and> rb_key n = 0" if "v \<in> fst ` set (L k)" "v \<notin> fst ` set (del_timer ev (L k))" for v
      using that D(3) by auto
  qed (use assms(2) in auto)
  then show ?thesis using D(1) kept_tree [OF D(4)] n
    by (intro exI [of _ ?s] exI [of _ s']) (auto simp: node_op_def)
qed

text \<open>A node outside of the tree gets a time and goes in.\<close>

lemma insert_timer_ok:
  assumes "poller_ok L s" "ev \<notin> fst ` set (L k)" "ep_events s ev = Some e" "2 + timer_refs L ev \<le> io_refs e"
    and "rb_data n = Some ev" "rb_key n \<noteq> 0"
  shows "\<exists>s'. tree_op k (ngx_rbtree_insert ngx_rbtree_insert_value (Some Sentinel) (Some (Timer k ev)))
      (s\<lparr>ep_heap := (ep_heap s)(Timer k ev \<mapsto> n)\<rparr>) = Done s'
    \<and> poller_ok (L(k := add_timer ev (rb_key n) (L k))) s' \<and> kept s s' \<and> ep_events s' = ep_events s \<and> ep_clock s' = ep_clock s
    \<and> ep_raised s' = ep_raised s \<and> ep_interest s' = ep_interest s"
proof -
  let ?s = "s\<lparr>ep_heap := (ep_heap s)(Timer k ev \<mapsto> n)\<rparr>"
  note S = poller_okD(1) [OF assms(1)]
  have "timers k ?s (L k)"
    by (rule timers_frame [OF S]) (use assms(2) timers_facts(2) [OF S] in auto)
  from tree_insert [OF this _ assms(5,6,2)] obtain s' where D:
    "tree_op k (ngx_rbtree_insert ngx_rbtree_insert_value (Some Sentinel) (Some (Timer k ev))) ?s = Done s'"
    "timers k s' (add_timer ev (rb_key n) (L k))" "only_tree k (Timer k ` insert ev (fst ` set (L k))) ?s s'" by auto
  have "poller_ok (L(k := add_timer ev (rb_key n) (L k))) s'"
  proof (rule poller_ok_tree [OF assms(1) D(2,3)])
    show "fst ` set (add_timer ev (rb_key n) (L k)) \<subseteq> dom (ep_events s)" using poller_okD(4) [OF assms(1), of k] assms(3) by auto
    show "1 + timer_refs (L(k := add_timer ev (rb_key n) (L k))) v \<le> io_refs d" if "ep_events s v = Some d" for v d
      using poller_okD(5) [OF assms(1) that] that assms(2-4) unfolding timer_refs_upd by (cases "v = ev") simp_all
  qed auto
  then show ?thesis using D(1) kept_tree [OF D(3)] by (intro exI [of _ s']) auto
qed

subsection \<open>Setting and deleting a timer\<close>

lemma require_ok:
  assumes "poller_ok L s" "ep_events s ev = Some e"
  shows "\<exists>s'. require_ref ev s = Done s' \<and> poller_ok L s' \<and> kept s s' \<and> ep_events s' = (ep_events s)(ev \<mapsto> RequireRef e)
    \<and> s' = s\<lparr>ep_events := (ep_events s)(ev \<mapsto> RequireRef e)\<rparr>"
proof -
  let ?s = "s\<lparr>ep_events := (ep_events s)(ev \<mapsto> RequireRef e)\<rparr>"
  have "poller_ok L ?s"
  proof (rule poller_ok_events [OF assms(1)])
    show "1 + timer_refs L v \<le> io_refs d" if "ep_events ?s v = Some d" for v d
      using that poller_okD(5) [OF assms(1), of v] assms(2) by (fastforce simp: RequireRef_def split: if_splits)
  qed (use assms(2) in auto)
  then show ?thesis using assms(2) by (auto simp: require_ref_def kept_def RequireRef_def)
qed

lemma SetTimeOut_ok:
  assumes "poller_ok L s" "ep_events s ev = Some e" "ep_clock s 0 + ucast secs \<noteq> 0"
  shows "\<exists>s'. SetTimeOut k ev secs s = Done s'
    \<and> poller_ok (L(k := add_timer ev (ep_clock s 0 + ucast secs) (del_timer ev (L k)))) s' \<and> kept s s'
    \<and> ep_events s' = (if ev \<in> fst ` set (L k) then ep_events s else (ep_events s)(ev \<mapsto> RequireRef e))
    \<and> ep_clock s' = (\<lambda>i. ep_clock s (Suc i)) \<and> ep_raised s' = ep_raised s \<and> ep_interest s' = ep_interest s"
proof -
  let ?L = "L(k := del_timer ev (L k))" and ?a = "Timer k ev"
  define E where "E = (if ev \<in> fst ` set (L k) then ep_events s else (ep_events s)(ev \<mapsto> RequireRef e))"
  obtain n where n: "ep_heap s ?a = Some n" "ev \<notin> fst ` set (L k) \<longrightarrow> rb_key n = 0"
    using poller_okD(3) [OF assms(1), of ev k] assms(2) by auto
  \<comment> \<open>the node is out of the tree\<close>
  have "\<exists>s1 n1. (if rb_key n \<noteq> 0
        then bind_outcome (tree_op k (ngx_rbtree_delete (Some Sentinel) (Some ?a)) s) (node_op ?a (\<lambda>n. n\<lparr>rb_key := 0\<rparr>))
        else bind_outcome (node_op ?a (\<lambda>n. n\<lparr>rb_parent := None, rb_left := Some Sentinel, rb_right := Some Sentinel\<rparr>) s)
          (require_ref ev)) = Done (s1\<lparr>ep_heap := (ep_heap s1)(?a \<mapsto> n1)\<rparr>)
      \<and> poller_ok ?L s1 \<and> kept s s1 \<and> ep_events s1 = E \<and> ep_clock s1 = ep_clock s \<and> ep_raised s1 = ep_raised s
      \<and> ep_interest s1 = ep_interest s"
  proof (cases "ev \<in> fst ` set (L k)")
    case True
    then obtain p where p: "p \<in> set (L k)" "fst p = ev" by auto
    then have "rb_key n \<noteq> 0" using timers_facts(3) [OF poller_okD(1) [OF assms(1)] p(1)] n(1) by auto
    moreover obtain s1 where s1: "tree_op k (ngx_rbtree_delete (Some Sentinel) (Some ?a)) s = Done s1" "poller_ok ?L s1" "kept s s1"
      "ep_events s1 = ep_events s" "ep_clock s1 = ep_clock s" "ep_raised s1 = ep_raised s" "ep_interest s1 = ep_interest s"
      using delete_timer_ok [OF assms(1) True] by blast
    moreover obtain n1 where "ep_heap s1 ?a = Some n1" using poller_okD(3) [OF s1(2), of ev k] s1(4) assms(2) by auto
    ultimately show ?thesis using True
      by (intro exI [of _ s1] exI [of _ "n1\<lparr>rb_key := 0\<rparr>"]) (simp add: node_op_def E_def)
  next
    case False
    then have "del_timer ev (L k) = L k" by (rule del_timer_id)
    then have L: "?L = L" by simp
    let ?n = "n\<lparr>rb_parent := None, rb_left := Some Sentinel, rb_right := Some Sentinel\<rparr>"
    from require_ok [OF assms(1,2)] show ?thesis using False n assms(2) unfolding L
      by (intro exI [of _ "s\<lparr>ep_events := E\<rparr>"] exI [of _ ?n]) (auto simp: node_op_def require_ref_def E_def)
  qed
  then obtain s1 n1 where P: "(if rb_key n \<noteq> 0
        then bind_outcome (tree_op k (ngx_rbtree_delete (Some Sentinel) (Some ?a)) s) (node_op ?a (\<lambda>n. n\<lparr>rb_key := 0\<rparr>))
        else bind_outcome (node_op ?a (\<lambda>n. n\<lparr>rb_parent := None, rb_left := Some Sentinel, rb_right := Some Sentinel\<rparr>) s)
          (require_ref ev)) = Done (s1\<lparr>ep_heap := (ep_heap s1)(?a \<mapsto> n1)\<rparr>)"
    "poller_ok ?L s1" "kept s s1" "ep_events s1 = E" "ep_clock s1 = ep_clock s" "ep_raised s1 = ep_raised s"
    "ep_interest s1 = ep_interest s" by blast
  \<comment> \<open>and goes in again\<close>
  let ?x = "ep_clock s 0 + ucast secs"
  define n2 where "n2 = n1\<lparr>rb_data := Some ev, rb_key := ?x\<rparr>"
  define s2 where "s2 = s1\<lparr>ep_clock := \<lambda>i. ep_clock s (Suc i)\<rparr>"
  obtain e1 where e1: "E ev = Some e1" "2 + timer_refs ?L ev \<le> io_refs e1"
    using poller_okD(5) [OF assms(1,2)] assms(2) unfolding timer_refs_upd del_timer_fst
    by (cases "ev \<in> fst ` set (L k)") (auto simp: E_def RequireRef_def)
  have "poller_ok ?L s2" using poller_ok_events [OF P(2), of s2] poller_okD(5) [OF P(2)] by (simp add: s2_def)
  moreover have "ev \<notin> fst ` set (?L k)" by auto
  moreover have "ep_events s2 ev = Some e1" using e1 P(4) by (simp add: s2_def)
  ultimately obtain s' where I: "tree_op k (ngx_rbtree_insert ngx_rbtree_insert_value (Some Sentinel) (Some ?a))
      (s2\<lparr>ep_heap := (ep_heap s2)(?a \<mapsto> n2)\<rparr>) = Done s'" "poller_ok (?L(k := add_timer ev ?x (?L k))) s'" "kept s2 s'"
      "ep_events s' = ep_events s2" "ep_clock s' = ep_clock s2" "ep_raised s' = ep_raised s2" "ep_interest s' = ep_interest s2"
    using insert_timer_ok [of ?L s2 ev k e1 n2] e1(2) assms(3) by (auto simp: n2_def)
  have step: "time_now (s1\<lparr>ep_heap := (ep_heap s1)(?a \<mapsto> n1\<lparr>rb_data := Some ev\<rparr>)\<rparr>)
      = (ep_clock s 0, s2\<lparr>ep_heap := (ep_heap s1)(?a \<mapsto> n1\<lparr>rb_data := Some ev\<rparr>)\<rparr>)"
    using P(5) by (simp add: time_now_def s2_def)
  have "(ep_heap s1)(?a \<mapsto> n2) = (ep_heap s2)(?a \<mapsto> n2)" by (simp add: s2_def)
  then have "SetTimeOut k ev secs s = Done s'"
    unfolding SetTimeOut_def rd_Some [of "ep_heap s", OF n(1)] bind_outcome.simps P(1)
    using I(1) step by (simp add: node_op_def n2_def)
  moreover have "kept s s'" using P(3) I(3) by (simp add: kept_def s2_def)
  ultimately show ?thesis using I(2,4-7) P(4,6,7) by (intro exI [of _ s']) (simp add: s2_def E_def)
qed

lemma release_ok:
  assumes "poller_ok L s" "ep_events s ev = Some e" "2 + timer_refs L ev \<le> io_refs e"
  shows "\<exists>s'. release_ref ev s = Done s' \<and> poller_ok L s' \<and> kept s s' \<and> ep_events s' = (ep_events s)(ev \<mapsto> snd (ReleaseRef e))
    \<and> ep_clock s' = ep_clock s \<and> ep_raised s' = ep_raised s \<and> ep_interest s' = ep_interest s"
proof -
  let ?s = "s\<lparr>ep_events := (ep_events s)(ev \<mapsto> snd (ReleaseRef e))\<rparr>"
  have "poller_ok L ?s"
  proof (rule poller_ok_events [OF assms(1)])
    show "1 + timer_refs L v \<le> io_refs d" if "ep_events ?s v = Some d" for v d
      using that poller_okD(5) [OF assms(1), of v] assms(2,3) by (fastforce simp: ReleaseRef_def split: if_splits)
  qed (use assms(2) in auto)
  moreover have "0 \<le> timer_refs L ev" by (simp add: timer_refs_def)
  then have "io_refs e - 1 \<noteq> 0" using assms(3) by simp
  then have "release_ref ev s = Done ?s" using assms(2) by (simp add: release_ref_def ReleaseRef_def)
  ultimately show ?thesis using assms(2) by (intro exI [of _ ?s]) (simp add: kept_def ReleaseRef_def)
qed

lemma DelTimeOut_ok:
  assumes "poller_ok L s" "ep_events s ev = Some e"
  shows "\<exists>s'. DelTimeOut k ev s = Done s' \<and> poller_ok (L(k := del_timer ev (L k))) s' \<and> kept s s'
    \<and> ep_events s' = (if ev \<in> fst ` set (L k) then (ep_events s)(ev \<mapsto> snd (ReleaseRef e)) else ep_events s)
    \<and> ep_clock s' = ep_clock s \<and> ep_raised s' = ep_raised s \<and> ep_interest s' = ep_interest s"
proof -
  obtain n where n: "ep_heap s (Timer k ev) = Some n" "ev \<notin> fst ` set (L k) \<longrightarrow> rb_key n = 0"
    using poller_okD(3) [OF assms(1), of ev k] assms(2) by auto
  show ?thesis
  proof (cases "ev \<in> fst ` set (L k)")
    case True
    let ?L = "L(k := del_timer ev (L k))"
    obtain p where p: "p \<in> set (L k)" "fst p = ev" using True by auto
    then have key: "rb_key n \<noteq> 0" using timers_facts(3) [OF poller_okD(1) [OF assms(1)] p(1)] n(1) by auto
    obtain s1 s2 where D: "node_op (Timer k ev) (\<lambda>n. n\<lparr>rb_key := 0\<rparr>) s = Done s1"
      "tree_op k (ngx_rbtree_delete (Some Sentinel) (Some (Timer k ev))) s1 = Done s2" "poller_ok ?L s2" "kept s s2"
      "ep_events s2 = ep_events s" "ep_clock s2 = ep_clock s" "ep_raised s2 = ep_raised s" "ep_interest s2 = ep_interest s"
      using delete_cleared_ok [OF assms(1) True] by blast
    have "2 + timer_refs ?L ev \<le> io_refs e" using poller_okD(5) [OF assms] True unfolding timer_refs_upd del_timer_fst by simp
    then obtain s' where R: "release_ref ev s2 = Done s'" "poller_ok ?L s'" "kept s2 s'"
      "ep_events s' = (ep_events s2)(ev \<mapsto> snd (ReleaseRef e))" "ep_clock s' = ep_clock s2" "ep_raised s' = ep_raised s2"
      "ep_interest s' = ep_interest s2" using release_ok [OF D(3)] D(5) assms(2) by metis
    have "DelTimeOut k ev s = Done s'" using n(1) key D(1,2) R(1) by (simp add: DelTimeOut_def)
    then show ?thesis using R D(4-8) True kept_trans by (intro exI [of _ s']) auto
  next
    case False
    then have "del_timer ev (L k) = L k" by (rule del_timer_id)
    then show ?thesis using False n assms(1) by (intro exI [of _ s]) (simp add: DelTimeOut_def)
  qed
qed

subsection \<open>Timers that are due\<close>

definition due :: "64 word \<Rightarrow> (nat \<times> 64 word) list \<Rightarrow> (nat \<times> 64 word) list" where
  "due now = takeWhile (\<lambda>p. snd p \<le> now)"

definition later :: "64 word \<Rightarrow> (nat \<times> 64 word) list \<Rightarrow> (nat \<times> 64 word) list" where
  "later now = dropWhile (\<lambda>p. snd p \<le> now)"

definition next_time :: "(nat \<times> 64 word) list \<Rightarrow> 64 word" where
  "next_time ts = (case ts of [] \<Rightarrow> 0 | p # _ \<Rightarrow> snd p)"

definition raised_by :: "timer_kind \<Rightarrow> (nat \<times> 64 word) list \<Rightarrow> (nat \<times> 32 word) list" where
  "raised_by k = map (\<lambda>p. (fst p, time_out_mask k))"

text \<open>In a sorted list these are the timers up to \<open>now\<close> and those after it.\<close>

lemma due_later:
  assumes "sorted (map snd ts)"
  shows "due now ts = filter (\<lambda>p. snd p \<le> now) ts" "later now ts = filter (\<lambda>p. now < snd p) ts"
proof -
  have "\<forall>q \<in> set ts. now < snd q" if "ts \<noteq> []" "now < snd (hd ts)" "sorted (map snd ts)" for ts :: "(nat \<times> 64 word) list"
    using that by (cases ts) (auto intro: less_le_trans)
  then have *: "due now ts = filter (\<lambda>p. snd p \<le> now) ts \<and> later now ts = filter (\<lambda>p. now < snd p) ts" if "sorted (map snd ts)" for ts
    using that
  proof (induction ts)
    case (Cons p ts)
    show ?case
    proof (cases "snd p \<le> now")
      case True
      then show ?thesis using Cons by (simp add: due_def later_def)
    next
      case False
      then have "\<forall>q \<in> set (p # ts). now < snd q" using Cons.prems Cons(2) by (intro Cons(2)) auto
      then show ?thesis using False by (auto simp: due_def later_def filter_empty_conv not_le)
    qed
  qed (simp add: due_def later_def)
  show "due now ts = filter (\<lambda>p. snd p \<le> now) ts" "later now ts = filter (\<lambda>p. now < snd p) ts" using *[OF assms] by auto
qed

lemma first_timer_ok:
  assumes "poller_ok L s"
  shows "first_timer k s = Some (Done (case L k of [] \<Rightarrow> (Some Sentinel, 0) | p # _ \<Rightarrow> (Some (Timer k (fst p)), snd p)))"
proof -
  obtain T where T: "rb_rep Sentinel (timer_root k s, ep_heap s) T" "entries T = map (timer_entry k) (L k)"
    using poller_okD(1) [OF assms] by (auto simp: timers_def)
  show ?thesis
  proof (cases "L k")
    case Nil
    then have "T = Lf" using T(2) by (cases T) auto
    then have "timer_root k s = Some Sentinel" using T(1) by (auto simp: rb_rep_def at_place_def)
    then show ?thesis using Nil poller_okD(2) [OF assms] by (auto simp: first_timer_def ngx_rbtree_min.simps)
  next
    case (Cons p ts)
    then have "T \<noteq> Lf" using T(2) by auto
    from min_correct [OF T(1) this] have "ngx_rbtree_min (timer_root k s) (Some Sentinel) (ep_heap s) = Some (Done (Some (Timer k (fst p))))"
      using T(2) Cons by auto
    moreover obtain n where "ep_heap s (Timer k (fst p)) = Some n" "rb_key n = snd p"
      using timers_facts(3) [OF poller_okD(1) [OF assms], of p k] Cons by auto
    ultimately show ?thesis using Cons by (simp add: first_timer_def)
  qed
qed

lemma fire_ok:
  assumes "poller_ok L s" "L k = p # ts"
  shows "\<exists>s'. fire_timer k (Some (Timer k (fst p))) s = Done s' \<and> poller_ok (L(k := ts)) s' \<and> kept s s'
    \<and> ep_clock s' = ep_clock s \<and> ep_raised s' = ep_raised s @ raised_by k [p]"
proof -
  note t = poller_okD(1) [OF assms(1)]
  obtain n where n: "ep_heap s (Timer k (fst p)) = Some n" "rb_data n = Some (fst p)"
    using timers_facts(3) [OF t, of p k] assms(2) by auto
  have "fst p \<in> dom (ep_events s)" using poller_okD(4) [OF assms(1), of k] assms(2) by auto
  from raise_ok [OF assms(1) this, of "time_out_mask k"] obtain s1 where
    R: "raise_event (fst p) (time_out_mask k) s = Done s1" "poller_ok L s1" "kept s s1" "ep_clock s1 = ep_clock s"
      "ep_raised s1 = ep_raised s @ [(fst p, time_out_mask k)]" by blast
  have "fst p \<in> fst ` set (L k)" using assms(2) by simp
  from delete_timer_ok [OF R(2) this] obtain s' where
    D: "tree_op k (ngx_rbtree_delete (Some Sentinel) (Some (Timer k (fst p)))) s1 = Done s'"
      "poller_ok (L(k := del_timer (fst p) (L k))) s'" "kept s1 s'" "ep_clock s' = ep_clock s1" "ep_raised s' = ep_raised s1" by blast
  have "distinct (map fst (p # ts))" using timers_facts(1) [OF t, of k] assms(2) by simp
  then have "del_timer (fst p) (L k) = ts" using assms(2) by (simp add: del_timer_id)
  then show ?thesis using R D n kept_trans by (intro exI [of _ s']) (auto simp: fire_timer_def raised_by_def)
qed

lemma fire_loop_ok:
  assumes "poller_ok L s"
  shows "\<exists>s'. fire_loop k now s = Some (Done (next_time (later now (L k)), s')) \<and> poller_ok (L(k := later now (L k))) s'
    \<and> kept s s' \<and> ep_clock s' = ep_clock s \<and> ep_raised s' = ep_raised s @ raised_by k (due now (L k))"
  using assms
proof (induction "L k" arbitrary: L s)
  case Nil
  then have "fire_loop k now s = Some (Done (0, s))" using first_timer_ok [OF Nil.prems, of k] by (simp add: fire_loop.simps)
  moreover have "L(k := []) = L" using Nil.hyps by auto
  ultimately show ?case using Nil by (simp add: later_def due_def next_time_def raised_by_def)
next
  case (Cons p ts)
  note F = first_timer_ok [OF Cons.prems, of k]
  have p0: "snd p \<noteq> 0" using timers_facts(3) [OF poller_okD(1) [OF Cons.prems], of p k] Cons.hyps(2) by (metis list.set_intros(1))
  show ?case
  proof (cases "snd p \<le> now")
    case False
    then have "fire_loop k now s = Some (Done (snd p, s))" using F Cons.hyps(2) [symmetric] by (simp add: fire_loop.simps)
    moreover have "later now (L k) = L k" "due now (L k) = []" using False Cons.hyps(2) [symmetric] by (simp_all add: later_def due_def)
    moreover have "L(k := L k) = L" by simp
    ultimately show ?thesis using Cons.prems Cons.hyps(2) [symmetric] by (simp add: next_time_def raised_by_def)
  next
    case True
    obtain s1 where s1: "fire_timer k (Some (Timer k (fst p))) s = Done s1" "poller_ok (L(k := ts)) s1" "kept s s1"
      "ep_clock s1 = ep_clock s" "ep_raised s1 = ep_raised s @ raised_by k [p]" using fire_ok [OF Cons.prems Cons.hyps(2) [symmetric]] by blast
    have "0 < snd p" using p0 by (simp add: word_neq_0_conv)
    then have step: "fire_loop k now s = fire_loop k now s1"
      by (subst fire_loop.simps) (use F Cons.hyps(2) [symmetric] s1(1) True in simp)
    from Cons.hyps(1) [of "L(k := ts)" s1] s1(2) obtain s' where
      "fire_loop k now s1 = Some (Done (next_time (later now ts), s'))" "poller_ok (L(k := later now ts)) s'" "kept s1 s'"
      "ep_clock s' = ep_clock s1" "ep_raised s' = ep_raised s1 @ raised_by k (due now ts)" by auto
    moreover have "later now (L k) = later now ts" "due now (L k) = p # due now ts"
      using True Cons.hyps(2) [symmetric] by (simp_all add: later_def due_def)
    ultimately show ?thesis using s1 step kept_trans by (intro exI [of _ s']) (auto simp: raised_by_def)
  qed
qed

text \<open>The time to wait.\<close>

lemma sint_difference:
  assumes "now \<le> x" "unat x - unat now < 2 ^ 31"
  shows "sint (ucast (x - now :: 64 word) :: 32 word) = int (unat x - unat now)"
proof -
  have le: "unat now \<le> unat x" using assms(1) by (simp add: word_le_nat_alt)
  have "unat (x - now) = unat x - unat now" using assms(1) by (rule unat_sub)
  then have "unat (ucast (x - now) :: 32 word) = unat x - unat now" using assms(2) by (simp add: unsigned_ucast_eq take_bit_nat_eq_self)
  then have "uint (ucast (x - now) :: 32 word) = int (unat x - unat now)" by (metis uint_nat)
  then show ?thesis using assms(2) by (simp add: sint_uint signed_take_bit_int_eq_self)
qed

definition next_times :: "64 word \<Rightarrow> (timer_kind \<Rightarrow> (nat \<times> 64 word) list) \<Rightarrow> nat set" where
  "next_times now L = (\<lambda>p. unat (snd p)) ` (set (later now (L Writing)) \<union> set (later now (L Reading)))"

definition poll_wait :: "64 word \<Rightarrow> (timer_kind \<Rightarrow> (nat \<times> 64 word) list) \<Rightarrow> int" where
  "poll_wait now L = (if next_times now L = {} then - 1 else 1000 * int (Min (next_times now L) - unat now))"

lemma Min_next:
  assumes "sorted (map snd ts)" "ts = p # ps"
  shows "Min ((\<lambda>p. unat (snd p)) ` set ts) = unat (snd p)"
  using assms by (intro Min_eqI) (auto simp: word_le_nat_alt)

lemma wait_time_ok:
  fixes now :: "64 word"
  assumes "sorted (map snd w)" "sorted (map snd r)" "\<forall>p \<in> set w \<union> set r. now < snd p \<and> unat (snd p) - unat now \<le> 2147483" "0 < now"
  defines "m \<equiv> wait_time now (next_time w) (next_time r)"
  shows "(if m = - 1 then - 1 else m * 1000) = (if w = [] \<and> r = [] then - 1
      else 1000 * int (Min ((\<lambda>p. unat (snd p)) ` (set w \<union> set r)) - unat now))"
    and "- 1 \<le> m" "m \<le> 2147483"
proof -
  have z: "\<not> now \<le> 0" using assms(4) by simp
  have d: "sint (ucast (snd p - now) :: 32 word) = int (unat (snd p) - unat now)" "now \<le> snd p" "unat now < unat (snd p)"
    "unat (snd p) - unat now \<le> 2147483" if "p \<in> set w \<union> set r" for p
  proof -
    have b: "now < snd p" "unat (snd p) - unat now \<le> 2147483" using that assms(3) by auto
    then show "now \<le> snd p" "unat now < unat (snd p)" "unat (snd p) - unat now \<le> 2147483" by (simp_all add: word_less_nat_alt less_imp_le)
    then show "sint (ucast (snd p - now) :: 32 word) = int (unat (snd p) - unat now)" by (intro sint_difference) simp_all
  qed
  have e: "\<exists>A. sint (ucast (snd p - now) :: 32 word) = A \<and> int (unat (snd p) - unat now) = A \<and> 1 \<le> A \<and> A \<le> 2147483 \<and> now \<le> snd p"
    if "p \<in> set w \<union> set r" for p using d [OF that] by (intro exI [of _ "int (unat (snd p) - unat now)"]) linarith
  have "(if m = - 1 then - 1 else m * 1000) = (if w = [] \<and> r = [] then - 1
      else 1000 * int (Min ((\<lambda>p. unat (snd p)) ` (set w \<union> set r)) - unat now)) \<and> - 1 \<le> m \<and> m \<le> 2147483"
  proof (cases w)
    case wn: Nil
    show ?thesis
    proof (cases r)
      case Nil
      then show ?thesis using wn z by (simp add: m_def wait_time_def next_time_def)
    next
      case (Cons q qs)
      obtain A where A: "sint (ucast (snd q - now) :: 32 word) = A" "int (unat (snd q) - unat now) = A" "1 \<le> A" "A \<le> 2147483" "now \<le> snd q"
        using e [of q] Cons by auto
      have "m = A" using A(1,3,5) z wn Cons by (simp add: m_def wait_time_def next_time_def)
      then show ?thesis using A(2-4) wn Cons Min_next [OF assms(2) Cons] by simp
    qed
  next
    case wc: (Cons p ps)
    obtain A where A: "sint (ucast (snd p - now) :: 32 word) = A" "int (unat (snd p) - unat now) = A" "1 \<le> A" "A \<le> 2147483" "now \<le> snd p"
      using e [of p] wc by auto
    show ?thesis
    proof (cases r)
      case Nil
      have "m = A" using A(1,3,5) z wc Nil by (simp add: m_def wait_time_def next_time_def)
      then show ?thesis using A(2-4) wc Nil Min_next [OF assms(1) wc] by simp
    next
      case (Cons q qs)
      obtain B where B: "sint (ucast (snd q - now) :: 32 word) = B" "int (unat (snd q) - unat now) = B" "1 \<le> B" "B \<le> 2147483" "now \<le> snd q"
        using e [of q] Cons by auto
      have "m = min A B" using A(1,3,5) B(1,3,5) wc Cons by (simp add: m_def wait_time_def next_time_def min_def)
      moreover have "Min ((\<lambda>p. unat (snd p)) ` (set w \<union> set r)) = min (unat (snd p)) (unat (snd q))"
        unfolding image_Un using Min_next [OF assms(1) wc] Min_next [OF assms(2) Cons] wc Cons by (subst Min_Un) auto
      moreover have "int (min (unat (snd p)) (unat (snd q)) - unat now) = min A B" using A(2) B(2) by linarith
      ultimately show ?thesis using A(3,4) B(3,4) wc by auto
    qed
  qed
  then show "(if m = - 1 then - 1 else m * 1000) = (if w = [] \<and> r = [] then - 1
      else 1000 * int (Min ((\<lambda>p. unat (snd p)) ` (set w \<union> set r)) - unat now))" "- 1 \<le> m" "m \<le> 2147483" by blast+
qed

lemma time_now_ok: "poller_ok L s \<Longrightarrow> time_now s = (now, t) \<Longrightarrow> now = ep_clock s 0 \<and> poller_ok L t \<and> kept s t
    \<and> ep_clock t = (\<lambda>i. ep_clock s (Suc i)) \<and> ep_raised t = ep_raised s"
  using poller_ok_events [of L s t] poller_okD(5) [of L s] by (auto simp: time_now_def kept_def)

lemma poller_sorted: "poller_ok L s \<Longrightarrow> sorted (map snd (L k))"
  using poller_okD(1) [of L s k] by (simp add: timers_def)

lemma ProcessTimeOut_ok:
  assumes "poller_ok L s" "0 < ep_clock s 0" "\<forall>k. \<forall>p \<in> set (L k). unat (snd p) - unat (ep_clock s 0) \<le> 2147483"
  shows "\<exists>s'. ProcessTimeOut s = Done (poll_wait (ep_clock s 0) L, s') \<and> poller_ok (\<lambda>k. later (ep_clock s 0) (L k)) s' \<and> kept s s'
    \<and> ep_clock s' = (\<lambda>i. ep_clock s (Suc i))
    \<and> ep_raised s' = ep_raised s @ raised_by Writing (due (ep_clock s 0) (L Writing)) @ raised_by Reading (due (ep_clock s 0) (L Reading))"
proof -
  let ?now = "ep_clock s 0"
  obtain t where t: "time_now s = (?now, t)" by (simp add: time_now_def)
  note T = time_now_ok [OF assms(1) t]
  from fire_loop_ok [of L t Writing ?now] T obtain s1 where
    W: "fire_loop Writing ?now t = Some (Done (next_time (later ?now (L Writing)), s1))"
      "poller_ok (L(Writing := later ?now (L Writing))) s1" "kept t s1" "ep_clock s1 = ep_clock t"
      "ep_raised s1 = ep_raised t @ raised_by Writing (due ?now (L Writing))" by blast
  from fire_loop_ok [OF W(2), of Reading ?now] obtain s2 where
    R: "fire_loop Reading ?now s1 = Some (Done (next_time (later ?now (L Reading)), s2))"
      "poller_ok (L(Writing := later ?now (L Writing), Reading := later ?now (L Reading))) s2" "kept s1 s2" "ep_clock s2 = ep_clock s1"
      "ep_raised s2 = ep_raised s1 @ raised_by Reading (due ?now (L Reading))" by auto
  have "L(Writing := later ?now (L Writing), Reading := later ?now (L Reading)) = (\<lambda>k. later ?now (L k))"
    by (rule ext, rename_tac k, case_tac k) simp_all
  moreover define w where "w = wait_time ?now (next_time (later ?now (L Writing))) (next_time (later ?now (L Reading)))"
  have *: "later ?now (L k) = filter (\<lambda>p. ?now < snd p) (L k)" for k using due_later(2) [OF poller_sorted [OF assms(1)]] .
  have srt: "sorted (map snd (later ?now (L k)))" for k unfolding * using poller_sorted [OF assms(1)] by (simp add: sorted_filter)
  have "\<forall>p \<in> set (later ?now (L Writing)) \<union> set (later ?now (L Reading)). ?now < snd p \<and> unat (snd p) - unat ?now \<le> 2147483"
    unfolding * using assms(3) by auto
  note m = wait_time_ok [OF srt srt this assms(2), folded w_def]
  have "(if w = - 1 then - 1 else w * 1000) = poll_wait ?now L"
    unfolding m(1) poll_wait_def next_times_def by simp
  moreover have "w \<noteq> - 1 \<Longrightarrow> - (2 ^ 31) \<le> w * 1000 \<and> w * 1000 < 2 ^ 31" using m(2,3) by simp
  ultimately have "ProcessTimeOut s = Done (poll_wait ?now L, s2)"
    using t W(1) R(1) by (auto simp: ProcessTimeOut_def returned_def Let_def w_def split: if_splits)
  moreover have "kept s s2" using T W(3) R(3) kept_trans by blast
  ultimately show ?thesis using R(2,4,5) W(4,5) T \<open>L(Writing := later ?now (L Writing), Reading := later ?now (L Reading)) = _\<close>
    by (intro exI [of _ s2]) simp
qed

subsection \<open>The tasks and the events of a turn\<close>

fun task_timers :: "nat \<times> poll_task \<Rightarrow> (timer_kind \<Rightarrow> (nat \<times> 64 word) list) \<times> (nat \<Rightarrow> 64 word) \<Rightarrow>
    (timer_kind \<Rightarrow> (nat \<times> 64 word) list) \<times> (nat \<Rightarrow> 64 word)" where
  "task_timers (ev, Set_read_timeout n) (L, c) =
     (L(Reading := add_timer ev (c 0 + ucast (of_nat n :: 32 word)) (del_timer ev (L Reading))), \<lambda>i. c (Suc i))"
| "task_timers (ev, Set_write_timeout n) (L, c) =
     (L(Writing := add_timer ev (c 0 + ucast (of_nat n :: 32 word)) (del_timer ev (L Writing))), \<lambda>i. c (Suc i))"
| "task_timers (ev, Del_read_timeout) (L, c) = (L(Reading := del_timer ev (L Reading)), c)"
| "task_timers (ev, Del_write_timeout) (L, c) = (L(Writing := del_timer ev (L Writing)), c)"
| "task_timers (ev, Del_event) (L, c) = (\<lambda>k. del_timer ev (L k), c)"
| "task_timers (ev, Add_event r w) (L, c) = (L, c)"
| "task_timers (ev, Mod_event r w) (L, c) = (L, c)"

text \<open>Every task is about an event that no task before it has taken off.\<close>

fun live_tasks :: "nat set \<Rightarrow> (nat \<times> poll_task) list \<Rightarrow> bool" where
  "live_tasks D [] = True"
| "live_tasks D ((ev, t) # ts) \<longleftrightarrow> ev \<in> D \<and> live_tasks (if t = Del_event then D - {ev} else D) ts"

lemma live_tasks_mono: "live_tasks D ts \<Longrightarrow> D \<subseteq> D' \<Longrightarrow> live_tasks D' ts"
proof (induction D ts arbitrary: D' rule: live_tasks.induct)
  case (2 D ev t ts)
  have "(if t = Del_event then D - {ev} else D) \<subseteq> (if t = Del_event then D' - {ev} else D')" using 2(3) by auto
  with 2 show ?case by auto
qed simp

definition times_ok :: "(nat \<Rightarrow> 64 word) \<Rightarrow> bool" where
  "times_ok c \<longleftrightarrow> (\<forall>i. 0 < c i \<and> c i < 2 ^ 63)"

lemma time_plus: "times_ok c \<Longrightarrow> c 0 + ucast (n :: 32 word) \<noteq> 0"
proof
  assume "times_ok c" "c 0 + ucast n = 0"
  then have c: "0 < unat (c 0)" "unat (c 0) < 2 ^ 63" by (auto simp: times_ok_def word_less_nat_alt)
  have "unat n < 2 ^ 32" using unsigned_less [of n] by simp
  then have n: "unat (ucast n :: 64 word) < 2 ^ 32" by (simp add: unsigned_ucast_eq take_bit_nat_eq_self)
  have "unat (c 0 + ucast n) = unat (c 0) + unat (ucast n :: 64 word)" using c n by (subst unat_add_lem [THEN iffD1]) simp_all
  then show False using c(1) \<open>c 0 + ucast n = 0\<close> by simp
qed

lemma event_changed_ok:
  assumes "poller_ok L s" "ep_events s ev = Some e" "io_refs e' = io_refs e" "ep_heap s' = ep_heap s"
    and "\<And>k. timer_root k s' = timer_root k s" "ep_events s' = (ep_events s)(ev \<mapsto> e')"
  shows "poller_ok L s'"
proof (rule poller_ok_events [OF assms(1,4,5)])
  show "1 + timer_refs L v \<le> io_refs d" if "ep_events s' v = Some d" for v d
    using that poller_okD(5) [OF assms(1), of v] assms(2,3,6) by (auto split: if_splits)
qed (use assms in auto)

lemma SetEvent_refs: "SetEvent r w t e = (b, e') \<Longrightarrow> io_refs e' = io_refs e \<and> io_fd e' = io_fd e"
  by (auto simp: SetEvent_def Let_def)

lemma AddEvent_ok:
  assumes "poller_ok L s" "ev \<in> dom (ep_events s)"
  shows "\<exists>s'. AddEvent ev r w s = Done s' \<and> poller_ok L s' \<and> kept s s' \<and> ep_clock s' = ep_clock s \<and> ep_raised s' = ep_raised s"
proof -
  obtain e b e' where e: "ep_events s ev = Some e" "SetEvent r w EPOLLET e = (b, e')" using assms(2) by (metis domD surj_pair)
  note r = SetEvent_refs [OF e(2)]
  let ?s = "s\<lparr>ep_events := (ep_events s)(ev \<mapsto> e'), ep_interest := epoll_add (io_fd e') (io_ev e', ev) (ep_interest s)\<rparr>"
  have "poller_ok L ?s" by (rule event_changed_ok [OF assms(1) e(1) conjunct1 [OF r]]) simp_all
  then show ?thesis using e r by (intro exI [of _ ?s]) (simp add: AddEvent_def kept_def)
qed

lemma ModEvent_ok:
  assumes "poller_ok L s" "ev \<in> dom (ep_events s)"
  shows "\<exists>s'. ModEvent ev r w s = Done s' \<and> poller_ok L s' \<and> kept s s' \<and> ep_clock s' = ep_clock s \<and> ep_raised s' = ep_raised s"
proof -
  obtain e b e' where e: "ep_events s ev = Some e" "SetEvent r w EPOLLET e = (b, e')" using assms(2) by (metis domD surj_pair)
  note r = SetEvent_refs [OF e(2)]
  let ?s = "s\<lparr>ep_events := (ep_events s)(ev \<mapsto> e'),
    ep_interest := (if b then epoll_mod (io_fd e') (io_ev e', ev) (ep_interest s) else ep_interest s)\<rparr>"
  have "poller_ok L ?s" by (rule event_changed_ok [OF assms(1) e(1) conjunct1 [OF r]]) simp_all
  then show ?thesis using e r by (intro exI [of _ ?s]) (simp add: ModEvent_def kept_def Let_def)
qed

text \<open>The last release of an event whose timers are out of the trees.\<close>

lemma release_last:
  assumes "poller_ok L s" "ep_events s ev = Some e" "\<And>k. ev \<notin> fst ` set (L k)"
  shows "\<exists>s'. release_ref ev s = Done s' \<and> poller_ok L s' \<and> dom (ep_events s) - {ev} \<subseteq> dom (ep_events s')
    \<and> ep_clock s' = ep_clock s \<and> ep_raised s' = ep_raised s \<and> ep_tasks s' = ep_tasks s"
proof (cases "io_refs e - 1 = 0")
  case True
  let ?s = "s\<lparr>ep_events := (ep_events s)(ev := None), ep_heap := (ep_heap s)(Timer Reading ev := None, Timer Writing ev := None)\<rparr>"
  have h: "ep_heap ?s (Timer k v) = ep_heap s (Timer k v)" if "v \<noteq> ev" for k v using that by (cases k) simp_all
  have "timers k ?s (L k)" for k
    by (rule timers_frame [OF poller_okD(1) [OF assms(1)]])
      (use h assms(3) timers_facts(2) [OF poller_okD(1) [OF assms(1)]] in \<open>force+\<close>)
  moreover have "\<exists>n. ep_heap ?s Sentinel = Some n \<and> rb_key n = 0 \<and> rb_left n = Some Sentinel" using poller_okD(2) [OF assms(1)] by simp
  moreover have "v \<in> dom (ep_events ?s) \<longrightarrow> (\<exists>n. ep_heap ?s (Timer k v) = Some n \<and> (v \<notin> fst ` set (L k) \<longrightarrow> rb_key n = 0))" for v k
    using poller_okD(3) [OF assms(1), of v k] h [of v k] by auto
  moreover have "fst ` set (L k) \<subseteq> dom (ep_events ?s)" for k using poller_okD(4) [OF assms(1), of k] assms(3) [of k] by auto
  moreover have "ep_events ?s v = Some d \<longrightarrow> 1 + timer_refs L v \<le> io_refs d" for v d using poller_okD(5) [OF assms(1), of v d] by simp
  ultimately have "poller_ok L ?s" unfolding poller_ok_def by blast
  moreover have "release_ref ev s = Done ?s" using assms(2) True by (simp add: release_ref_def ReleaseRef_def)
  ultimately show ?thesis by (intro exI [of _ ?s]) auto
next
  case False
  have "1 + timer_refs L ev \<le> io_refs e" by (rule poller_okD(5) [OF assms(1,2)])
  moreover have "timer_refs L ev = 0" using assms(3) by (simp add: timer_refs_def)
  ultimately have "2 + timer_refs L ev \<le> io_refs e" using False by simp
  from release_ok [OF assms(1,2) this] show ?thesis by (auto simp: kept_def)
qed

lemma DelEvent_ok:
  assumes "poller_ok L s" "ev \<in> dom (ep_events s)"
  shows "\<exists>s'. DelEvent ev s = Done s' \<and> poller_ok (\<lambda>k. del_timer ev (L k)) s' \<and> dom (ep_events s) - {ev} \<subseteq> dom (ep_events s')
    \<and> ep_clock s' = ep_clock s \<and> ep_raised s' = ep_raised s"
proof -
  obtain e where e: "ep_events s ev = Some e" using assms(2) by auto
  from DelTimeOut_ok [OF assms(1) e, of Reading] obtain s1 where R: "DelTimeOut Reading ev s = Done s1"
    "poller_ok (L(Reading := del_timer ev (L Reading))) s1" "kept s s1" "ep_clock s1 = ep_clock s" "ep_raised s1 = ep_raised s" by blast
  have "ev \<in> dom (ep_events s1)" using kept_dom [OF R(3)] assms(2) by simp
  then obtain e1 where e1: "ep_events s1 ev = Some e1" by auto
  from DelTimeOut_ok [OF R(2) e1, of Writing] obtain s2 where W: "DelTimeOut Writing ev s1 = Done s2"
    "poller_ok (L(Reading := del_timer ev (L Reading), Writing := del_timer ev (L Writing))) s2" "kept s1 s2"
    "ep_clock s2 = ep_clock s1" "ep_raised s2 = ep_raised s1" by auto
  have L: "L(Reading := del_timer ev (L Reading), Writing := del_timer ev (L Writing)) = (\<lambda>k. del_timer ev (L k))"
    by (rule ext, rename_tac k, case_tac k) simp_all
  have dom: "dom (ep_events s2) = dom (ep_events s)" using kept_dom [OF R(3)] kept_dom [OF W(3)] by simp
  then obtain e2 where e2: "ep_events s2 ev = Some e2" using assms(2) by auto
  let ?s = "s2\<lparr>ep_interest := (ep_interest s2)(io_fd e2 := None)\<rparr>"
  have "poller_ok (\<lambda>k. del_timer ev (L k)) ?s" using poller_ok_events [OF W(2), of ?s] poller_okD(5) [OF W(2)] L by simp
  from release_last [OF this, of ev e2] e2 obtain s' where "release_ref ev ?s = Done s'" "poller_ok (\<lambda>k. del_timer ev (L k)) s'"
    "dom (ep_events ?s) - {ev} \<subseteq> dom (ep_events s')" "ep_clock s' = ep_clock ?s" "ep_raised s' = ep_raised ?s" by auto
  then show ?thesis using R W e2 dom by (intro exI [of _ s']) (simp add: DelEvent_def)
qed

lemma run_task_ok:
  assumes "poller_ok L s" "ev \<in> dom (ep_events s)" "times_ok (ep_clock s)"
  shows "\<exists>s'. run_task (ev, t) s = Done s' \<and> poller_ok (fst (task_timers (ev, t) (L, ep_clock s))) s'
    \<and> ep_clock s' = snd (task_timers (ev, t) (L, ep_clock s)) \<and> ep_raised s' = ep_raised s
    \<and> (if t = Del_event then dom (ep_events s) - {ev} else dom (ep_events s)) \<subseteq> dom (ep_events s')"
proof -
  obtain e where e: "ep_events s ev = Some e" using assms(2) by auto
  note D = DelTimeOut_ok [OF assms(1) e]
  have S: "\<exists>s'. SetTimeOut k ev n s = Done s' \<and> poller_ok (L(k := add_timer ev (ep_clock s 0 + ucast n) (del_timer ev (L k)))) s'
      \<and> kept s s' \<and> ep_clock s' = (\<lambda>i. ep_clock s (Suc i)) \<and> ep_raised s' = ep_raised s" for k n
    using SetTimeOut_ok [OF assms(1) e time_plus [OF assms(3)], of k n] by blast
  show ?thesis
  proof (cases t)
    case (Add_event r w)
    then show ?thesis using AddEvent_ok [OF assms(1,2), of r w] kept_dom by fastforce
  next
    case (Mod_event r w)
    then show ?thesis using ModEvent_ok [OF assms(1,2), of r w] kept_dom by fastforce
  next
    case Del_event
    then show ?thesis using DelEvent_ok [OF assms(1,2)] by fastforce
  next
    case (Set_read_timeout n)
    then show ?thesis using S [of Reading "of_nat n"] kept_dom by fastforce
  next
    case (Set_write_timeout n)
    then show ?thesis using S [of Writing "of_nat n"] kept_dom by fastforce
  next
    case Del_read_timeout
    then show ?thesis using D [of Reading] kept_dom by fastforce
  next
    case Del_write_timeout
    then show ?thesis using D [of Writing] kept_dom by fastforce
  qed
qed

lemma run_tasks_ok:
  assumes "poller_ok L s" "live_tasks D ts" "D \<subseteq> dom (ep_events s)" "times_ok (ep_clock s)"
  shows "\<exists>s'. run_tasks ts s = Done s' \<and> poller_ok (fst (fold task_timers ts (L, ep_clock s))) s'
    \<and> ep_clock s' = snd (fold task_timers ts (L, ep_clock s)) \<and> ep_raised s' = ep_raised s"
  using assms
proof (induction ts arbitrary: L s D)
  case (Cons p ts)
  obtain ev t where p: "p = (ev, t)" by (cases p)
  have ev: "ev \<in> dom (ep_events s)" using Cons.prems(2,3) p by auto
  from run_task_ok [OF Cons.prems(1) ev Cons.prems(4), of t] obtain s1 where
    R: "run_task (ev, t) s = Done s1" "poller_ok (fst (task_timers (ev, t) (L, ep_clock s))) s1"
      "ep_clock s1 = snd (task_timers (ev, t) (L, ep_clock s))" "ep_raised s1 = ep_raised s"
      "(if t = Del_event then dom (ep_events s) - {ev} else dom (ep_events s)) \<subseteq> dom (ep_events s1)" by blast
  have "times_ok (ep_clock s1)" using Cons.prems(4) R(3) by (cases t) (simp_all add: times_ok_def)
  moreover have "live_tasks (if t = Del_event then D - {ev} else D) ts" using Cons.prems(2) p by simp
  moreover have "(if t = Del_event then D - {ev} else D) \<subseteq> dom (ep_events s1)" using Cons.prems(3) R(5) by (auto split: if_splits)
  ultimately obtain s' where "run_tasks ts s1 = Done s'"
    "poller_ok (fst (fold task_timers ts (fst (task_timers (ev, t) (L, ep_clock s)), ep_clock s1))) s'"
    "ep_clock s' = snd (fold task_timers ts (fst (task_timers (ev, t) (L, ep_clock s)), ep_clock s1))" "ep_raised s' = ep_raised s1"
    using Cons.IH [OF R(2)] by blast
  then show ?case using R(1,3,4) p by (intro exI [of _ s']) simp
qed simp

text \<open>What \<open>dispatch\<close> raises: every reported event but the notification of the poller itself.\<close>

definition event_fd :: "epoller \<Rightarrow> nat \<Rightarrow> 32 word option" where
  "event_fd s ev = map_option io_fd (ep_events s ev)"

definition dispatched :: "epoller \<Rightarrow> (nat \<times> 32 word) list \<Rightarrow> (nat \<times> 32 word) list" where
  "dispatched s es = map (\<lambda>p. (fst p, EventToMask (snd p))) (filter (\<lambda>p. event_fd s (fst p) \<noteq> event_fd s (ep_notify s)) es)"

lemma kept_dispatched: "kept s s' \<Longrightarrow> dispatched s' es = dispatched s es"
  by (simp add: dispatched_def event_fd_def kept_def)

lemma dispatch_ok:
  assumes "poller_ok L s" "fst ` set es \<subseteq> dom (ep_events s)" "ep_notify s \<in> dom (ep_events s)"
  shows "\<exists>s'. dispatch es s = Done s' \<and> poller_ok L s' \<and> kept s s' \<and> ep_clock s' = ep_clock s
    \<and> ep_raised s' = ep_raised s @ dispatched s es"
  using assms
proof (induction es arbitrary: s)
  case (Cons p es)
  obtain ev r where p: "p = (ev, r)" by (cases p)
  obtain e n where e: "ep_events s ev = Some e" "ep_events s (ep_notify s) = Some n" using Cons.prems(2,3) p by auto
  show ?case
  proof (cases "io_fd e = io_fd n")
    case True
    then have "dispatched s (p # es) = dispatched s es" using e p by (simp add: dispatched_def event_fd_def)
    then show ?thesis using Cons.IH [of s] Cons.prems True e p by simp
  next
    case False
    from raise_ok [OF Cons.prems(1), of ev "EventToMask r"] e obtain s1 where
      R: "raise_event ev (EventToMask r) s = Done s1" "poller_ok L s1" "kept s s1" "ep_clock s1 = ep_clock s"
        "ep_raised s1 = ep_raised s @ [(ev, EventToMask r)]" by blast
    have "fst ` set es \<subseteq> dom (ep_events s1)" "ep_notify s1 \<in> dom (ep_events s1)"
      using kept_dom [OF R(3)] R(3) Cons.prems(2,3) by (simp_all add: kept_def)
    from Cons.IH [OF R(2) this] obtain s' where "dispatch es s1 = Done s'" "poller_ok L s'" "kept s1 s'" "ep_clock s' = ep_clock s1"
      "ep_raised s' = ep_raised s1 @ dispatched s1 es" by blast
    moreover have "dispatched s (p # es) = (ev, EventToMask r) # dispatched s1 es"
      using False e p kept_dispatched [OF R(3)] by (simp add: dispatched_def event_fd_def)
    ultimately show ?thesis using R e p False kept_trans by (intro exI [of _ s']) auto
  qed
qed (simp add: dispatched_def)

text \<open>One turn of the loop of \<open>Poll\<close> and what it makes of the timers.\<close>

definition turn_timers :: "(nat \<times> poll_task) list \<Rightarrow> (timer_kind \<Rightarrow> (nat \<times> 64 word) list) \<Rightarrow> (nat \<Rightarrow> 64 word) \<Rightarrow>
    timer_kind \<Rightarrow> (nat \<times> 64 word) list" where
  "turn_timers ts L c = fst (fold task_timers ts (\<lambda>k. later (c 0) (L k), \<lambda>i. c (Suc i)))"

lemma Poll_turn_ok:
  assumes "poller_ok L s" "times_ok (ep_clock s)" "\<forall>k. \<forall>p \<in> set (L k). unat (snd p) - unat (ep_clock s 0) \<le> 2147483"
    and "fst ` set es \<subseteq> dom (ep_events s)" "ep_notify s \<in> dom (ep_events s)" "live_tasks (dom (ep_events s)) (ep_tasks s)"
  shows "\<exists>s'. Poll_turn es s = Done s'
    \<and> poller_ok (turn_timers (if es = [] then [] else ep_tasks s) L (ep_clock s)) s'
    \<and> ep_raised s' = ep_raised s @ raised_by Writing (due (ep_clock s 0) (L Writing)) @ raised_by Reading (due (ep_clock s 0) (L Reading))
        @ dispatched s es"
proof -
  have "0 < ep_clock s 0" using assms(2) by (simp add: times_ok_def)
  from ProcessTimeOut_ok [OF assms(1) this assms(3)] obtain s1 where
    P: "ProcessTimeOut s = Done (poll_wait (ep_clock s 0) L, s1)" "poller_ok (\<lambda>k. later (ep_clock s 0) (L k)) s1" "kept s s1"
      "ep_clock s1 = (\<lambda>i. ep_clock s (Suc i))"
      "ep_raised s1 = ep_raised s @ raised_by Writing (due (ep_clock s 0) (L Writing)) @ raised_by Reading (due (ep_clock s 0) (L Reading))"
    by blast
  show ?thesis
  proof (cases "es = []")
    case True
    then show ?thesis using P by (intro exI [of _ s1]) (simp add: Poll_turn_def turn_timers_def dispatched_def)
  next
    case False
    have "fst ` set es \<subseteq> dom (ep_events s1)" "ep_notify s1 \<in> dom (ep_events s1)"
      using kept_dom [OF P(3)] P(3) assms(4,5) by (simp_all add: kept_def)
    from dispatch_ok [OF P(2) this] obtain s2 where
      D: "dispatch es s1 = Done s2" "poller_ok (\<lambda>k. later (ep_clock s 0) (L k)) s2" "kept s1 s2" "ep_clock s2 = ep_clock s1"
        "ep_raised s2 = ep_raised s1 @ dispatched s1 es" by blast
    have K: "kept s s2" using P(3) D(3) kept_trans by blast
    then have ts: "ep_tasks s2 = ep_tasks s" by (simp add: kept_def)
    let ?s = "s2\<lparr>ep_tasks := []\<rparr>"
    have "poller_ok (\<lambda>k. later (ep_clock s 0) (L k)) ?s" using poller_ok_events [OF D(2), of ?s] poller_okD(5) [OF D(2)] by simp
    moreover have "times_ok (ep_clock ?s)" using assms(2) D(4) P(4) by (simp add: times_ok_def)
    moreover have "live_tasks (dom (ep_events ?s)) (ep_tasks s)" using kept_dom [OF K] assms(6) by simp
    ultimately obtain s' where R: "run_tasks (ep_tasks s) ?s = Done s'"
      "poller_ok (fst (fold task_timers (ep_tasks s) (\<lambda>k. later (ep_clock s 0) (L k), ep_clock ?s))) s'" "ep_raised s' = ep_raised ?s"
      using run_tasks_ok [of _ ?s "dom (ep_events ?s)" "ep_tasks s"] by blast
    show ?thesis
    proof (cases "ep_tasks s = []")
      case True
      then show ?thesis using P(1,5) D False ts kept_dispatched [OF P(3)]
        by (intro exI [of _ s2]) (simp add: Poll_turn_def ProcessPendingTask_def turn_timers_def)
    next
      case t: False
      then show ?thesis using P(1,4,5) D(1,4,5) False ts R kept_dispatched [OF P(3)]
        by (intro exI [of _ s']) (simp add: Poll_turn_def ProcessPendingTask_def turn_timers_def)
    qed
  qed
qed

text \<open>The masks that are handed on never touch the bits of \<open>OnEventAsync\<close>.\<close>

lemma mask_ok_or: "mask_ok v \<Longrightarrow> mask_ok w \<Longrightarrow> mask_ok (v OR w)"
  by (simp add: mask_ok_iff bit_or_iff)

lemma EventToMask_ok: "mask_ok (EventToMask e)"
proof -
  have "mask_ok 0" by (simp add: mask_ok_def)
  moreover have "mask_ok EVENT_READ" "mask_ok EVENT_WRITE" "mask_ok EVENT_CLOSE" "mask_ok WRITE_TIME_OUT" "mask_ok READ_TIME_OUT"
    "mask_ok EVENT_ERR" by (rule event_masks_ok, simp)+
  ultimately show ?thesis unfolding EventToMask_def Let_def by (simp add: mask_ok_or)
qed

text \<open>A new poller is well-formed; an event can be created at any time.\<close>

lemma create_event_ok:
  assumes "poller_ok L s" "ev \<notin> dom (ep_events s)" "1 \<le> io_refs e"
  shows "poller_ok L (create_event ev e s)"
proof -
  have L: "ev \<notin> fst ` set (L k)" for k using poller_okD(4) [OF assms(1), of k] assms(2) by auto
  have h: "ep_heap (create_event ev e s) (Timer k v) = (if v = ev then Some new_timer_node else ep_heap s (Timer k v))"
    "ep_heap (create_event ev e s) Sentinel = ep_heap s Sentinel" for k v by (cases k; simp add: create_event_def)+
  have r: "timer_root k (create_event ev e s) = timer_root k s" for k by (cases k) (simp_all add: create_event_def)
  have "timers k (create_event ev e s) (L k)" for k
    by (rule timers_frame [OF poller_okD(1) [OF assms(1)] r])
      (use h L timers_facts(2) [OF poller_okD(1) [OF assms(1)]] in \<open>force+\<close>)
  moreover have "\<exists>n. ep_heap (create_event ev e s) Sentinel = Some n \<and> rb_key n = 0 \<and> rb_left n = Some Sentinel"
    unfolding h(2) by (rule poller_okD(2) [OF assms(1)])
  moreover have "v \<in> dom (ep_events (create_event ev e s)) \<longrightarrow>
      (\<exists>n. ep_heap (create_event ev e s) (Timer k v) = Some n \<and> (v \<notin> fst ` set (L k) \<longrightarrow> rb_key n = 0))" for v k
    unfolding h(1) using poller_okD(3) [OF assms(1), of v k]
    by (cases "v = ev") (simp_all add: create_event_def new_timer_node_def)
  moreover have "fst ` set (L k) \<subseteq> dom (ep_events (create_event ev e s))" for k
    using poller_okD(4) [OF assms(1), of k] by (auto simp: create_event_def)
  moreover have "ep_events (create_event ev e s) v = Some d \<longrightarrow> 1 + timer_refs L v \<le> io_refs d" for v d
    using poller_okD(5) [OF assms(1), of v d] assms(3) L by (auto simp: create_event_def timer_refs_def)
  ultimately show ?thesis unfolding poller_ok_def by blast
qed

lemma new_Epoller_ok:
  shows "\<exists>s. new_Epoller n fd clock = Done s \<and> poller_ok (\<lambda>_. []) s \<and> dom (ep_events s) = {n} \<and> ep_notify s = n
    \<and> ep_clock s = clock \<and> ep_tasks s = [] \<and> ep_raised s = []"
proof -
  define z where "z = \<lparr>rb_key = 0 :: 64 word, rb_red = False, rb_data = None, rb_left = Some Sentinel, rb_right = Some Sentinel, rb_parent = None\<rparr>"
  define s where "s = \<lparr>ep_heap = [Sentinel \<mapsto> z], ep_rtimer = Some Sentinel, ep_wtimer = Some Sentinel, ep_events = Map.empty,
    ep_interest = Map.empty, ep_notify = n, ep_raised = [], ep_wrappers = [], ep_tasks = [], ep_running = False, ep_clock = clock\<rparr>"
  define e where "e = RequireRef (snd (SetEvent True False EPOLLET ((new_IOEvent False)\<lparr>io_fd := fd\<rparr>)))"
  have "timers k s []" for k
  proof -
    have "rb_rep Sentinel (timer_root k s, ep_heap s) Lf"
      by (cases k) (simp_all add: rb_rep_def at_place_def rb_tree_def s_def z_def)
    then show ?thesis by (auto simp: timers_def intro: exI [of _ Lf])
  qed
  then have "poller_ok (\<lambda>_. []) s" by (simp add: poller_ok_def) (simp add: s_def z_def)
  from create_event_ok [OF this, of n e] have c: "poller_ok (\<lambda>_. []) (create_event n e s)"
    by (simp add: s_def e_def RequireRef_def SetEvent_def new_IOEvent_def Let_def)
  have "n \<in> dom (ep_events (create_event n e s))" by (simp add: create_event_def)
  from AddEvent_ok [OF c this, of True False] obtain t where t: "AddEvent n True False (create_event n e s) = Done t"
    "poller_ok (\<lambda>_. []) t" "kept (create_event n e s) t" "ep_clock t = ep_clock (create_event n e s)"
    "ep_raised t = ep_raised (create_event n e s)" by blast
  have "new_Epoller n fd clock = Done t" using t(1) by (simp add: new_Epoller_def Let_def s_def z_def e_def)
  moreover have "dom (ep_events t) = {n}" using kept_dom [OF t(3)] by (simp add: create_event_def s_def)
  ultimately show ?thesis using t(2-5) by (simp add: kept_def create_event_def s_def)
qed

end
