(* ===== verification/Spec2Isabelle.thy ===== *)
theory Spec2Isabelle
  imports Buffer Error_Code Http_Header Http_Wire Packet Queues Hash Service_Pool Io_Event Socket_Stream
    Message_Stream Rpc_Controller Server_Connect Rpc_Channel Rpc_Call Rbtree Rbtree_Delete Poller Poller_Timers
begin

text \<open>
  A verification development for MTRpc, an RPC library in C++: protobuf messages in HTTP packets over
  epoll-driven, non-blocking connections (sources under \<open>src/\<close>).

  \<^bold>\<open>The program.\<close> A poller thread waits for events of sockets and hands each to \<open>IOEvent::OnEventAsync\<close>, which
  runs the handler or posts it to a group of workers (\<open>thread/workqueue.h\<close>). The handlers of a connection
  (\<open>SocketStream\<close>) read bytes into a ring of pieces (\<open>IOBuffer\<close>) and write bytes from another one. \<open>MessageStream\<close>
  (server) and \<open>ConnectStream\<close> (client) cut the bytes into messages with the HTTP parsers. A message goes to
  \<open>ServerConnect\<close>, which looks up the service in \<open>ServicePool\<close>, calls it and writes the answer, or to
  \<open>RpcChannelImpl\<close>, which completes the call and sends the next one. Handlers never touch the poller: they
  post tasks to it (\<open>SpinList\<close>), which it runs between two waits.

  \<^bold>\<open>Theories and sources.\<close>
  \<^item> \<open>Prelude\<close>: circular slices, C strings and decimal numerals, the ordered association list for \<open>std::map\<close>, and
    \<open>outcome\<close>: \<open>Done\<close> or \<open>Fault\<close>, the undefined behaviour of C++ (an access outside an array, a null or deleted
    object). The rules \<open>ends_in\<close> carry frame properties through sequences of outcomes.
  \<^item> \<open>Buffer\<close> (\<open>mio/mio_buffer.h\<close>, \<open>.cpp\<close>): pieces, iterators, \<open>IOBuffer\<close>, the zero-copy streams \<open>ReadBuffer\<close> and
    \<open>WriteBuffer\<close>. A piece is its bytes and its current size; an iterator is an index and an offset.
    \<open>content\<close> is the abstraction: the unread bytes in order.
  \<^item> \<open>Error_Code\<close> (\<open>mio/mio_error_code.h\<close>, \<open>.cpp\<close>).
  \<^item> \<open>Http_Header\<close> (\<open>http/rpc_http_header.h\<close>, \<open>.cpp\<close>): the header fields, the token buffer and both parsers, one
    definition (\<open>req_turn\<close>, \<open>res_turn\<close>) for the body of each loop; \<open>Http_Wire\<close>: the serialisers, what they write and
    that the parsers read it back; \<open>Packet\<close>: a packet written into the ring, as both sides do it.
  \<^item> \<open>Queues\<close> (\<open>common/spinlist.h\<close>, \<open>thread/workqueue.h\<close>): doubly and singly linked nodes in a store; each critical
    section is a step, the stores of the two-lock queue are steps of their own. The locale \<open>fifo\<close> states the
    contract that both refine: no fault, the last place for what is pushed, and a pop that takes the first one.
  \<^item> \<open>Hash\<close> (\<open>common/murmurhash.h\<close>, \<open>common/covert.h\<close>, \<open>.cpp\<close>), \<open>Service_Pool\<close> (\<open>rpc/rpc_service_pool.h\<close> and the lookup of
    \<open>rpc/rpc_server_impl.cpp\<close>): boards with a ring of statistics, the ordered map, its hash cache and its list.
  \<^item> \<open>Io_Event\<close> (\<open>mio/mio_event.h\<close>, \<open>.cpp\<close>): the event word, the reference count, the texts; the threads are an
    inductive step relation whose steps are the atomic accesses.
  \<^item> \<open>Socket_Stream\<close> (\<open>mio/mio_socket_stream.cpp\<close>): \<open>OnEvent\<close> and the handlers it calls; what the kernel will return from
    \<open>readv\<close> and \<open>writev\<close> is a list in the state (\<open>ss_in\<close>, \<open>ss_out\<close>), the closures of a connection are the record \<open>hooks\<close>,
    its virtual methods the record \<open>methods\<close>. The locale \<open>stream_class\<close> says what handlers may do to a stream.
  \<^item> \<open>Message_Stream\<close> (\<open>mio/mio_message_stream.cpp\<close>, \<open>mio/mio_connect_stream.cpp\<close>): the loops that cut messages. The locale
    \<open>packet_handler\<close> is the contract of a message handler that makes them end; \<open>message_class\<close> and \<open>connect_class\<close> extend
    \<open>stream_class\<close>.
  \<^item> \<open>Rpc_Controller\<close> (\<open>rpc/rpc_controller_impl.cpp\<close>), \<open>Server_Connect\<close> (\<open>rpc/rpc_server_connect.cpp\<close>), \<open>Rpc_Channel\<close>
    (\<open>rpc/rpc_channel_impl.cpp\<close>): both ends of a connection; they interpret the locales of the streams. Controllers
    live in a store, because the queues of a connection share them, and deleting one twice is a \<open>Fault\<close>.
  \<^item> \<open>Rpc_Call\<close>: both ends together.
  \<^item> \<open>Rbtree\<close> (\<open>common/ngx_rbtree.h\<close>, \<open>.cpp\<close>): nodes with parent pointers in a store, rotations, insertion and deletion as
    the code has them, each pair of mirrored branches being one definition with the side as argument. A tree of the
    store is related to an abstract one (\<open>rb_rep\<close>); the loops walk up a list of frames. \<open>Rbtree_Delete\<close> has the proof
    for deletion.
  \<^item> \<open>Poller\<close> (\<open>mio/mio_poller.cpp\<close>): events with their two timer nodes, the trees, the tasks and a turn of the loop;
    \<open>Poller_Timers\<close>: the trees refine sorted lists of timers (\<open>poller_ok\<close>), which the tasks change as \<open>task_timers\<close> says.

  \<^bold>\<open>What is shown.\<close> Bytes (\<open>Buffer\<close>): receiving appends to \<open>content\<close>, sending takes from its front, messages written and
  read through the zero-copy streams are appended and taken, where pieces of one size are concerned; the sizes are those of
  the abstract content as long as 32 bits hold them. Packets (\<open>Packet\<close>): from an empty write buffer a packet is sent as its
  header text followed by its body, with the header at the writing position or, behind a cut piece, in the next one. Headers
  (\<open>Http_Header\<close>, \<open>Http_Wire\<close>): each parser recovers what the other side's serialiser wrote, however the bytes arrive, and always
  ends; the request parser stays in its token buffer, the response parser leaves it on long tokens, and it is stated when.
  Streams (\<open>Socket_Stream\<close>, \<open>Message_Stream\<close>): \<open>OnReadable\<close> and \<open>OnWriteable\<close> move all bytes, loops end, a connection is taken off
  the poller once. Queues (\<open>Queues\<close>): both answer as the list of the specification does, without a fault, the two-lock queue
  in every interleaving. Events (\<open>Io_Event\<close>): one worker at a time, no event lost, tasks drain. Services (\<open>Service_Pool\<close>): the
  caches are transparent, the statistics are counts, sums and maxima of the calls of the last periods. Timers (\<open>Rbtree\<close>,
  \<open>Rbtree_Delete\<close>, \<open>Poller_Timers\<close>): the trees stay red-black trees of the timers that were set, and the due ones fire once and in
  order. Calls (\<open>Rpc_Channel\<close>, \<open>Server_Connect\<close>, \<open>Rpc_Call\<close>): a call from an idle client comes back with its response; each call
  gets one status; controllers are freed once. The properties of this theory state these results over the definitions of the
  components, with their limits; the component theories hold the proofs.

  The limits are the places where the code does not do what it means to; many of them are theorems as well: the array of
  segments is overrun after a message that ends inside a piece, a second pending answer is not written and its controller
  deleted twice, a request that cannot be written gets two statuses, \<open>BackUp\<close> over a border takes the size of the wrong piece,
  the last slot of the statistics is the running one, a waiting caller can miss its answer (\<open>Rpc_Controller\<close>), the text of all
  event flags overruns its array (\<open>Io_Event\<close>), two error codes have no name (\<open>Error_Code\<close>).

  \<^bold>\<open>Modelling choices.\<close> Machine integers are words where they wrap (packet sizes, sequence numbers, flags, keys of timers,
  the 64-bit counters of the statistics). The 32-bit \<open>int\<close> results of \<open>Iterator::operator-\<close> and \<open>GetBufferLeft\<close> are \<open>int\<close> values that
  every addition and multiplication reduces to their range (\<open>int32\<close>); theorems about them assume rings below 2 GB. Lengths of
  pieces, offsets in them and other values that stay in range are \<open>nat\<close> or \<open>int\<close>. The size of a piece (\<open>DEFAULT_BUFFER_SIZE\<close>, a
  variable that is 512 KB at first) is a parameter \<open>dbs\<close>, the number of pieces (\<open>MAX_BUFFER_PIECES\<close>, 16 at first) any positive number.

  A loop that is not obviously finite is a \<open>partial_function (option)\<close> whose result \<open>None\<close> means that it does not return; the
  theorems show \<open>Some\<close>. Only the two loops that stand for protobuf's use of the zero-copy streams (\<open>zero_copy_write\<close>,
  \<open>zero_copy_read\<close>) have fuel: each turn moves at least one byte, and the number of bytes of the message is shown to be enough.
  Protobuf itself (serialising, parsing, descriptors) and the services are parameters: the records \<open>codec\<close> and \<open>services\<close>.
  Where two functions have the same code word for word, or mirrored, one definition stands for both (\<open>serialize_at\<close>,
  \<open>header_lines\<close>, \<open>parse_result\<close>, the rotations of the tree, the two kinds of timers).

  \<^bold>\<open>Not modelled.\<close> The log (\<open>log/\<close>); vendored code (\<open>json/\<close>, \<open>smart_ptr/\<close>, \<open>thirdparty/\<close>); generated code (\<open>proto/\<close>, the
  closure templates \<open>thread/closure.h\<close>, \<open>thread/ext_closure.h\<close>); system calls and their wrappers (\<open>mio/tcpsocket.cpp\<close>,
  \<open>mio/mio_acceptor.cpp\<close>, \<open>mio/mio_notify.cpp\<close>, \<open>common/signalhelper.cpp\<close>, \<open>common/timerhelper.cpp\<close>); locks, atomics and
  singletons, which the step relations build in; the API wrappers (\<open>rpc/rpc_client.cpp\<close>, \<open>rpc/rpc_server.cpp\<close>,
  \<open>rpc/rpc_channel.cpp\<close>) and the parts of \<open>rpc/rpc_server_impl.cpp\<close> that start threads,
  \<open>mio/mio_timer.cpp\<close> (nothing calls it), the worker pools (\<open>thread/workpool.cpp\<close>, \<open>thread/nolock_workpool.cpp\<close>); \<open>common/serverstat.cpp\<close>
  and \<open>utils/\<close>, which read files of the system.
\<close>

section \<open>Concrete data for the witnesses\<close>

definition demo_buffer :: write_buffer where
  "demo_buffer = \<lparr>que = [\<lparr>pbuf = ''abcd'', psize = 4\<rparr>, \<lparr>pbuf = ''efgh'', psize = 4\<rparr>,
     \<lparr>pbuf = ''ijkl'', psize = 4\<rparr>], readpos = mk_it 0 2, writepos = mk_it 1 1, beginWrite = mk_it 0 0\<rparr>"

definition demo_request :: http_request where
  "demo_request = HttpRequestHeader_Reset \<lparr>h_headers = [], h_version = [], h_state = START, h_buf = [],
     h_pos = 0, h_bodyStart = mk_it 0 0, h_body_size = 0, rq_method = [], rq_path = []\<rparr>"

definition demo_response :: http_response where
  "demo_response = SetStatus 200 ''OK'' (HttpReponseHeader_Reset \<lparr>h_headers = [], h_version = [],
     h_state = START, h_buf = [], h_pos = 0, h_bodyStart = mk_it 0 0, h_body_size = 0,
     rs_status = 0, rs_status_msg = []\<rparr>)"

definition demo_service :: service where
  "demo_service = \<lparr>sv_full_name = ''pkg.Echo'',
     sv_methods = [\<lparr>md_name = ''Say'', md_full_name = ''pkg.Echo.Say'', md_input = ''In'', md_output = ''Out''\<rparr>]\<rparr>"

lemma demo_buffer_wf: "wf_buf demo_buffer"
  by (simp add: demo_buffer_def wf_buf_def wf_que_def wf_it_def)

lemma demo_buffer_content: "content demo_buffer = ''cde''"
  by (simp add: demo_buffer_def content_def flat_def lin_def off_def cslice_def)

lemma demo_buffer_room: "room demo_buffer = 9"
  by (simp add: room_def demo_buffer_content) (simp add: demo_buffer_def total_def)

lemma demo_request_ok: "request_ok (SetPath ''/pkg.Echo.Say'' demo_request)"
  by (simp add: demo_request_def request_ok_def SetPath_def HttpRequestHeader_Reset_def
      HttpHeader_Reset_def plain_def header_ok_def MAX_KEY_LEN_def)

lemma demo_response_ok: "response_ok demo_response"
  by (simp add: demo_response_def response_ok_def SetStatus_def HttpReponseHeader_Reset_def
      HttpHeader_Reset_def plain_def header_ok_def MAX_KEY_LEN_def)

lemma idle_new: "0 < n \<Longrightarrow> 0 < dbs \<Longrightarrow> n * dbs < 2 ^ 31 \<Longrightarrow> idle dbs (new_write_buffer n dbs)"
  by (auto simp: idle_def new_write_buffer_def new_iobuf_def iobuf.defs write_buffer.defs wf_buf_def
      wf_que_def wf_it_def new_piece_def isEmpty_def list_all_length)

definition demo_codec :: "string codec" where
  "demo_codec = \<lparr>co_serialize = Some, co_parse = (\<lambda>d. (Some d, length d))\<rparr>"

definition demo_services :: "(unit, unit, string) services" where
  "demo_services = \<lparr>sv_find = (\<lambda>_. (True, Some (), Some ())), sv_list = [''pkg.Echo''],
     sv_parse = (\<lambda>_ _ d. (Some d, length d)), sv_call = (\<lambda>_ _ m c. (m @ m, c)), sv_serialize = Some\<rparr>"

definition demo_options :: options where
  "demo_options = \<lparr>read_timeout_sec = 60, write_timeout_sec = 60\<rparr>"

definition demo_call :: "(string, nat) client_controller" where
  "demo_call = \<lparr>ct_seq = 0, ct_msg = [], ct_body = [], ct_status = - 1, ct_req_send_size = 0, ct_req_pack_size = 0,
     ct_res_send_size = 0, ct_res_pack_size = 0, ct_request = Some ''hi'', ct_response = Some [],
     cc_method = Some ''pkg.Echo.Say'', cc_done = Some 7\<rparr>"

definition demo_channel :: "(string, nat) channel" where
  "demo_channel = \<lparr>ss_readbuf = new_read_buffer 4 4096, ss_writebuf = new_write_buffer 4 4096,
     ss_isConnected = True, ss_isClosed = False, ss_close_when_empty = False, ss_local = [], ss_peer = [],
     ss_refs = 2, ss_posted = [], ss_in = [], ss_out = [], ss_sent = [],
     st_reqheader = demo_request, st_resheader = HttpReponseHeader_Reset demo_response, cs_status = CLIENT_CONNECT_OK,
     ch_stream = True, ch_calls = [0 \<mapsto> demo_call], ch_send = [0], ch_wait = [], ch_done = [], ch_seq = 0,
     ch_log = [], ch_ran = [], ch_deleted = False\<rparr>"

definition demo_server :: "string server_connect" where
  "demo_server = ServerConnect_Start 4 4096 demo_request demo_response"

lemma receiving_new: "0 < n \<Longrightarrow> 0 < dbs \<Longrightarrow> n * dbs < 2 ^ 31 \<Longrightarrow> receiving dbs (new_read_buffer n dbs)"
  by (auto simp: receiving_def uniform_def new_read_buffer_def new_iobuf_def iobuf.defs read_buffer.defs wf_buf_def
      wf_que_def wf_it_def new_piece_def list_all_length total_def sum_list_replicate)

lemma new_buffer_facts [simp]:
  "length (que (new_read_buffer n dbs)) = n" "length (que (new_write_buffer n dbs)) = n"
  "writepos (new_write_buffer n dbs) = mk_it 0 0" "readpos (new_read_buffer n dbs) = mk_it 0 0"
  "content (new_read_buffer n dbs) = []"
  by (simp_all add: new_read_buffer_def new_write_buffer_def new_iobuf_def iobuf.defs read_buffer.defs write_buffer.defs
      content_def)

lemma demo_channel_idle: "client_idle 4096 demo_channel"
  by (auto simp: client_idle_def demo_channel_def idle_new receiving_new MAX_HEADER_SIZE_def)

lemma demo_server_idle: "server_idle 4096 demo_server"
  by (auto simp: server_idle_def demo_server_def ServerConnect_Start_def AddEventASync_def post_task_def idle_new
      receiving_new MAX_HEADER_SIZE_def new_request_def HttpRequestHeader_Reset_def intro!: exI [of _ demo_request])

section \<open>Byte streams\<close>

text \<open>C1: Bytes that \<open>readv\<close> puts into the segments of \<open>GetReciveBuffer\<close> are appended to the
  unread bytes by \<open>MoveRecivePtr\<close>, in order and with nothing lost, as long as at least one byte of
  the ring stays free.\<close>
theorem receive_appends:
  assumes "wf_buf b" and "GetReciveBuffer b = (True, vs)" and "length d < room b"
  shows "\<exists>b'. MoveRecivePtr (b\<lparr>que := scatter (que b) vs d\<rparr>) (length d) = Some b'
    \<and> wf_buf b' \<and> content b' = content b @ d"
  using recv_appends [OF assms] .

theorem receive_appends_witness:
  "\<exists>b'. MoveRecivePtr (demo_buffer\<lparr>que := scatter (que demo_buffer) (snd (GetReciveBuffer demo_buffer)) ''xyz''\<rparr>) 3
     = Some b' \<and> content b' = ''cdexyz''"
proof -
  have "GetReciveBuffer demo_buffer = (True, snd (GetReciveBuffer demo_buffer))"
    by (simp add: demo_buffer_def GetReciveBuffer_def isFull_def)
  from receive_appends [OF demo_buffer_wf this, of "''xyz''"] show ?thesis
    by (auto simp: demo_buffer_room demo_buffer_content numeral_3_eq_3)
qed

text \<open>C2: The segments of \<open>GetSendBuffer\<close> hold exactly the unread bytes in order, there are none
  exactly when the buffer is empty, and \<open>MoveSendPtr\<close> takes off what \<open>writev\<close> sent.\<close>
theorem send_takes:
  assumes "wf_buf b" and "n \<le> length (content b)"
  shows "(fst (GetSendBuffer b) \<longleftrightarrow> \<not> isEmpty b) \<and> gather (que b) (snd (GetSendBuffer b)) = content b
    \<and> (\<exists>b'. MoveSendPtr b n = Some b' \<and> wf_buf b' \<and> content b' = drop n (content b))"
  using send_gathers [OF assms(1)] move_send_content [OF assms] content_Nil_iff [OF assms(1)] by auto

theorem send_takes_witness:
  "gather (que demo_buffer) (snd (GetSendBuffer demo_buffer)) = ''cde''
   \<and> (\<exists>b'. MoveSendPtr demo_buffer 2 = Some b' \<and> content b' = ''e'')"
  using send_takes [OF demo_buffer_wf, of 2] by (auto simp: demo_buffer_content)

text \<open>C3: A protobuf message written through \<open>WriteBuffer::Next\<close> and \<open>BackUp\<close> is appended to the
  unsent bytes, and the read position and the layout of the ring do not change, under two conditions:
  the pieces from the writing position round to the reading position have one size \<open>s\<close> (otherwise
  \<open>BackUp\<close> goes back over a border by the size of the wrong piece, lemma \<open>back_up_over_border\<close>), and the
  message is smaller than the free room, so that one byte stays free (otherwise \<open>Next\<close> moves the writing
  position onto the reading position and the buffer counts as empty). \<open>fuel\<close> bounds the turns of the
  caller's loop; one for each byte is enough.\<close>
theorem message_write_appends:
  assumes "wf_buf b" and "free_uniform b s" and "length d < room b" and "length d \<le> fuel"
  shows "\<exists>b'. zero_copy_write fuel b d = Some b' \<and> wf_buf b' \<and> content b' = content b @ d
    \<and> same_layout (que b) (que b') \<and> readpos b' = readpos b"
  using zero_copy_write_appends [OF assms] .

theorem message_write_appends_witness:
  "\<exists>b'. zero_copy_write 5 demo_buffer ''vwxyz'' = Some b' \<and> content b' = ''cdevwxyz''"
proof -
  have "free_uniform demo_buffer 4"
    by (simp add: free_uniform_def free_pieces_def demo_buffer_def Let_def ring_walk.simps)
  from message_write_appends [OF demo_buffer_wf this, of "''vwxyz''" 5] show ?thesis
    by (auto simp: demo_buffer_room demo_buffer_content)
qed

text \<open>C4: A message body of \<open>n\<close> bytes read through \<open>ReadBuffer::Next\<close> and \<open>BackUp\<close> is the first
  \<open>n\<close> unread bytes, and exactly these are taken off, where all pieces have one size (as in every
  read buffer).\<close>
theorem message_read_takes:
  assumes "wf_buf b" and "uniform s (que b)" and "n \<le> fuel"
  shows "\<exists>b'. zero_copy_read fuel b n = Some (take n (content b), b') \<and> wf_buf b'
    \<and> content b' = drop n (content b) \<and> que b' = que b \<and> writepos b' = writepos b"
  using zero_copy_read_takes [OF assms] .

theorem message_read_takes_witness:
  "\<exists>b'. zero_copy_read 2 demo_buffer 2 = Some (''cd'', b') \<and> content b' = ''e''"
proof -
  have "uniform 4 (que demo_buffer)"
    by (auto simp: uniform_def demo_buffer_def nth_Cons split: nat.splits)
  from message_read_takes [OF demo_buffer_wf this, of 2 2] show ?thesis
    by (auto simp: demo_buffer_content numeral_eq_Suc)
qed

text \<open>C5: The sizes, as the 32-bit integers that the code computes, for rings of less than 2 GB:
  \<open>GetBufferUsed\<close> is the number of unread bytes; \<open>GetBufferLeft\<close> of a buffer that holds bytes is the
  number of free ones. Of an empty buffer it counts whole pieces, so that
  it exceeds the free bytes by what the current sizes of the pieces miss of \<open>dbs\<close>.\<close>
theorem buffer_sizes:
  assumes "wf_buf b" and "total (que b) < 2 ^ 31"
  shows "GetBufferUsed b = int (length (content b))
    \<and> (\<not> isEmpty b \<longrightarrow> GetBufferLeft dbs b = int (room b))
    \<and> (isEmpty b \<and> length (que b) * dbs < 2 ^ 31 \<longrightarrow>
        GetBufferLeft dbs b = int (room b) + (\<Sum>p\<leftarrow>que b. int dbs - int (psize p)))"
  using buffer_used [OF assms(1)] buffer_left [OF assms(1) _ assms(2)] buffer_left_empty [OF assms(1)]
    content_Nil_iff [OF assms(1)] assms(2) by auto

theorem buffer_sizes_witness:
  "GetBufferUsed demo_buffer = 3 \<and> GetBufferLeft 4 demo_buffer = 9
    \<and> GetBufferLeft 4 (demo_buffer\<lparr>que := (que demo_buffer)[2 := \<lparr>pbuf = ''ijkl'', psize = 1\<rparr>], readpos := mk_it 1 1\<rparr>)
      = 9 + 3"
proof -
  let ?e = "demo_buffer\<lparr>que := (que demo_buffer)[2 := \<lparr>pbuf = ''ijkl'', psize = 1\<rparr>], readpos := mk_it 1 1\<rparr>"
  have w: "wf_buf ?e" "total (que ?e) < 2 ^ 31" "isEmpty ?e" "length (que ?e) * 4 < 2 ^ 31"
    by (simp_all add: demo_buffer_def wf_buf_def wf_que_def wf_it_def total_def isEmpty_def)
  have "room ?e = 9" using content_Nil_iff [OF w(1)] w(3) by (simp add: room_def) (simp add: demo_buffer_def total_def)
  moreover have "(\<Sum>p\<leftarrow>que ?e. int 4 - int (psize p)) = 3" by (simp add: demo_buffer_def)
  moreover have "total (que demo_buffer) < 2 ^ 31" "\<not> isEmpty demo_buffer"
    by (simp_all add: demo_buffer_def total_def isEmpty_def)
  ultimately show ?thesis
    using buffer_sizes [OF demo_buffer_wf, of 4] buffer_sizes [OF w(1,2), of 4] w(3,4)
    by (simp add: demo_buffer_room demo_buffer_content)
qed

text \<open>C6: The scatter lists have at most one segment more than the ring has pieces, and that one
  more (which the callers' array of \<open>MAX_BUFFER_PIECES\<close> segments has no room for) exactly when the
  end stands behind the first byte of the piece of the start, at or before the start.\<close>
theorem segment_count:
  assumes "it_idx a < length q" and "it_idx e < length q"
  shows "length (iov_between q a e) \<le> length q + 1 \<and>
    (length (iov_between q a e) = length q + 1 \<longleftrightarrow> it_idx e = it_idx a \<and> 0 < it_pos e \<and> it_pos e \<le> it_pos a)"
  using iov_between_count [OF assms] by blast

theorem segment_count_witness: "length (iov_between (que demo_buffer) (mk_it 1 2) (mk_it 1 2)) = 4"
  using segment_count [of "mk_it 1 2" "que demo_buffer" "mk_it 1 2"] by (simp add: demo_buffer_def)

section \<open>Packets\<close>

text \<open>C7: A packet in an idle write buffer, that is an empty one whose pieces all have \<open>dbs\<close> bytes of
  memory (at least the header room of 1024), wherever its position stands. \<open>begin_packet\<close> reserves the room
  for the header, at the position or, when less than the header room is left in its piece, at the start of
  the next piece, the piece being cut; the body is serialised behind it, the header put in front and its
  piece cut. Then exactly the header text and the body are sent, sending them empties the buffer, and the
  recorded content length and packet size are their lengths. The body has to leave one piece free, or
  three if a piece was cut: the cut piece is lost, and a body that reached the last piece would be backed
  up over the cut one by the wrong size. The ring is smaller than 2 GB.\<close>
theorem packet_on_the_wire:
  assumes "idle dbs b" and "MAX_HEADER_SIZE \<le> dbs"
    and "length body + (if it_pos (writepos b) + MAX_HEADER_SIZE \<le> dbs then 1 else 3) * dbs < length (que b) * dbs"
    and "ts \<noteq> []" and "concat ts \<noteq> []" and "length (concat ts) < MAX_HEADER_SIZE"
  shows "\<exists>b1 bs b2 b3 b4. begin_packet dbs b = (b1, Some (header_place dbs b, bs))
    \<and> zero_copy_write (length body) b1 body = Some b2
    \<and> it_diff (que b2) (writepos b2) bs = int (length body)
    \<and> put_header ts (header_place dbs b) b2 = Done b3
    \<and> gather (que b3) (snd (GetSendBuffer b3)) = concat ts @ body
    \<and> it_diff (que b3) (writepos b3) (header_place dbs b) = int (length (concat ts @ body))
    \<and> MoveSendPtr b3 (length (concat ts @ body)) = Some b4 \<and> isEmpty b4"
  by (rule packet_sent) (fact assms)+

theorem packet_on_the_wire_witness:
  "\<exists>b1 bs b2 b3. begin_packet DEFAULT_BUFFER_SIZE
      ((new_write_buffer MAX_BUFFER_PIECES DEFAULT_BUFFER_SIZE)\<lparr>readpos := mk_it 2 524000, writepos := mk_it 2 524000\<rparr>)
      = (b1, Some (mk_it 3 0, bs))
    \<and> zero_copy_write 4 b1 ''body'' = Some b2 \<and> put_header [''GET / x'', CRLF] (mk_it 3 0) b2 = Done b3
    \<and> gather (que b3) (snd (GetSendBuffer b3)) = ''GET / x'' @ CRLF @ ''body''"
proof -
  let ?b = "(new_write_buffer MAX_BUFFER_PIECES DEFAULT_BUFFER_SIZE)\<lparr>readpos := mk_it 2 524000, writepos := mk_it 2 524000\<rparr>"
  have i: "idle DEFAULT_BUFFER_SIZE ?b"
    using idle_new [of MAX_BUFFER_PIECES DEFAULT_BUFFER_SIZE]
    by (auto simp: idle_def MAX_BUFFER_PIECES_def DEFAULT_BUFFER_SIZE_def new_write_buffer_def new_iobuf_def
        iobuf.defs write_buffer.defs wf_buf_def wf_it_def new_piece_def isEmpty_def)
  have p: "header_place DEFAULT_BUFFER_SIZE ?b = mk_it 3 0" "length (que ?b) = 16" "length ''body'' = 4"
    by (simp_all add: header_place_def new_write_buffer_def new_iobuf_def iobuf.defs write_buffer.defs
        MAX_BUFFER_PIECES_def DEFAULT_BUFFER_SIZE_def MAX_HEADER_SIZE_def)
  have c: "concat [''GET / x'', CRLF] \<noteq> []" "length (concat [''GET / x'', CRLF]) < MAX_HEADER_SIZE"
    "concat [''GET / x'', CRLF] @ ''body'' = ''GET / x'' @ CRLF @ ''body''"
    "MAX_HEADER_SIZE \<le> DEFAULT_BUFFER_SIZE"
    "length ''body'' + (if it_pos (writepos ?b) + MAX_HEADER_SIZE \<le> DEFAULT_BUFFER_SIZE then 1 else 3) * DEFAULT_BUFFER_SIZE
      < length (que ?b) * DEFAULT_BUFFER_SIZE"
    unfolding p(2) by (simp_all add: DEFAULT_BUFFER_SIZE_def MAX_HEADER_SIZE_def)
  from packet_on_the_wire [OF i c(4,5) _ c(1,2)] show ?thesis
    unfolding p(1,3) c(3) by blast
qed

text \<open>C8: The serialiser of a header reports failure exactly when the text and its zero byte do not
  fit behind the position; it then changes no byte before the position and no other piece.\<close>
theorem header_does_not_fit:
  assumes "wf_que q" and "wf_it q it" and "psz q (it_idx it) < 2 ^ 31"
  shows "if it_pos it + length (concat (HttpRequest_lines h)) < psz q (it_idx it)
    then \<exists>x. HttpRequest_SerializeHeader h q it =
      Done (0, put_tail q (it_idx it) (it_pos it) (concat (HttpRequest_lines h)) x)
    else \<exists>q'. HttpRequest_SerializeHeader h q it = Done (- 1, q') \<and> same_layout q q'
      \<and> (\<forall>j<length q. j \<noteq> it_idx it \<longrightarrow> q' ! j = q ! j)
      \<and> take (it_pos it) (pbuf (q' ! it_idx it)) = take (it_pos it) (pbuf (q ! it_idx it))"
proof -
  have ts: "HttpRequest_lines h \<noteq> []" by (simp add: HttpRequest_lines_def)
  show ?thesis
    using serialize_at_full [OF assms ts] serialize_at_fits [OF assms ts]
    by (auto simp: HttpRequest_SerializeHeader_def not_less)
qed

theorem header_does_not_fit_witness:
  "\<exists>q'. HttpRequest_SerializeHeader demo_request (que demo_buffer) (mk_it 1 1) = Done (- 1, q')"
  using header_does_not_fit [of "que demo_buffer" "mk_it 1 1" demo_request] demo_buffer_wf
  by (auto simp: demo_buffer_def wf_buf_def HttpRequest_lines_def header_lines_def wf_it_def)

section \<open>Headers\<close>

text \<open>C9: A request of the client, with its sequence number and content length, is understood by
  the server's parser whatever bytes follow it: the same path, content length and sequence number,
  and exactly the header is consumed.\<close>
theorem request_arrives:
  assumes "request_ok h" and "unat n < 2 ^ 31"
    and "map snd xs = concat (HttpRequest_lines (SetContentLength n (SetSeq s h)))"
  shows "\<exists>h'. parse_bytes req_turn (xs @ ys) (HttpRequestHeader_Reset r) = Done (HTTP_PASER_FINISH, h', length xs)
    \<and> rq_path h' = rq_path h \<and> GetContentLength h' = int (unat n) \<and> GetSeq h' = s"
  using request_fields_arrive [OF assms] .

theorem request_arrives_witness:
  "\<exists>xs h'. parse_bytes req_turn xs (HttpRequestHeader_Reset demo_request) = Done (HTTP_PASER_FINISH, h', length xs)
    \<and> rq_path h' = ''/pkg.Echo.Say'' \<and> GetContentLength h' = 42 \<and> GetSeq h' = 7"
proof -
  let ?h = "SetPath ''/pkg.Echo.Say'' demo_request"
  let ?t = "concat (HttpRequest_lines (SetContentLength 42 (SetSeq 7 ?h)))"
  let ?xs = "map (Pair (mk_it 0 0)) ?t"
  have "map snd ?xs = ?t" by (simp add: comp_def)
  from request_arrives [OF demo_request_ok _ this, of "[]" demo_request]
  show ?thesis by (intro exI [of _ ?xs]) (simp add: SetPath_def)
qed

text \<open>C10: A response of the server is understood by the client's parser: the same status, message,
  content length and sequence number, and exactly the header is consumed.\<close>
theorem response_arrives:
  assumes "response_ok h" and "unat n < 2 ^ 31"
    and "map snd xs = concat (HttpReponse_lines (SetContentLength n (SetSeq s h)))"
  shows "\<exists>h'. parse_bytes res_turn (xs @ ys) (HttpReponseHeader_Reset r) = Done (HTTP_PASER_FINISH, h', length xs)
    \<and> rs_status h' = rs_status h \<and> rs_status_msg h' = rs_status_msg h
    \<and> GetContentLength h' = int (unat n) \<and> GetSeq h' = s"
  using response_fields_arrive [OF assms] .

theorem response_arrives_witness:
  "\<exists>xs h'. parse_bytes res_turn xs (HttpReponseHeader_Reset demo_response) = Done (HTTP_PASER_FINISH, h', length xs)
    \<and> rs_status h' = 200 \<and> rs_status_msg h' = ''OK'' \<and> GetContentLength h' = 5 \<and> GetSeq h' = 7"
proof -
  let ?t = "concat (HttpReponse_lines (SetContentLength 5 (SetSeq 7 demo_response)))"
  let ?xs = "map (Pair (mk_it 0 0)) ?t"
  have "map snd ?xs = ?t" by (simp add: comp_def)
  moreover have "rs_status demo_response = 200" "rs_status_msg demo_response = ''OK''"
    by (simp_all add: demo_response_def SetStatus_def)
  ultimately show ?thesis
    using response_arrives [OF demo_response_ok _, of 5 ?xs 7 "[]" demo_response]
    by (intro exI [of _ ?xs]) simp
qed

text \<open>C11: \<open>HttpRequestHeader::ParserHeader\<close> always ends; unless it leaves its token buffer, it
  takes a prefix of the unread bytes and changes nothing else of the buffer, takes all of them when
  it asks for more, and answers \<open>HTTP_PASER_FINISH\<close> only in state \<open>END\<close>.\<close>
theorem request_parser_ends:
  assumes "wf_buf b"
  shows "\<exists>r. HttpRequest_ParserHeader h b = Some r \<and> (\<forall>code h' b'. r = Done (code, h', b') \<longrightarrow>
    wf_buf b' \<and> que b' = que b \<and> writepos b' = writepos b \<and> (\<exists>used. content b = used @ content b')
    \<and> (code = HTTP_PASER_HALF \<longrightarrow> isEmpty b') \<and> (code = HTTP_PASER_FINISH \<longrightarrow> isParsed h'))"
  using request_parser_bytes [OF assms, of h] parser_frame [OF assms refl] by fastforce

theorem request_parser_ends_witness:
  "\<exists>r. HttpRequest_ParserHeader demo_request demo_buffer = Some r"
  using request_parser_ends [OF demo_buffer_wf, of demo_request] by blast

text \<open>C12: \<open>HttpReponseHeader::ParserHeader\<close> always ends; unless it leaves its token buffer, it takes a
  prefix of the unread bytes and changes nothing else of the buffer, takes all of them when it asks for
  more, and answers \<open>HTTP_PASER_FINISH\<close> only in state \<open>END\<close>. It does not test the length of a token, and
  this is exactly when it leaves the buffer: from a valid token buffer it only faults on a token that has
  filled all its 256 bytes, and bytes that do not end a token (no character of \<open>es\<close>) are all gathered as
  long as they fit behind the position and overrun the buffer as soon as there is one more.\<close>
theorem response_parser_ends:
  assumes "wf_buf b"
  shows "\<exists>r. HttpReponse_ParserHeader h b = Some r \<and> (\<forall>code h' b'. r = Done (code, h', b') \<longrightarrow>
      wf_buf b' \<and> que b' = que b \<and> writepos b' = writepos b \<and> (\<exists>used. content b = used @ content b')
      \<and> (code = HTTP_PASER_HALF \<longrightarrow> isEmpty b') \<and> (code = HTTP_PASER_FINISH \<longrightarrow> isParsed h'))
    \<and> (buf_ok h \<and> r = Fault \<longrightarrow> (\<exists>n<length (content b). \<exists>h1.
        parse_bytes res_turn (take n (buffer_cells b)) h = Done (HTTP_PASER_HALF, h1, n) \<and> h_pos h1 = MAX_KEY_LEN))
    \<and> (\<forall>es. buf_ok h \<and> res_token_ends (h_state h) = Some es \<and> set (content b) \<inter> set es = {} \<longrightarrow>
        (if h_pos h + length (content b) \<le> MAX_KEY_LEN
         then \<exists>h' b'. r = Done (HTTP_PASER_HALF, h', b') \<and> h_state h' = h_state h \<and> gathered h' = gathered h @ content b
         else r = Fault))"
proof -
  let ?p = "parse_bytes res_turn (buffer_cells b) h" and ?r = "run res_turn isParsed (buffer_cells b) (h, [], [])"
  obtain r where r: "HttpReponse_ParserHeader h b = Some r" "r = bind_outcome ?p (\<lambda>(code, h', n). Done (code, h', read_n b n))"
    using response_parser_bytes [OF assms] by blast
  have len: "length (buffer_cells b) = length (content b)" using buffer_cells_snd [OF assms] length_map by metis
  have fault: "\<exists>n<length (content b). \<exists>h1.
      parse_bytes res_turn (take n (buffer_cells b)) h = Done (HTTP_PASER_HALF, h1, n) \<and> h_pos h1 = MAX_KEY_LEN"
    if "buf_ok h" "r = Fault"
  proof -
    have "?r = Fault" using that(2) r(2) by (cases ?r) (auto simp: parse_bytes_def)
    with that(1) obtain n s1 where n: "n < length (content b)" "h_pos (fst s1) = MAX_KEY_LEN" "\<not> isParsed (fst s1)"
      "run res_turn isParsed (take n (buffer_cells b)) (h, [], []) = Done (s1, False, n)"
      using response_fault_full [of "(h, [], [])" "buffer_cells b"] unfolding fst_conv len by blast
    then have "parse_bytes res_turn (take n (buffer_cells b)) h = Done (HTTP_PASER_HALF, fst s1, n)"
      by (cases s1) (simp add: parse_bytes_def parse_result_def isParsed_def)
    then show ?thesis using n(1,2) by blast
  qed
  have token: "if h_pos h + length (content b) \<le> MAX_KEY_LEN
      then \<exists>h' b'. r = Done (HTTP_PASER_HALF, h', b') \<and> h_state h' = h_state h \<and> gathered h' = gathered h @ content b
      else r = Fault"
    if "buf_ok h" "res_token_ends (h_state h) = Some es" "set (content b) \<inter> set es = {}" for es
  proof -
    have l: "length (h_buf h) = MAX_KEY_LEN" "h_pos h \<le> length (h_buf h)" using that(1) by (auto simp: buf_ok_def)
    have "h_state h \<noteq> END" using that(2) by (auto simp: res_token_ends_def)
    with response_token [OF that(2) _ l(2), of "buffer_cells b" "[]" "[]"] that(3) show ?thesis
      unfolding r(2) l(1) len buffer_cells_snd [OF assms]
      by (auto simp: parse_bytes_def parse_result_def split: if_splits)
  qed
  show ?thesis
    using parser_frame [OF assms refl] r fault token by (intro exI [of _ r]) fastforce
qed

theorem response_parser_ends_witness:
  "\<exists>h' b'. HttpReponse_ParserHeader demo_response demo_buffer = Some (Done (HTTP_PASER_HALF, h', b'))
    \<and> gathered h' = ''cde''"
proof -
  have d: "buf_ok demo_response" "res_token_ends (h_state demo_response) = Some [SP]" "h_pos demo_response = 0"
    "gathered demo_response = []"
    by (simp_all add: demo_response_def SetStatus_def HttpReponseHeader_Reset_def buf_ok_def HttpHeader_Reset_def
        MAX_KEY_LEN_def res_token_ends_def gathered_def)
  have "set (content demo_buffer) \<inter> set [SP] = {}" by (simp add: demo_buffer_content)
  then show ?thesis using response_parser_ends [OF demo_buffer_wf, of demo_response] d
    by (auto simp: demo_buffer_content MAX_KEY_LEN_def)
qed

text \<open>C13: On any input whose method stands within the first 255 bytes the request parser never
  reads or writes outside of its token buffer, whatever bytes follow, and keeps its invariant.\<close>
theorem request_parser_in_bounds:
  assumes "buf_ok h"
    and "h_state h = START \<Longrightarrow> \<exists>g m rest. map snd xs = g @ m @ rest \<and> m \<in> {''GET '', ''POST ''}
      \<and> h_pos h + length (g @ m) < MAX_KEY_LEN"
  shows "\<exists>code h' n. parse_bytes req_turn xs h = Done (code, h', n) \<and> buf_ok h'"
  using request_parser_safe [OF assms] .

theorem request_parser_in_bounds_witness:
  "\<exists>code h' n. parse_bytes req_turn (map (Pair (mk_it 0 0)) (''xxPOST '' @ replicate 1000 CHR ''a'')) demo_request
     = Done (code, h', n) \<and> buf_ok h'"
proof (rule request_parser_in_bounds)
  show "buf_ok demo_request"
    by (simp add: demo_request_def HttpRequestHeader_Reset_def buf_ok_def HttpHeader_Reset_def MAX_KEY_LEN_def)
  have "h_pos demo_request = 0"
    by (simp add: demo_request_def HttpRequestHeader_Reset_def HttpHeader_Reset_def)
  then show "\<exists>g m rest. map snd (map (Pair (mk_it 0 0)) (''xxPOST '' @ replicate 1000 CHR ''a'')) = g @ m @ rest
      \<and> m \<in> {''GET '', ''POST ''} \<and> h_pos demo_request + length (g @ m) < MAX_KEY_LEN"
    by (intro exI [of _ "''xx''"] exI [of _ "''POST ''"] exI [of _ "replicate 1000 CHR ''a''"])
      (simp add: comp_def MAX_KEY_LEN_def)
qed

text \<open>C14: A request header that arrives in two events is parsed as if it had arrived in one,
  unless the border falls into a header value.\<close>
theorem request_in_parts:
  assumes "parse_bytes req_turn xs h = Done (HTTP_PASER_HALF, h1, n)"
    and "h_state h \<noteq> REQ_VALUE_R" and "h_state h1 \<noteq> REQ_VALUE_R"
  shows "parse_bytes req_turn (xs @ ys) h =
    bind_outcome (parse_bytes req_turn ys h1) (\<lambda>(code, h2, m). Done (code, h2, length xs + m))"
  using request_in_two_parts [OF assms] .

theorem request_in_parts_witness:
  "parse_bytes req_turn (map (Pair (mk_it 0 0)) ''PO'' @ map (Pair (mk_it 0 0)) ''ST '') demo_request =
    bind_outcome (parse_bytes req_turn (map (Pair (mk_it 0 0)) ''ST '') (tok_h ''PO'' demo_request))
      (\<lambda>(code, h2, m). Done (code, h2, 2 + m))"
proof -
  have t: "tok_h [] demo_request = demo_request" "h_state demo_request = START"
    by (simp_all add: tok_h_def demo_request_def HttpRequestHeader_Reset_def HttpHeader_Reset_def)
  have "reads req_turn (''P'' @ ''O'') (tok_h [] demo_request, [], []) (tok_h (([] @ ''P'') @ ''O'') demo_request, [], [])"
    by (rule reads_append; rule reads_START_char) (simp_all add: t(2) MAX_KEY_LEN_def ends_in_method_def)
  moreover have "map snd (map (Pair (mk_it 0 0)) ''PO'') = ''P'' @ ''O''" by simp
  ultimately have "run req_turn isParsed (map (Pair (mk_it 0 0)) ''PO'') (demo_request, [], []) =
      Done ((tok_h ''PO'' demo_request, [], []), False, 2)"
    unfolding reads_def t(1) by (metis append.left_neutral append_Cons length_Cons list.size(3) numeral_2_eq_2)
  then have "parse_bytes req_turn (map (Pair (mk_it 0 0)) ''PO'') demo_request =
      Done (HTTP_PASER_HALF, tok_h ''PO'' demo_request, 2)"
    by (simp add: parse_bytes_def parse_result_def t(2) del: list.map run.simps)
  from request_in_parts [OF this] show ?thesis by (simp add: t(2))
qed

section \<open>Task queues\<close>

text \<open>C15: \<open>SpinList\<close> is a queue. From the empty list every sequence of pushes and pops runs without
  a fault; each pop answers as the list of the specification does, that is with the oldest task, and with
  nothing exactly when there is none; and what was pushed is what was handed out followed by what is left.\<close>
theorem spin_list_fifo:
  "\<exists>q. serve sq_push sq_pop ops new_spin_queue = Done (fst (fifo_spec ops []), q)
    \<and> sq_items q = snd (fifo_spec ops []) \<and> pushed ops = delivered (fst (fifo_spec ops [])) @ sq_items q"
  using spin.serve_spec [OF new_spin_queue(1), of ops] fifo_spec_order [of "[]" ops] new_spin_queue(2) by auto

text \<open>C16: \<open>WorkQueue\<close> with its two locks: in every interleaving of the stores of pushing threads
  with the steps of popping and freeing threads, the tasks taken so far followed by the queued ones
  are the tasks linked so far, and no enabled step touches a freed node.\<close>
theorem work_queue_fifo:
  assumes "wq_run new_WorkQueue es q"
  shows "(\<exists>rest. linked es = taken es @ rest) \<and> (\<forall>e r. wq_step q e r \<longrightarrow> r \<noteq> Fault)"
  using wq_run_rep [OF assms refl] wq_step_rep by blast

theorem work_queue_fifo_witness:
  "\<exists>q es. wq_run new_WorkQueue es q \<and> linked es = [Some (7 :: nat)] \<and> taken es = [Some 7]
    \<and> (\<exists>rest. linked es = taken es @ rest)"
proof -
  obtain q1 where q1: "wq_link (7 :: nat) new_WorkQueue = Done q1" "wq_rep q1 [1]"
    "wq_values (wq_heap q1) [1] = [Some 7]"
    using wq_link_rep [OF wq_rep_new, of "7 :: nat"] by (auto simp: new_WorkQueue_def wq_values_def)
  obtain q2 where q2: "wq_take q1 = Done (Some (Some 7), q2)"
    using wq_take_rep(2) [OF q1(2) refl] q1(3) by (auto simp: wq_values_def)
  have "wq_run new_WorkQueue ([] @ [Link 7]) q1"
    by (rule wq_run.some [OF wq_run.none]) (use wq_step.link [of new_WorkQueue "7 :: nat"] q1(1) in \<open>simp add: new_WorkQueue_def\<close>)
  from wq_run.some [OF this wq_step.take [OF q2]]
  have r: "wq_run new_WorkQueue [Link 7, Take (Some (Some 7))] q2" by simp
  show ?thesis using work_queue_fifo [OF r] r by (intro exI [of _ q2] exI [of _ "[Link 7, Take (Some (Some 7))]"]) auto
qed

section \<open>Services\<close>

text \<open>C17: What \<open>LatestStats\<close> reads from its ring of 602 slots, however many periods and calls came
  before: of the last \<open>n\<close> finished periods, the numbers of the calls that succeeded and that failed, the
  sums of their times and the longest of them (0 if there is none); counts and sums are 64-bit and wrap,
  the longest is that of the signed values. \<open>n\<close> is up to 602 (the code warns outside of this range); but 602 periods back is
  the slot of the running period again, whose calls so far are then counted for the oldest period.\<close>
theorem statistics_of_last_periods:
  assumes "n \<le> STAT_SLOT_COUNT"
  shows "LatestStats (int n) (board_run es new_MethodBoard) = stats_of (calls_before (periods es [[]]) n)"
  using latest_stats [OF assms] .

theorem statistics_of_last_periods_witness:
  "LatestStats 2 (board_run [Report True 5, Tick, Report False 9, Report True 3, Report False 2, Tick, Report True 100] new_MethodBoard) =
    \<lparr>succeed_count = 2, succeed_process_time = 8, succeed_max_process_time = 5,
     failed_count = 2, failed_process_time = 11, failed_max_process_time = 9\<rparr>"
  using statistics_of_last_periods [of 2 "[Report True 5, Tick, Report False 9, Report True 3, Report False 2, Tick, Report True 100]"]
  by (simp add: STAT_SLOT_COUNT_def stats_of_def calls_before_def period_calls_def times_of_def longest_def upt_rec)

text \<open>C18: The hash cache of the pool is transparent: \<open>FindService\<close> finds what the ordered map holds,
  and after a registration it finds the new service under its name and everything else as before; a
  name that is taken is refused and nothing changes.\<close>
theorem find_after_register:
  assumes "pool_ok p" and "pool_RegisterService svc own p = (ok, p')"
  shows "pool_ok p' \<and> FindService n p = map_of (sp_map p) n
    \<and> (ok \<longleftrightarrow> FindService (sv_full_name svc) p = None)
    \<and> FindService n p' = (if ok \<and> n = sv_full_name svc then Some (length (sp_boards p)) else FindService n p)"
  using pool_ok_register [OF assms] FindService_map [OF assms(1)] register_find [OF assms] by blast

theorem find_after_register_witness:
  "FindService ''pkg.Echo'' (snd (pool_RegisterService demo_service True new_ServicePool)) = Some 0"
  using find_after_register [OF pool_ok_new, of demo_service True True
      "snd (pool_RegisterService demo_service True new_ServicePool)" "''pkg.Echo''"]
  by (simp add: pool_RegisterService_def new_ServicePool_def demo_service_def Let_def)

text \<open>C19: \<open>ListService\<close>, which walks the linked list of boards, ends and lists every registered
  service once, in the order of the names; \<open>NextSlot\<close> reaches every board.\<close>
theorem list_services:
  assumes "pool_ok p"
  shows "ListService p = Some (map snd (sp_map p))
    \<and> pool_NextSlot p = Some (p\<lparr>sp_boards := map sb_NextSlot (sp_boards p)\<rparr>)"
  using ListService_map [OF assms] pool_NextSlot_all [OF assms] by blast

theorem list_services_witness:
  "ListService (snd (pool_RegisterService demo_service True new_ServicePool)) = Some [0]"
proof -
  let ?p = "snd (pool_RegisterService demo_service True new_ServicePool)"
  have "pool_ok ?p"
    by (rule pool_ok_register [OF pool_ok_new, of demo_service True "fst (pool_RegisterService demo_service True new_ServicePool)"]) simp
  from list_services [OF this] show ?thesis
    by (simp add: pool_RegisterService_def new_ServicePool_def Let_def)
qed

text \<open>C20: A call of \<open>/package.Service.Method\<close> reaches the service registered under
  \<open>package.Service\<close> with the method that the descriptor finds under \<open>Method\<close>.\<close>
theorem registered_service_answers:
  assumes "pool_ok p" and "pool_RegisterService svc own p = (True, p')"
    and "CHR ''.'' \<notin> set m" and "find_method svc m = Some md"
  shows "handlerGetServiceAndMethod find_method (sv_full_name svc @ ''.'' @ m) p' = (True, Some svc, Some md)"
  by (rule lookup_registered) (fact assms)+

theorem registered_service_answers_witness:
  "handlerGetServiceAndMethod (\<lambda>s n. find (\<lambda>m. md_name m = n) (sv_methods s)) ''pkg.Echo.Say''
     (snd (pool_RegisterService demo_service True new_ServicePool)) =
   (True, Some demo_service, Some (hd (sv_methods demo_service)))"
  using registered_service_answers [OF pool_ok_new, of demo_service True
      "snd (pool_RegisterService demo_service True new_ServicePool)" "''Say''"
      "\<lambda>s n. find (\<lambda>m. md_name m = n) (sv_methods s)" "hd (sv_methods demo_service)"]
  by (simp add: pool_RegisterService_def new_ServicePool_def demo_service_def Let_def)

section \<open>Numbers\<close>

text \<open>C21: \<open>convert\<close>, with its table of digits on both sides of zero, prints every integer (the
  least one of a width included) as a minus sign where it is negative and its decimal digits.\<close>
theorem convert_prints_decimal: "convert i = (if i < 0 then ''-'' else []) @ dec_str (nat \<bar>i\<bar>)"
  by (rule convert_correct)

text \<open>C22: \<open>convertHex\<close> prints a pointer as the upper-case hexadecimal numeral of its value: read with the
  values of the characters '0' to '9' and 'A' to 'F' it gives the pointer back, it holds no other
  character, is not empty, and has no leading zero unless the pointer is null.\<close>
theorem convertHex_prints_value:
  "hex_val (convertHex p) = unat p \<and> set (convertHex p) \<subseteq> set ''0123456789ABCDEF''
    \<and> convertHex p \<noteq> [] \<and> (hd (convertHex p) = CHR ''0'' \<longleftrightarrow> p = 0)"
  using convertHex_correct by blast

theorem convertHex_prints_example: "convertHex 48879 = ''BEEF''"
  by (simp add: convertHex_def convertHex_loop.simps digitsHex_def)

section \<open>Remote calls\<close>

text \<open>C23: A whole call between two idle connections: nothing is queued on either, the parsers are reset, the
  read buffers are empty and of equal pieces, and the write buffers are empty with the room of a header left
  behind the writing position in its piece. One call is queued; its name fits the parser (not empty, under 253
  characters, no space), both messages can be serialised and leave a piece free in both buffers, the answer is not
  empty, the service and the method are found, parse the whole request and do not fail. Then the client
  writes the request; if the server receives its bytes, it calls the service and writes the answer; if the
  client receives those bytes, the call has its response and the status \<open>OK\<close>, its closure is run once and
  nothing is queued any more.\<close>
theorem call_completes:
  assumes "client_idle dbs s" and "ch_send s = [a]"
    and "ch_calls s a = Some c" and "cc_method c = Some name" and "ct_request c = Some m" and "ct_response c = Some m0"
    and "name_ok name" and "ct_req_send_size c = 0" and "server_idle dbs u" and "0 < dbs" and "dbs < 2 ^ 31"
    and "co_serialize co m = Some body" and "fits dbs (length (que (ss_writebuf s))) body"
    and "fits dbs (length (que (ss_readbuf u))) body"
    and "sv_find sv name = (True, Some svc, Some md)" and "sv_parse sv svc md body = (Some m', length body)"
    and "sv_call sv svc md m' (fresh_call (scast (ch_seq s + 1)) m') = (res, d)" and "\<not> Failed d"
    and "sv_serialize sv res = Some out" and "fits dbs (length (que (ss_writebuf u))) out"
    and "fits dbs (length (que (ss_readbuf s))) out" and "co_parse co out = (Some res', length out)" and "0 < length out"
  shows "\<exists>t t1. Channel_OnWriteable co dbs s = Done t
    \<and> Channel_OnMessageSended opt (int (length (content (ss_writebuf t)))) t = Done t1
    \<and> (\<forall>u1. arrived (content (ss_writebuf t)) u u1 \<longrightarrow>
        (\<exists>v. MessageStream_OnRecived (server_hooks sv addr dbs names) dbs (int (length (content (ss_writebuf t)))) u1 = Done (0, v)
         \<and> (\<forall>t2. arrived (content (ss_writebuf v)) t1 t2 \<longrightarrow>
             (\<exists>w c'. ConnectStream_OnRecived (client_hooks co opt dbs names') dbs (int (length (content (ss_writebuf v)))) t2 = Done (0, w)
              \<and> queued w = [] \<and> ch_log w = ch_log s @ [(a, error_number OK)]
              \<and> ch_calls w a = Some c' \<and> ct_response c' = Some res' \<and> ct_status c' = error_number OK
              \<and> ch_ran w = ch_ran s @ (case cc_done c of None \<Rightarrow> [] | Some f \<Rightarrow> [f])))))"
  by (rule call_answered) (fact assms)+

theorem call_completes_witness:
  "\<exists>t t1. Channel_OnWriteable demo_codec 4096 demo_channel = Done t
    \<and> Channel_OnMessageSended demo_options (int (length (content (ss_writebuf t)))) t = Done t1"
proof -
  have "name_ok ''pkg.Echo.Say''" by (simp add: name_ok_def)
  then show ?thesis
    using call_completes [OF demo_channel_idle _ _ _ _ _ _ _ demo_server_idle, of 0 demo_call "''pkg.Echo.Say''" "''hi''" "[]"
      demo_codec "''hi''" demo_services "()" "()" "''hi''" "''hihi''" "fresh_call (scast (ch_seq demo_channel + 1)) ''hi''"
      "''hihi''" "''hihi''" demo_options "\<lambda>_ n. n" "\<lambda>_. ([], [])" "\<lambda>_. ([], [])"]
    by (auto simp: demo_codec_def demo_services_def demo_call_def fits_def MAX_HEADER_SIZE_def fresh_call_def
      Failed_def server_SetStatus_def demo_channel_def demo_server_def ServerConnect_Start_def AddEventASync_def post_task_def)
qed



text \<open>Closing the channel gives every call that is still queued its status, exactly one; the closures
  of asynchronous calls are not run then.\<close>
theorem close_completes_calls:
  assumes "calls_ok A s" and "ss_refs s \<noteq> 1"
  shows "\<exists>t. Channel_OnClose s = Done t \<and> queued t = [] \<and> distinct (completed t) \<and> set (completed t) = A
    \<and> ch_ran t = ch_ran s \<and> ch_deleted t"
proof (cases "queued s = []")
  case True
  then show ?thesis using assms
    by (auto simp: Channel_OnClose_def queued_def ss_ReleaseRef_def calls_ok_def completed_def)
next
  case False
  then have "Channel_OnClose s = bind_outcome (Channel_OnMessageError CLIENT_CANCEL_BY_CLOSE s)
      (\<lambda>s. bind_outcome (ss_ReleaseRef s) (\<lambda>s. Done (s\<lparr>ch_deleted := True\<rparr>)))"
    by (auto simp: Channel_OnClose_def queued_def)
  then show ?thesis
    using assms(2) calls_ok_queued [OF assms(1)] cancelled_ok [OF assms(1), of CLIENT_CANCEL_BY_CLOSE]
    by (auto simp: OnMessageError_eq ss_ReleaseRef_def cancelled_def calls_ok_def queued_def completed_def)
qed

text \<open>C25: A request that cannot be written, because it cannot be serialised or has no room, no other call being
  on its way: its call gets its status and is queued as sent all the same; closing the connection gives it a second
  one (where another owner still holds the channel).\<close>
theorem unsent_call_completes_twice:
  assumes "ch_send s = [a]" and "ch_wait s = []" and "ch_done s = []"
    and "ch_calls s a = Some c" and "cc_method c = Some name" and "ct_request c = Some m" and "ss_refs s \<noteq> 1"
    and "co_serialize co m = None \<or> snd (begin_packet dbs (ss_writebuf s)) = None"
  shows "\<exists>t u. Channel_OnWriteable co dbs s = Done t \<and> ch_wait t = [a] \<and> completed t = completed s @ [a]
    \<and> Channel_OnClose t = Done u \<and> completed u = completed s @ [a, a]"
  using failed_send_completes_twice [OF assms] .

theorem unsent_call_completes_twice_witness:
  "\<exists>t u. Channel_OnWriteable (demo_codec\<lparr>co_serialize := (\<lambda>_. None)\<rparr>) 4096 demo_channel = Done t
    \<and> Channel_OnClose t = Done u \<and> completed u = [0, 0]"
  using unsent_call_completes_twice [of demo_channel 0 demo_call "''pkg.Echo.Say''" "''hi''" "demo_codec\<lparr>co_serialize := (\<lambda>_. None)\<rparr>" 4096]
  by (auto simp: demo_channel_def demo_call_def demo_codec_def completed_def)

text \<open>C26: The controllers of the server. In any run of messages that leave the connection open, of reports
  while at most one answer is on its way, and of errors, the queued controllers are distinct and exactly those
  alive; closing the connection then frees every one of them, once (where the poller still holds a reference).
  The limits are needed, as the properties of unserialised and of second answers show.\<close>
theorem controllers_freed_once:
  assumes "rtranclp (server_step sv addr dbs) s t" and "ctl_inv s" and "ss_refs s \<noteq> 1"
  shows "ctl_inv t \<and> (\<exists>u. ServerConnect_OnClose t = Done u \<and> sc_ctls u = Map.empty \<and> sc_deleted u)"
  using server_run_inv [OF assms(1,2)] OnClose_frees [of t] assms(3) by auto

theorem controllers_freed_once_witness:
  "\<exists>t u. ServerConnect_OnMessageError HTTP_METHOD_NOTFOUND demo_server = Done t
    \<and> ServerConnect_OnClose t = Done u \<and> sc_ctls u = Map.empty"
proof -
  have i: "ctl_inv demo_server" "ss_refs demo_server \<noteq> 1"
    by (simp_all add: ctl_inv_def demo_server_def ServerConnect_Start_def AddEventASync_def post_task_def)
  have b: "wf_buf (ss_writebuf demo_server)" "sc_pending demo_server = []" "ss_writebuf demo_server = new_write_buffer 4 4096"
    using demo_server_idle by (simp_all add: server_idle_def idle_def demo_server_def ServerConnect_Start_def AddEventASync_def post_task_def)
  have "\<forall>p \<in> set (que (ss_writebuf demo_server)). psize p < 2 ^ 31"
    unfolding b(3) by (simp add: new_write_buffer_def new_iobuf_def iobuf.defs write_buffer.defs new_piece_def)
  then obtain t where t: "ServerConnect_OnMessageError HTTP_METHOD_NOTFOUND demo_server = Done t"
    using error_answer_written [of demo_server] b(2) wf_bufD [OF b(1)] by blast
  then have "rtranclp (server_step demo_services (\<lambda>_ n. n) 4096) demo_server t"
    by (intro r_into_rtranclp server_step.failed)
  from controllers_freed_once [OF this i] show ?thesis using t by blast
qed

text \<open>C27: An answer that cannot be serialised, the first one on a connection whose write buffer is idle with
  the room of a header: the error goes out, but the controller is deleted and left in the queue, so that closing the
  connection deletes it again.\<close>
theorem unserialised_answer_double_free:
  assumes "sc_pending s = []" and "sc_ctls s a = Some c" and "sv_serialize sv m = None"
    and "idle dbs (ss_writebuf s)" and "it_pos (writepos (ss_writebuf s)) + MAX_HEADER_SIZE \<le> dbs" and "dbs < 2 ^ 31"
  shows "\<exists>t. SendMessage sv addr dbs a (Some m) s = Done t \<and> sc_pending t = [a] \<and> sc_ctls t a = None
    \<and> ServerConnect_OnClose t = Fault"
  using unserialised_answer [OF assms] .

theorem unserialised_answer_double_free_witness:
  "\<exists>t. SendMessage (demo_services\<lparr>sv_serialize := (\<lambda>_. None)\<rparr>) (\<lambda>_ n. n) 4096 0 (Some ''hi'')
      (demo_server\<lparr>sc_ctls := [0 \<mapsto> blank_controller]\<rparr>) = Done t \<and> ServerConnect_OnClose t = Fault"
  using unserialised_answer_double_free [of "demo_server\<lparr>sc_ctls := [0 \<mapsto> blank_controller]\<rparr>" 0 blank_controller
    "demo_services\<lparr>sv_serialize := (\<lambda>_. None)\<rparr>" "''hi''" 4096 "\<lambda>_ n. n"] demo_server_idle
  by (auto simp: server_idle_def)

text \<open>C28: Two requests before the first answer is sent: when a report covers all of the first answer, the second
  answer is not written; its controller is queued a second time, and closing the connection deletes it twice.\<close>
theorem second_answer_never_written:
  assumes "sc_pending s = [a, b]" and "sc_ctls s a = Some c" and "sc_ctls s b = Some d" and "a \<noteq> b"
    and "\<not> ss_close_when_empty s" and "ct_res_pack_size c \<le> ct_res_send_size c + word_of_int n"
  shows "\<exists>t. ServerConnect_OnMessageSended sv addr dbs n s = Done t \<and> sc_pending t = [b, b]
    \<and> ss_writebuf t = ss_writebuf s \<and> ServerConnect_OnClose t = Fault"
  using second_answer_lost [OF assms] .

theorem second_answer_never_written_witness:
  "\<exists>t. ServerConnect_OnMessageSended demo_services (\<lambda>_ n. n) 4096 100
      (demo_server\<lparr>sc_pending := [0, 1], sc_ctls := [0 \<mapsto> blank_controller, 1 \<mapsto> blank_controller]\<rparr>) = Done t
    \<and> sc_pending t = [1, 1]"
  using second_answer_never_written [of "demo_server\<lparr>sc_pending := [0, 1], sc_ctls := [0 \<mapsto> blank_controller, 1 \<mapsto> blank_controller]\<rparr>"
    0 1 blank_controller blank_controller 100 demo_services "\<lambda>_ n. n" 4096]
  by (auto simp: blank_controller_def demo_server_def ServerConnect_Start_def AddEventASync_def post_task_def)

section \<open>Connections\<close>

text \<open>C29: A connection of the server is closed and taken off the poller at most once, whatever events and
  answers happen: after any sequence of events that runs without a fault, \<open>DelEvent\<close> has been posted once if the
  stream is closed and not at all if it is open.\<close>
theorem server_taken_off_once:
  assumes "on_events (server_hooks sv addr dbs names) (MessageStream_methods (server_hooks sv addr dbs names) dbs) ms s = Done t"
    and "\<not> ss_isClosed s" and "dels s = 0"
  shows "dels t = (if ss_isClosed t then 1 else 0)"
  using assms by (rule server_stream.message.taken_off_once)

theorem server_taken_off_once_witness:
  "\<exists>t. on_events (server_hooks demo_services (\<lambda>_ n. n) 4096 (\<lambda>_. ([], [])))
      (MessageStream_methods (server_hooks demo_services (\<lambda>_ n. n) 4096 (\<lambda>_. ([], []))) 4096) [EVENT_ERR, EVENT_ERR] demo_server = Done t
    \<and> dels t = 1"
proof -
  let ?hk = "server_hooks demo_services (\<lambda>_ n. n) 4096 (\<lambda>_. ([], []))"
  let ?t = "(post_task Del_event (demo_server\<lparr>ss_isClosed := True, ss_isConnected := False, ss_refs := 1, sc_deleted := True\<rparr>))"
  have "OnEvent ?hk (MessageStream_methods ?hk 4096) EVENT_ERR demo_server = Done ?t"
    by (simp add: OnEvent_def event_flags MessageStream_methods_def SocketStream_OnClose_def server_hooks_def
      ServerConnect_OnClose_def ss_ReleaseRef_def demo_server_def ServerConnect_Start_def AddEventASync_def post_task_def)
  moreover have "OnEvent ?hk (MessageStream_methods ?hk 4096) EVENT_ERR ?t = Done ?t"
    by (simp add: OnEvent_def post_task_def)
  ultimately have r: "on_events ?hk (MessageStream_methods ?hk 4096) [EVENT_ERR, EVENT_ERR] demo_server = Done ?t" by simp
  have "\<not> ss_isClosed demo_server" "dels demo_server = 0" "ss_isClosed ?t"
    by (simp_all add: demo_server_def ServerConnect_Start_def AddEventASync_def post_task_def dels_def)
  then show ?thesis using server_taken_off_once [OF r] r by (intro exI [of _ ?t]) simp
qed

text \<open>The same of the connections of the client.\<close>
theorem client_taken_off_once:
  assumes "on_events (client_hooks co opt dbs names) (ConnectStream_methods (client_hooks co opt dbs names) dbs) ms s = Done t"
    and "\<not> ss_isClosed s" and "dels s = 0"
  shows "dels t = (if ss_isClosed t then 1 else 0)"
  using assms by (rule client_stream.connect.taken_off_once)

theorem client_taken_off_once_witness:
  "\<exists>t. on_events (client_hooks demo_codec demo_options 4096 (\<lambda>_. ([], [])))
      (ConnectStream_methods (client_hooks demo_codec demo_options 4096 (\<lambda>_. ([], []))) 4096) [] demo_channel = Done t \<and> dels t = 0"
  using client_taken_off_once [of demo_codec demo_options 4096 "\<lambda>_. ([], [])" "[]" demo_channel demo_channel]
  by (simp add: demo_channel_def dels_def)

text \<open>C30: The loops that cut the received bytes into messages end, on the server and on the client, for any
  content of a well-formed read buffer of equal pieces below 2 GB and any behaviour of the services.\<close>
theorem receive_loops_end:
  assumes "receiving dbs (ss_readbuf s)" and "receiving dbs (ss_readbuf t)"
  shows "(\<exists>r. recv_loop (MessageStream_turn (server_hooks sv addr dbs names) dbs) n s = Some r)
    \<and> (\<exists>r. recv_loop (ConnectStream_turn (client_hooks co opt dbs names') dbs) n t = Some r)"
  using server_handler.MessageStream_ends [of "server_hooks sv addr dbs names" sv addr dbs s n] assms
    client_handler.ConnectStream_ends [of "client_hooks co opt dbs names'" co opt dbs t n]
  by (simp add: server_hooks_def client_hooks_def)

theorem receive_loops_end_witness:
  "\<exists>r. recv_loop (MessageStream_turn (server_hooks demo_services (\<lambda>_ n. n) 4096 (\<lambda>_. ([], []))) 4096) 0 demo_server = Some r"
  using receive_loops_end [of 4096 demo_server demo_channel demo_services "\<lambda>_ n. n" "\<lambda>_. ([], [])" 0 demo_codec
    demo_options "\<lambda>_. ([], [])"] demo_server_idle demo_channel_idle
  unfolding server_idle_def client_idle_def by blast

text \<open>C31: A request whose bytes arrive in two events at an empty read buffer of equal pieces below 2 GB that its
  body fits into, the parser being reset and the name fitting it: the first event ends and keeps the connection; unless
  the cut is in a value of the header, the turn after the second event hands the request on as if it had
  arrived at once: the handler finds the path, the sequence number and the length in the header, and
  exactly the body in the buffer.\<close>
theorem request_in_two_events:
  assumes "name_ok name" and "length body < 2 ^ 31" and "length body + 1 < total (que (ss_readbuf s))"
    and "receiving dbs (ss_readbuf s)" and "content (ss_readbuf s) = []" and "st_reqheader s = HttpRequestHeader_Reset r'"
    and "d1 @ d2 = request_bytes name seq r body" and "d2 \<noteq> []" and "arrived d1 s s1"
  shows "\<exists>s2. MessageStream_OnRecived hk dbs n1 s1 = Done (0, s2)
    \<and> (\<forall>s3. h_state (st_reqheader s2) \<noteq> REQ_VALUE_R \<and> arrived d2 s2 s3 \<longrightarrow>
        (\<exists>b h m. MessageStream_turn hk dbs n2 s3 =
           handle_packet hk dbs (\<lambda>s. s\<lparr>st_reqheader := HttpRequestHeader_Reset (st_reqheader s)\<rparr>) m
             (s3\<lparr>ss_readbuf := b, st_reqheader := h\<rparr>)
         \<and> content b = body \<and> rq_path h = CHR ''/'' # name \<and> GetSeq h = seq \<and> GetContentLength h = int (length body)))"
proof -
  have np: "\<not> isParsed (st_reqheader s)" "h_state (st_reqheader s) \<noteq> REQ_VALUE_R"
    using assms(6) by (simp_all add: isParsed_def HttpRequestHeader_Reset_def HttpHeader_Reset_def)
  note H = header_text_request [OF assms(1,2), of seq r r', folded assms(6)]
  obtain s2 where s2: "MessageStream_OnRecived hk dbs n1 s1 = Done (0, s2)"
    using first_event [OF assms(4,5) np(1) H assms(7) [unfolded request_bytes_def] assms(8,3,9)] by blast
  show ?thesis
  proof (intro exI [of _ s2] conjI [OF s2] allI impI, elim conjE)
    fix s3 assume "h_state (st_reqheader s2) \<noteq> REQ_VALUE_R" "arrived d2 s2 s3"
    from second_event [OF assms(4,5) np H assms(7) [unfolded request_bytes_def] assms(8,3,9) s2 this]
    show "\<exists>b h m. MessageStream_turn hk dbs n2 s3 =
           handle_packet hk dbs (\<lambda>s. s\<lparr>st_reqheader := HttpRequestHeader_Reset (st_reqheader s)\<rparr>) m
             (s3\<lparr>ss_readbuf := b, st_reqheader := h\<rparr>)
         \<and> content b = body \<and> rq_path h = CHR ''/'' # name \<and> GetSeq h = seq \<and> GetContentLength h = int (length body)"
      by blast
  qed
qed

theorem request_in_two_events_witness:
  "\<exists>d1 c s1 s2 s3 b h m. d1 @ [c] = request_bytes ''pkg.Echo.Say'' 1 demo_request ''hi'' \<and> arrived d1 demo_server s1
    \<and> MessageStream_OnRecived (server_hooks demo_services (\<lambda>_ n. n) 4096 (\<lambda>_. ([], []))) 4096 0 s1 = Done (0, s2)
    \<and> arrived [c] s2 s3 \<and> MessageStream_turn (server_hooks demo_services (\<lambda>_ n. n) 4096 (\<lambda>_. ([], []))) 4096 1 s3 =
      handle_packet (server_hooks demo_services (\<lambda>_ n. n) 4096 (\<lambda>_. ([], []))) 4096
        (\<lambda>s. s\<lparr>st_reqheader := HttpRequestHeader_Reset (st_reqheader s)\<rparr>) m (s3\<lparr>ss_readbuf := b, st_reqheader := h\<rparr>)
    \<and> content b = ''hi''"
proof -
  let ?hk = "server_hooks demo_services (\<lambda>_ n. n) 4096 (\<lambda>_. ([], []))" and ?bytes = "request_bytes ''pkg.Echo.Say'' 1 demo_request ''hi''"
  have name: "name_ok ''pkg.Echo.Say''" by (simp add: name_ok_def)
  obtain r' where R: "ss_readbuf demo_server = new_read_buffer 4 4096" "st_reqheader demo_server = HttpRequestHeader_Reset r'"
    using demo_server_idle by (auto simp: server_idle_def demo_server_def ServerConnect_Start_def AddEventASync_def post_task_def)
  have rb: "receiving 4096 (ss_readbuf demo_server)" "content (ss_readbuf demo_server) = []"
    unfolding R by (simp_all add: receiving_new)
  have tot: "total (que (ss_readbuf demo_server)) = 16384" using receiving_total [OF rb(1)] R(1) by simp
  obtain d1 c where d: "d1 @ [c] = ?bytes" using request_bytes_ne by (metis append_butlast_last_id)
  have len: "length ?bytes < 1026" using request_bytes_length [OF name, of 1 demo_request "''hi''"] by (simp add: MAX_HEADER_SIZE_def)
  then have "length d1 < 1026" unfolding d [symmetric] by simp
  then have "length d1 < room (ss_readbuf demo_server)" using tot rb(2) by (simp add: room_def)
  then obtain s1 where s1: "arrived d1 demo_server s1" using arrived_exists rb(1) by (auto simp: receiving_def)
  have small: "length ''hi'' + 1 < total (que (ss_readbuf demo_server))" "length ''hi'' < (2 :: nat) ^ 31" using tot by simp_all
  note T = request_in_two_events [OF name small(2,1) rb R(2) d not_Cons_self2 s1, of ?hk 0 1]
  let ?turn = "\<lambda>s3 b h m. MessageStream_turn ?hk 4096 1 s3 =
      handle_packet ?hk 4096 (\<lambda>s. s\<lparr>st_reqheader := HttpRequestHeader_Reset (st_reqheader s)\<rparr>) m
        (s3\<lparr>ss_readbuf := b, st_reqheader := h\<rparr>)"
  from T obtain s2 where s2: "MessageStream_OnRecived ?hk 4096 0 s1 = Done (0, s2)"
    and two: "\<forall>s3. h_state (st_reqheader s2) \<noteq> REQ_VALUE_R \<and> arrived [c] s2 s3 \<longrightarrow> (\<exists>b h m. ?turn s3 b h m
      \<and> content b = ''hi'' \<and> rq_path h = CHR ''/'' # ''pkg.Echo.Say'' \<and> GetSeq h = 1 \<and> GetContentLength h = int (length ''hi''))"
    by (elim exE conjE) (rule that)
  have np: "\<not> isParsed (st_reqheader demo_server)"
    unfolding R by (simp add: isParsed_def HttpRequestHeader_Reset_def HttpHeader_Reset_def)
  note H = header_text_request [OF name small(2), of 1 demo_request r', folded R(2)]
  have "length (drop 1 ''hi'') = 1" by simp
  have whole: "\<not> length d1 < length (concat (HttpRequest_lines (SetContentLength (word_of_nat (length ''hi''))
      (SetSeq 1 (request_header ''pkg.Echo.Say'' demo_request)))))"
    using arg_cong [OF d, of length] by (simp add: request_bytes_def)
  have p: "isParsed (st_reqheader s2)" "receiving 4096 (ss_readbuf s2)" "room (ss_readbuf s2) > 1"
    using first_event [OF rb np H d [unfolded request_bytes_def] not_Cons_self2 small(1) s1, of ?hk 0] s2 whole tot
      arg_cong [OF d, of length] by (auto simp: room_def request_bytes_def)
  obtain s3 where s3: "arrived [c] s2 s3" using arrived_exists [of s2 "[c]"] p by (auto simp: receiving_def)
  have "h_state (st_reqheader s2) \<noteq> REQ_VALUE_R" using p(1) by (simp add: isParsed_def)
  with two s3 obtain b h m where "?turn s3 b h m" "content b = ''hi''" by blast
  then show ?thesis using s2 s3 d s1 by blast
qed

section \<open>Streams\<close>

text \<open>C32: \<open>OnReadable\<close> of a stream whose reading position is at the border of a piece and that has no method of its own
  for readable events, where what \<open>readv\<close> will return leaves a byte free and holds no end of the stream: whatever sizes
  \<open>readv\<close> returns, all bytes are appended to the read buffer in order, and the receiving method is called
  once with their number (and not at all when nothing came).\<close>
theorem readable_appends:
  assumes "wf_buf (ss_readbuf s)" and "it_pos (readpos (ss_readbuf s)) = 0" and "hk_readable hk = None"
    and "[] \<notin> set (ss_in s)" and "length (concat (ss_in s)) < room (ss_readbuf s)"
  shows "\<exists>u. arrived (concat (ss_in s)) s u \<and> OnReadable hk R s =
    (if ss_in s = [] then Done (0, u\<lparr>ss_in := []\<rparr>)
     else bind_outcome (R (int (length (concat (ss_in s)))) (u\<lparr>ss_in := []\<rparr>)) (\<lambda>(_, t). Done (0, t)))"
proof -
  obtain b where b: "OnReadable hk R s =
      (if ss_in s = [] then Done (0, s\<lparr>ss_readbuf := b, ss_in := []\<rparr>)
       else bind_outcome (R (int (length (concat (ss_in s)))) (s\<lparr>ss_readbuf := b, ss_in := []\<rparr>)) (\<lambda>(_, s). Done (0, s)))"
    "wf_buf b" "content b = content (ss_readbuf s) @ concat (ss_in s)" "readpos b = readpos (ss_readbuf s)"
    "same_layout (que (ss_readbuf s)) (que b)"
    using OnReadable_reads [OF assms, of R] by blast
  then have "arrived (concat (ss_in s)) s (s\<lparr>ss_readbuf := b\<rparr>)" by (auto simp: arrived_def)
  then show ?thesis using b(1) by (intro exI [of _ "s\<lparr>ss_readbuf := b\<rparr>"]) simp
qed

theorem readable_appends_witness:
  "\<exists>u. arrived ''GET '' demo_server u \<and> OnReadable (server_hooks demo_services (\<lambda>_ n. n) 4096 (\<lambda>_. ([], [])))
     (\<lambda>n s. Done (0, s)) (demo_server\<lparr>ss_in := [''GE'', ''T '']\<rparr>) = Done (0, u)"
proof -
  let ?hk = "server_hooks demo_services (\<lambda>_ n. n) 4096 (\<lambda>_. ([], []))"
  let ?s = "demo_server\<lparr>ss_in := [''GE'', ''T '']\<rparr>"
  have R: "ss_readbuf demo_server = new_read_buffer 4 4096" "ss_in demo_server = []"
    by (simp_all add: demo_server_def ServerConnect_Start_def AddEventASync_def post_task_def)
  have rb: "receiving 4096 (ss_readbuf demo_server)" unfolding R by (simp add: receiving_new)
  have "room (ss_readbuf demo_server) = 16384" using receiving_total [OF rb] R(1) by (simp add: room_def)
  then obtain u where u: "arrived ''GET '' ?s u" "OnReadable ?hk (\<lambda>n s. Done (0, s)) ?s = Done (0, u\<lparr>ss_in := []\<rparr>)"
    using readable_appends [of ?s ?hk "\<lambda>n s. Done (0, s)"] rb R(1) by (auto simp: receiving_def server_hooks_def)
  then obtain b where b: "u = ?s\<lparr>ss_readbuf := b\<rparr>" "wf_buf b" "content b = content (ss_readbuf demo_server) @ ''GET ''"
    "readpos b = readpos (ss_readbuf demo_server)" "same_layout (que (ss_readbuf demo_server)) (que b)"
    unfolding arrived_def by auto
  have "u\<lparr>ss_in := []\<rparr> = demo_server\<lparr>ss_readbuf := b\<rparr>"
    unfolding b(1) by (simp add: demo_server_def ServerConnect_Start_def AddEventASync_def post_task_def)
  then have "arrived ''GET '' demo_server (u\<lparr>ss_in := []\<rparr>)" using b(2-5) unfolding arrived_def by blast
  then show ?thesis using u(2) by blast
qed

text \<open>C33: An empty read buffer whose position stands inside a piece, which is so after every message that
  does not end with its piece: the next event fills one segment more than the array of \<open>OnReadable\<close> has.\<close>
theorem next_read_overruns:
  assumes "wf_buf (ss_readbuf s)" and "isEmpty (ss_readbuf s)" and "0 < it_pos (readpos (ss_readbuf s))"
    and "hk_readable hk = None"
  shows "OnReadable hk R s = Fault
    \<and> length (snd (GetReciveBuffer (ss_readbuf s))) = length (que (ss_readbuf s)) + 1"
proof -
  have e: "readpos (ss_readbuf s) = writepos (ss_readbuf s)" using assms(2) by (simp add: isEmpty_def)
  then have nf: "\<not> isFull (ss_readbuf s)" by (simp add: isFull_def)
  have "it_idx (writepos (ss_readbuf s)) < length (que (ss_readbuf s))"
    using wf_bufD [OF assms(1)] by (auto simp: wf_it_def)
  then show ?thesis using OnReadable_overflow [OF assms] recv_segments(1) [OF assms(1) nf] assms(3) e iov_between_count(2) by simp
qed

theorem next_read_overruns_witness:
  "OnReadable (server_hooks demo_services (\<lambda>_ n. n) 4096 (\<lambda>_. ([], []))) (\<lambda>n s. Done (0, s))
     (demo_server\<lparr>ss_readbuf := \<lparr>que = que demo_buffer, readpos = mk_it 1 1, writepos = mk_it 1 1,
       beginRead = mk_it 0 0\<rparr>\<rparr>) = Fault"
  using next_read_overruns [of "demo_server\<lparr>ss_readbuf := \<lparr>que = que demo_buffer, readpos = mk_it 1 1,
      writepos = mk_it 1 1, beginRead = mk_it 0 0\<rparr>\<rparr>"
      "server_hooks demo_services (\<lambda>_ n. n) 4096 (\<lambda>_. ([], []))" "\<lambda>n s. Done (0, s)"]
  by (simp add: server_hooks_def demo_buffer_def wf_buf_def wf_que_def wf_it_def isEmpty_def)

text \<open>C34: \<open>OnWriteable\<close> of a stream without a method of its own for it, where the free room is at least the largest
  piece, so that the segments fit into the array, and \<open>writev\<close> does not fail: if the socket takes bytes until the
  write buffer is empty, exactly the unread bytes go out, in order and once, however \<open>writev\<close> cuts them, and
  the sent method is called with their number; if it wrote nothing new, the event goes back to waiting for input.\<close>
theorem writeable_sends:
  assumes "sendable (ss_writebuf s)" and "content (ss_writebuf s) \<noteq> []" and "hk_writeable hk = None"
    and "0 \<notin> set (ss_out s)" and "length (content (ss_writebuf s)) \<le> sum_list (ss_out s)"
  shows "\<exists>b ks. isEmpty b \<and> wf_buf b \<and> que b = que (ss_writebuf s) \<and> OnWriteable hk S s =
    bind_outcome (S (int (length (content (ss_writebuf s))))
        (s\<lparr>ss_writebuf := b, ss_sent := ss_sent s @ content (ss_writebuf s), ss_out := ks\<rparr>))
      (\<lambda>(_, t). Done (0, if isEmpty (ss_writebuf t) then ModEventAsync True False t else t))"
  using OnWriteable_sends [OF assms] .

theorem writeable_sends_witness:
  "\<exists>t. OnWriteable (server_hooks demo_services (\<lambda>_ n. n) 4096 (\<lambda>_. ([], []))) (\<lambda>n s. Done (0, s))
     (demo_server\<lparr>ss_writebuf := demo_buffer, ss_out := [1, 2]\<rparr>) = Done (0, t) \<and> ss_sent t = ''cde''"
proof -
  let ?s = "demo_server\<lparr>ss_writebuf := demo_buffer, ss_out := [1, 2]\<rparr>"
  have "psz (que demo_buffer) t = 4" if "t < 3" for t using that
    by (auto simp: demo_buffer_def nth_Cons numeral_3_eq_3 less_Suc_eq split: nat.splits)
  then have "sendable demo_buffer" unfolding sendable_def
    by (intro conjI exI [of _ 4] demo_buffer_wf) (simp_all add: demo_buffer_content, simp_all add: demo_buffer_def total_def)
  then show ?thesis
    using writeable_sends [of ?s "server_hooks demo_services (\<lambda>_ n. n) 4096 (\<lambda>_. ([], []))" "\<lambda>n s. Done (0, s)"]
    by (auto simp: demo_buffer_content server_hooks_def demo_server_def ServerConnect_Start_def AddEventASync_def post_task_def)
qed

section \<open>Events\<close>

text \<open>C35: The hand-over of events from the poller to the workers, for a new event of a worker group, in every
  interleaving of its atomic steps: the assertion of \<open>OnEventWrapper\<close> holds, at most one worker is at work on an
  event, and the object is deleted exactly when no owner is left and no task of it is queued or running.\<close>
theorem one_worker_per_event:
  assumes "io_run (new_system e) ls s" and "io_group e" and "io_events e = 0" and "io_refs e = 0"
  shows "\<not> (\<exists>l. io_step s l Fault) \<and> size (active (sys_tasks s)) \<le> 1
    \<and> (sys_dead s \<longleftrightarrow> sys_owners s = 0 \<and> sys_tasks s = {#})"
proof -
  have "io_inv s" using io_run_inv [OF assms(1) io_inv_new [OF assms(2-4)]] .
  then have "\<not> (\<exists>l. io_step s l Fault)" using io_step_inv by blast
  then show ?thesis using \<open>io_inv s\<close> by (auto simp: io_inv_def)
qed

theorem one_worker_per_event_witness:
  "\<exists>s. io_run (new_system (new_IOEvent True)) [Raise EVENT_READ, Own] s \<and> \<not> (\<exists>l. io_step s l Fault)"
proof -
  let ?s0 = "new_system (new_IOEvent True)"
  let ?e = "snd (OnEventAsync EVENT_READ (sys_ev ?s0))"
  let ?s1 = "?s0\<lparr>sys_ev := ?e, sys_tasks := add_mset To_require (sys_tasks ?s0)\<rparr>"
  have m: "mask_ok EVENT_READ" by (rule event_masks_ok) simp
  have "OnEventAsync EVENT_READ (sys_ev ?s0) = (Post_it, ?e)"
    by (simp add: OnEventAsync_def new_system_def RequireRef_def new_IOEvent_def Let_def)
  then have "io_step ?s0 (Raise EVENT_READ) (Done ?s1)" using m by (intro io_step.raise_post) (simp_all add: new_system_def)
  moreover have "io_step ?s1 Own (Done (?s1\<lparr>sys_ev := RequireRef (sys_ev ?s1), sys_owners := Suc (sys_owners ?s1)\<rparr>))"
    by (rule io_step.own) (simp add: new_system_def)
  ultimately obtain s where s: "io_run ?s0 ([] @ [Raise EVENT_READ] @ [Own]) s"
    using io_run.some [OF io_run.some [OF io_run.none]] by (metis append.assoc)
  then show ?thesis using one_worker_per_event [OF s] by (auto simp: new_IOEvent_def)
qed

text \<open>C36: No event is lost, for a new event of a worker group. From every reachable state, steps of the workers alone
  lead to one where every bit raised so far has been handed to \<open>OnEvent\<close> and no task is left; and they cannot go on
  for ever: every such step lowers \<open>work_left\<close>.\<close>
theorem events_handed_on:
  assumes "io_run (new_system e) ls s" and "io_group e" and "io_events e = 0" and "io_refs e = 0"
  shows "(\<exists>ks t. io_run s ks t \<and> list_all task_label ks \<and> sys_tasks t = {#} \<and> outstanding (ls @ ks) = 0)
    \<and> (\<forall>l t. io_step s l (Done t) \<and> task_label l \<longrightarrow> work_left t < work_left s)"
proof -
  have i: "io_inv (new_system e)" "io_inv s" using io_inv_new [OF assms(2-4)] io_run_inv [OF assms(1)] by auto
  obtain ks t where t: "io_run s ks t" "list_all task_label ks" "sys_tasks t = {#}" using tasks_drain [OF i(2)] by blast
  have "outstanding (ls @ ks) = 0" using outstanding_idle [OF io_run_append [OF t(1) assms(1)] i(1) t(3)] .
  then show ?thesis using t task_step_decreases i(2) by blast
qed

theorem events_handed_on_witness:
  "\<exists>s ks t. io_run (new_system (new_IOEvent True)) [Raise EVENT_READ] s \<and> io_run s ks t
    \<and> outstanding (Raise EVENT_READ # ks) = 0"
proof -
  let ?s0 = "new_system (new_IOEvent True)"
  let ?e = "snd (OnEventAsync EVENT_READ (sys_ev ?s0))"
  have m: "mask_ok EVENT_READ" by (rule event_masks_ok) simp
  have "OnEventAsync EVENT_READ (sys_ev ?s0) = (Post_it, ?e)"
    by (simp add: OnEventAsync_def new_system_def RequireRef_def new_IOEvent_def Let_def)
  then have "io_step ?s0 (Raise EVENT_READ) (Done (?s0\<lparr>sys_ev := ?e, sys_tasks := add_mset To_require (sys_tasks ?s0)\<rparr>))"
    using m by (intro io_step.raise_post) (simp_all add: new_system_def)
  from io_run.some [OF io_run.none this] obtain s where s: "io_run ?s0 [Raise EVENT_READ] s" by auto
  from events_handed_on [OF s] have "\<exists>ks t. io_run s ks t \<and> outstanding ([Raise EVENT_READ] @ ks) = 0"
    by (auto simp: new_IOEvent_def)
  then show ?thesis using s by auto
qed

section \<open>Timers\<close>

text \<open>C37: \<open>ngx_rbtree_insert\<close> with \<open>ngx_rbtree_insert_value\<close>, of a node that is not in the tree into a red-black
  tree in the order of its keys, ends without a fault and puts the node into its place in this order, behind the
  nodes of the same key; the result is again a red-black tree with its parent pointers, and no node outside of
  it is written.\<close>
theorem tree_insertion:
  assumes "rb_rep z (r, h) T" and "keys_sorted (entries T)" and "h a = Some n" and "a \<noteq> z" and "a \<notin> set (addrs T)"
  shows "\<exists>s' T'. ngx_rbtree_insert ngx_rbtree_insert_value (Some z) (Some a) (r, h) = Some (Done s') \<and> rb_rep z s' T'
    \<and> entries T' = filter (\<lambda>e. entry_key e \<le> rb_key n) (entries T) @ (a, rb_key n, rb_data n)
        # filter (\<lambda>e. rb_key n < entry_key e) (entries T)
    \<and> keys_sorted (entries T') \<and> (\<forall>q. q \<notin> insert a (set (addrs T)) \<longrightarrow> snd s' q = h q)"
proof -
  obtain s' T' xs ys where I: "ngx_rbtree_insert ngx_rbtree_insert_value (Some z) (Some a) (r, h) = Some (Done s')"
    "rb_rep z s' T'" "entries T = xs @ ys" "entries T' = xs @ (a, rb_key n, rb_data n) # ys"
    "\<forall>e \<in> set xs. entry_key e \<le> rb_key n" "\<forall>e \<in> set ys. rb_key n < entry_key e"
    "same_off (insert a (set (addrs T))) h (snd s')" using insert_correct [OF assms] by blast
  have "filter (\<lambda>e. entry_key e \<le> rb_key n) (entries T) = xs" "filter (\<lambda>e. rb_key n < entry_key e) (entries T) = ys"
    using I(5,6) unfolding I(3) by (auto simp: filter_id_conv filter_empty_conv not_le not_less)
  moreover have "keys_sorted (entries T')" unfolding I(4)
    using assms(2) I(5,6) unfolding I(3) by (auto simp: keys_sorted_def sorted_append intro: less_imp_le)
  ultimately show ?thesis using I(1,2,4,7) by (intro exI [of _ s'] exI [of _ T']) (simp add: same_off_def)
qed

definition demo_node :: "64 word \<Rightarrow> bool \<Rightarrow> nat \<Rightarrow> nat rb_node" where
  "demo_node k c l = \<lparr>rb_key = k, rb_red = c, rb_data = None, rb_left = Some l, rb_right = Some 0, rb_parent = Some 4\<rparr>"

definition demo_tree :: "nat rb_state" where
  "demo_tree = (Some 4, [0 \<mapsto> demo_node 0 False 0, 4 \<mapsto> demo_node 5 False 2, 2 \<mapsto> demo_node 3 True 0, 3 \<mapsto> demo_node 4 False 0])"

lemma demo_tree_rep: "rb_rep 0 demo_tree (Nd (Nd Lf True (2, 3, None) Lf) False (4, 5, None) Lf)"
proof -
  have "black_height 1 (Nd (Nd Lf True (2, 3, None) Lf) False (4, 5, None) Lf)" by simp
  then have "rb_tree (Nd (Nd Lf True (2, 3, None) Lf) False (4, 5, None) Lf)" unfolding rb_tree_def by fastforce
  then show ?thesis by (simp add: rb_rep_def at_place_def demo_tree_def demo_node_def holds_def)
qed

theorem tree_insertion_witness:
  "\<exists>s' T'. ngx_rbtree_insert ngx_rbtree_insert_value (Some 0) (Some 3) demo_tree = Some (Done s') \<and> rb_rep 0 s' T'
    \<and> entries T' = [(2, 3, None), (3, 4, None), (4, 5, None)]"
  using tree_insertion [of 0 "fst demo_tree" "snd demo_tree" "Nd (Nd Lf True (2, 3, None) Lf) False (4, 5, None) Lf" 3 "demo_node 4 False 0"]
    demo_tree_rep by (auto simp: keys_sorted_def demo_tree_def demo_node_def)

text \<open>C38: \<open>ngx_rbtree_delete\<close> of a node of a tree, wherever it stands, ends without a fault and takes out exactly
  this node: the others keep their order, keys and data, the result is again a red-black tree, the key of the node
  is 0, and outside of the tree only the parent pointer of the sentinel is written.\<close>
theorem tree_deletion:
  assumes "rb_rep z (r, h) T" and "a \<in> set (addrs T)"
  shows "\<exists>s' T' n. ngx_rbtree_delete (Some z) (Some a) (r, h) = Some (Done s') \<and> rb_rep z s' T'
    \<and> entries T' = filter (\<lambda>e. fst e \<noteq> a) (entries T) \<and> snd s' a = Some n \<and> rb_key n = 0
    \<and> (\<exists>p. snd s' z = map_option (\<lambda>n. n\<lparr>rb_parent := p\<rparr>) (h z))
    \<and> (\<forall>q. q \<notin> insert z (set (addrs T)) \<longrightarrow> snd s' q = h q)"
  using delete_correct [OF assms] unfolding only_parent_def same_off_def by blast

theorem tree_deletion_witness:
  "\<exists>s' T'. ngx_rbtree_delete (Some 0) (Some 4) demo_tree = Some (Done s') \<and> rb_rep 0 s' T' \<and> entries T' = [(2, 3, None)]"
  using tree_deletion [of 0 "fst demo_tree" "snd demo_tree" "Nd (Nd Lf True (2, 3, None) Lf) False (4, 5, None) Lf" 4]
    demo_tree_rep by auto

lemma demo_poller: "\<exists>s. poller_ok ((\<lambda>_. [])(Reading := [(0, 10)], Writing := [(0, 15)])) s \<and> ep_clock s = (\<lambda>_. 10)
    \<and> ep_raised s = [] \<and> dom (ep_events s) = {0} \<and> ep_notify s = 0"
proof -
  obtain s where s: "poller_ok (\<lambda>_. []) s" "dom (ep_events s) = {0}" "ep_notify s = 0" "ep_clock s = (\<lambda>_. 10)" "ep_raised s = []"
    using new_Epoller_ok [of 0 5 "\<lambda>_. 10"] by blast
  then obtain e where "ep_events s 0 = Some e" by auto
  from SetTimeOut_ok [OF s(1) this, of 0 Reading] s(4) obtain s1 where
    R: "poller_ok ((\<lambda>_. [])(Reading := [(0, 10)])) s1" "kept s s1" "ep_clock s1 = (\<lambda>_. 10)" "ep_raised s1 = ep_raised s" by auto
  have "dom (ep_events s1) = {0}" using kept_dom [OF R(2)] s(2) by simp
  then obtain e1 where "ep_events s1 0 = Some e1" by auto
  from SetTimeOut_ok [OF R(1) this, of 5 Writing] R(3) obtain s2 where
    W: "poller_ok ((\<lambda>_. [])(Reading := [(0, 10)], Writing := [(0, 15)])) s2" "kept s1 s2" "ep_clock s2 = (\<lambda>_. 10)"
      "ep_raised s2 = ep_raised s1" by auto
  show ?thesis using W R s kept_dom [OF R(2)] kept_dom [OF W(2)] by (intro exI [of _ s2]) (simp add: kept_def)
qed

text \<open>C39: \<open>ProcessTimeOut\<close> raises every timer that is due, each once, those for writing first and each kind in the
  order of the times; it takes exactly these out of their trees and returns the milliseconds to the next one left,
  or -1 when there is none. The clock is positive, and no timer is more than 2147483 seconds (24 days) ahead: the
  code cuts the difference to 32 bits and multiplies it by 1000.\<close>
theorem timeouts_fire:
  assumes "poller_ok L s" and "0 < ep_clock s 0"
    and "\<forall>k. \<forall>p \<in> set (L k). unat (snd p) - unat (ep_clock s 0) \<le> 2147483"
  shows "\<exists>s'. ProcessTimeOut s = Done (poll_wait (ep_clock s 0) L, s')
    \<and> poller_ok (\<lambda>k. filter (\<lambda>p. ep_clock s 0 < snd p) (L k)) s'
    \<and> ep_raised s' = ep_raised s
        @ map (\<lambda>p. (fst p, WRITE_TIME_OUT)) (filter (\<lambda>p. snd p \<le> ep_clock s 0) (L Writing))
        @ map (\<lambda>p. (fst p, READ_TIME_OUT)) (filter (\<lambda>p. snd p \<le> ep_clock s 0) (L Reading))"
  using ProcessTimeOut_ok [OF assms] due_later [OF poller_sorted [OF assms(1)]] by (auto simp: raised_by_def)

theorem timeouts_fire_witness:
  "\<exists>s s'. ProcessTimeOut s = Done (5000, s') \<and> ep_raised s' = [(0, READ_TIME_OUT)]"
proof -
  let ?L = "(\<lambda>_. [])(Reading := [(0, 10)], Writing := [(0, 15)]) :: timer_kind \<Rightarrow> (nat \<times> 64 word) list"
  obtain s where s: "poller_ok ?L s" "ep_clock s = (\<lambda>_. 10)" "ep_raised s = []" using demo_poller by blast
  have "poll_wait 10 ?L = 5000" by (simp add: poll_wait_def next_times_def later_def)
  moreover have "\<forall>k. \<forall>p \<in> set (?L k). unat (snd p) - unat (ep_clock s 0) \<le> 2147483" by (simp add: s(2))
  moreover have "0 < ep_clock s 0" by (simp add: s(2))
  ultimately show ?thesis using timeouts_fire [OF s(1)] s(2,3) by - (rule exI [of _ s], auto)
qed

text \<open>C40: A turn of the loop of \<open>Poll\<close>, under a clock between 0 and 2^63 and with no timer more than 2147483 seconds
  ahead, where the reported events and those of the tasks are registered (no task follows the removal of its event): first
  the due timers, then the reported events (the notification of the poller itself apart) with the masks of
  \<open>EventToMask\<close>, then, if anything was reported, the posted tasks in order. The trees end up with what the tasks
  make of the lists of timers: setting replaces, deleting removes, taking an event off removes both of its timers.\<close>
theorem turn_of_the_poller:
  assumes "poller_ok L s" and "times_ok (ep_clock s)"
    and "\<forall>k. \<forall>p \<in> set (L k). unat (snd p) - unat (ep_clock s 0) \<le> 2147483"
    and "fst ` set es \<subseteq> dom (ep_events s)" and "ep_notify s \<in> dom (ep_events s)"
    and "live_tasks (dom (ep_events s)) (ep_tasks s)"
  shows "\<exists>s'. Poll_turn es s = Done s'
    \<and> poller_ok (turn_timers (if es = [] then [] else ep_tasks s) L (ep_clock s)) s'
    \<and> ep_raised s' = ep_raised s @ raised_by Writing (due (ep_clock s 0) (L Writing))
        @ raised_by Reading (due (ep_clock s 0) (L Reading)) @ dispatched s es"
  by (rule Poll_turn_ok) (fact assms)+

theorem turn_of_the_poller_witness:
  "\<exists>s s'. Poll_turn [(0, EPOLLIN)] s = Done s' \<and> ep_tasks s = [(0, Set_read_timeout 7), (0, Del_write_timeout)]
    \<and> poller_ok ((\<lambda>_. [])(Reading := [(0, 17)])) s' \<and> ep_raised s' = [(0, READ_TIME_OUT)]"
proof -
  let ?L = "(\<lambda>_. [])(Reading := [(0, 10)], Writing := [(0, 15)]) :: timer_kind \<Rightarrow> (nat \<times> 64 word) list" and ?ts = "[(0, Set_read_timeout 7), (0, Del_write_timeout)]"
  obtain s0 where s0: "poller_ok ?L s0" "ep_clock s0 = (\<lambda>_. 10)" "ep_raised s0 = []" "dom (ep_events s0) = {0}" "ep_notify s0 = 0"
    using demo_poller by blast
  let ?s = "s0\<lparr>ep_tasks := ?ts\<rparr>"
  have ok: "poller_ok ?L ?s" using poller_ok_events [OF s0(1), of ?s] poller_okD(5) [OF s0(1)] by simp
  have "times_ok (ep_clock ?s)" using s0(2) by (simp add: times_ok_def)
  moreover have "turn_timers ?ts ?L (\<lambda>_. 10) = (\<lambda>_. [])(Reading := [(0, 17)])"
    by (rule ext, rename_tac k, case_tac k) (simp_all add: turn_timers_def later_def)
  moreover have "dispatched ?s [(0, EPOLLIN)] = []" using s0(5) by (simp add: dispatched_def)
  moreover have "\<forall>k. \<forall>p \<in> set (?L k). unat (snd p) - unat (ep_clock ?s 0) \<le> 2147483" by (simp add: s0(2))
  ultimately show ?thesis
    using turn_of_the_poller [OF ok, of "[(0, EPOLLIN)]"] s0(2-5)
    by - (rule exI [of _ ?s], simp add: due_def raised_by_def)
qed

end
